(* ===== verification/PB_Prelude.thy ===== *)
theory PB_Prelude
  imports Main "HOL-Library.Word"
begin

text \<open>
  Shared ground of the development: the machine integer types of
  \<^verbatim>\<open>include/packetbalance/abi.h\<close>, the C++ exceptions as values, the byte order of
  the host, decimal printing (\<^verbatim>\<open>std::to_string\<close>) and the few \<^verbatim>\<open>std::string\<close>
  operations the parsers use.

  The host is little endian (the build targets x86-64 and aarch64, and BPF follows the
  host), so \<^verbatim>\<open>memcpy\<close> of four bytes into a \<^verbatim>\<open>uint32_t\<close> puts the first byte in the
  low eight bits.  A value ``in network order'' is such a memory image read as an
  integer.
\<close>

unbundle bit_operations_syntax

named_theorems byte_simps \<open>bytes of words and words of bytes\<close>

type_synonym u8 = "8 word"
type_synonym u16 = "16 word"
type_synonym u32 = "32 word"
type_synonym u64 = "64 word"

section \<open>Exceptions as values\<close>

datatype cpp_error =
    InvalidArgument string
  | RuntimeError string
  | LogicError string
  | ApiError string

type_synonym 'a result = "cpp_error + 'a"

definition bind_result :: "'a result \<Rightarrow> ('a \<Rightarrow> 'b result) \<Rightarrow> 'b result" where
  "bind_result r f = (case r of Inl e \<Rightarrow> Inl e | Inr x \<Rightarrow> f x)"

text \<open>
  A result meets \<open>P\<close> when it is a value, \<open>E\<close> when it is an exception.
\<close>

definition res_spec :: "(cpp_error \<Rightarrow> bool) \<Rightarrow> ('a \<Rightarrow> bool) \<Rightarrow> 'a result \<Rightarrow> bool" where
  "res_spec E P r = (case r of Inl e \<Rightarrow> E e | Inr x \<Rightarrow> P x)"

definition is_runtime_error :: "cpp_error \<Rightarrow> bool" where
  "is_runtime_error e = (case e of RuntimeError _ \<Rightarrow> True | _ \<Rightarrow> False)"

definition is_invalid_argument :: "cpp_error \<Rightarrow> bool" where
  "is_invalid_argument e = (case e of InvalidArgument _ \<Rightarrow> True | _ \<Rightarrow> False)"

section \<open>Byte order\<close>

definition le16 :: "u8 \<Rightarrow> u8 \<Rightarrow> u16" where
  "le16 b0 b1 = ucast b0 OR push_bit 8 (ucast b1)"

definition le32 :: "u8 \<Rightarrow> u8 \<Rightarrow> u8 \<Rightarrow> u8 \<Rightarrow> u32" where
  "le32 b0 b1 b2 b3 =
     ucast b0 OR push_bit 8 (ucast b1) OR push_bit 16 (ucast b2) OR push_bit 24 (ucast b3)"

definition byte16 :: "nat \<Rightarrow> u16 \<Rightarrow> u8" where
  "byte16 k w = ucast (drop_bit (8 * k) w)"

definition byte32 :: "nat \<Rightarrow> u32 \<Rightarrow> u8" where
  "byte32 k w = ucast (drop_bit (8 * k) w)"

definition bswap16 :: "u16 \<Rightarrow> u16" where
  "bswap16 w = le16 (byte16 1 w) (byte16 0 w)"

section \<open>Decimal numbers and strings\<close>

definition digit_char :: "nat \<Rightarrow> char" where
  "digit_char d = char_of (48 + d)"

fun to_string :: "nat \<Rightarrow> string" where
  "to_string n = (if n < 10 then [digit_char n] else to_string (n div 10) @ [digit_char (n mod 10)])"

declare to_string.simps [simp del]

definition isdigit :: "char \<Rightarrow> bool" where
  "isdigit c \<longleftrightarrow> 48 \<le> (of_char c :: nat) \<and> (of_char c :: nat) \<le> 57"

definition digit_val :: "char \<Rightarrow> nat" where
  "digit_val c = of_char c - 48"

definition dec_val :: "nat \<Rightarrow> string \<Rightarrow> nat" where
  "dec_val v s = foldl (\<lambda>v c. v * 10 + digit_val c) v s"

fun rfind :: "char \<Rightarrow> string \<Rightarrow> nat option" where
  "rfind c [] = None"
| "rfind c (x # xs) =
     (case rfind c xs of Some i \<Rightarrow> Some (Suc i) | None \<Rightarrow> if x = c then Some 0 else None)"

fun find_char :: "char \<Rightarrow> string \<Rightarrow> nat option" where
  "find_char c [] = None"
| "find_char c (x # xs) = (if x = c then Some 0 else map_option Suc (find_char c xs))"

definition substr :: "string \<Rightarrow> nat \<Rightarrow> nat \<Rightarrow> string" where
  "substr s pos n = take n (drop pos s)"

section \<open>Lemmas\<close>

lemma bind_result_simps [simp]:
  "bind_result (Inl e) f = Inl e"
  "bind_result (Inr x) f = f x"
  by (simp_all add: bind_result_def)

lemma bind_result_Inr:
  "bind_result r f = Inr y \<longleftrightarrow> (\<exists>x. r = Inr x \<and> f x = Inr y)"
  by (cases r) auto

lemma error_kinds [simp]:
  "is_runtime_error (RuntimeError w)" "\<not> is_runtime_error (InvalidArgument w)"
  "\<not> is_runtime_error (LogicError w)" "\<not> is_runtime_error (ApiError w)"
  "is_invalid_argument (InvalidArgument w)" "\<not> is_invalid_argument (RuntimeError w)"
  "\<not> is_invalid_argument (LogicError w)" "\<not> is_invalid_argument (ApiError w)"
  by (simp_all add: is_runtime_error_def is_invalid_argument_def)

lemma res_spec_simps [simp]: "res_spec E P (Inl e) = E e" "res_spec E P (Inr x) = P x"
  by (simp_all add: res_spec_def)

lemma res_bind:
  "res_spec E P r \<Longrightarrow> (\<And>x. P x \<Longrightarrow> res_spec E Q (f x)) \<Longrightarrow> res_spec E Q (bind_result r f)"
  by (cases r) auto

lemma res_weaken:
  "res_spec E P r \<Longrightarrow> (\<And>e. E e \<Longrightarrow> E' e) \<Longrightarrow> (\<And>x. P x \<Longrightarrow> Q x) \<Longrightarrow> res_spec E' Q r"
  by (cases r) auto

lemma byte16_le16 [simp, byte_simps]:
  "byte16 0 (le16 a b) = a" "byte16 (Suc 0) (le16 a b) = b"
  by (rule bit_word_eqI; auto simp: byte16_def le16_def bit_simps dest: bit_imp_le_length)+

lemma le16_byte16 [simp, byte_simps]: "le16 (byte16 0 w) (byte16 (Suc 0) w) = w"
  by (rule bit_word_eqI) (auto simp: byte16_def le16_def bit_simps)

lemma byte32_le32 [simp, byte_simps]:
  "byte32 0 (le32 a b c d) = a" "byte32 (Suc 0) (le32 a b c d) = b"
  "byte32 2 (le32 a b c d) = c" "byte32 3 (le32 a b c d) = d"
  by (rule bit_word_eqI; auto simp: byte32_def le32_def bit_simps dest: bit_imp_le_length)+

lemma le32_byte32 [simp, byte_simps]:
  "le32 (byte32 0 w) (byte32 (Suc 0) w) (byte32 2 w) (byte32 3 w) = w"
proof (rule bit_word_eqI)
  fix n
  assume "n < LENGTH(32)"
  then consider "n < 8" | "8 \<le> n" "n < 16" | "16 \<le> n" "n < 24" | "24 \<le> n" "n < 32"
    by fastforce
  then show "bit (le32 (byte32 0 w) (byte32 (Suc 0) w) (byte32 2 w) (byte32 3 w)) n \<longleftrightarrow> bit w n"
    by cases (auto simp: byte32_def le32_def bit_simps)
qed

lemma le32_inject [simp]:
  "le32 a b c d = le32 a' b' c' d' \<longleftrightarrow> a = a' \<and> b = b' \<and> c = c' \<and> d = d'"
  by (metis byte32_le32)

lemma bswap16_bswap16 [simp]: "bswap16 (bswap16 w) = w"
  by (simp add: bswap16_def)

lemma bswap16_0_iff [simp]: "bswap16 w = 0 \<longleftrightarrow> w = 0"
proof -
  have "bswap16 0 = 0" by (simp add: bswap16_def byte16_def le16_def)
  then show ?thesis by (metis bswap16_bswap16)
qed

lemma unat_bounds:
  "unat (a :: u8) < 256" "unat (b :: u16) < 65536" "unat (c :: u32) < 4294967296"
  using unsigned_less [of a] unsigned_less [of b] unsigned_less [of c] by simp_all

lemma unat_le16: "unat (le16 a b) = unat a + 256 * unat b"
proof -
  have "le16 a b = ucast a + push_bit 8 (ucast b)"
    unfolding le16_def
    by (rule disjunctive_add [symmetric]) (auto simp: bit_simps dest: bit_imp_le_length)
  moreover have "unat (push_bit 8 (ucast b :: u16)) = 256 * unat b"
    using unat_bounds(1) [of b] by (simp add: push_bit_eq_mult unat_word_ariths unsigned_ucast_eq take_bit_eq_mod)
  ultimately show ?thesis
    using unat_bounds(1) [of a] unat_bounds(1) [of b]
    by (simp add: unat_word_ariths unsigned_ucast_eq take_bit_eq_mod)
qed

lemma of_char_digit_char [simp]: "d < 10 \<Longrightarrow> of_char (digit_char d) = 48 + d"
  by (simp add: digit_char_def of_char_of)

lemma isdigit_digit_char [simp]: "d < 10 \<Longrightarrow> isdigit (digit_char d)"
  by (simp add: isdigit_def)

lemma digit_val_digit_char [simp]: "d < 10 \<Longrightarrow> digit_val (digit_char d) = d"
  by (simp add: digit_val_def)

lemma to_string_small: "n < 10 \<Longrightarrow> to_string n = [digit_char n]"
  by (simp add: to_string.simps)

lemma to_string_not_Nil [simp]: "to_string n \<noteq> []"
  by (simp add: to_string.simps [of n])

lemma to_string_digits: "c \<in> set (to_string n) \<Longrightarrow> isdigit c"
proof (induction n rule: to_string.induct)
  case (1 n)
  then show ?case
    by (cases "n < 10") (auto simp: to_string.simps [of n])
qed

lemma dec_val_simps [simp]:
  "dec_val v [] = v"
  "dec_val v (c # cs) = dec_val (v * 10 + digit_val c) cs"
  "dec_val v (xs @ ys) = dec_val (dec_val v xs) ys"
  by (simp_all add: dec_val_def)

lemma dec_val_ge: "v \<le> dec_val v s"
proof (induction s arbitrary: v)
  case (Cons c cs)
  have "v \<le> v * 10 + digit_val c" by simp
  also have "\<dots> \<le> dec_val (v * 10 + digit_val c) cs" by (rule Cons.IH)
  finally show ?case by simp
qed simp

lemma dec_val_to_string [simp]: "dec_val 0 (to_string n) = n"
proof (induction n rule: to_string.induct)
  case (1 n)
  then show ?case
    by (cases "n < 10") (simp_all add: to_string.simps [of n])
qed

lemma length_to_string:
  "0 < k \<Longrightarrow> n < 10 ^ k \<Longrightarrow> length (to_string n) \<le> k"
proof (induction k arbitrary: n)
  case (Suc k)
  show ?case
  proof (cases "n < 10")
    case False
    then have "0 < k" using Suc.prems by (cases k) auto
    moreover have "n div 10 < 10 ^ k" using Suc.prems by auto
    ultimately show ?thesis using False Suc.IH by (simp add: to_string.simps [of n])
  qed (simp add: to_string.simps)
qed simp

lemma ex_length_4: "(\<exists>xs. length xs = 4 \<and> P xs) \<longleftrightarrow> (\<exists>a b c d. P [a, b, c, d])"
proof
  assume "\<exists>xs. length xs = 4 \<and> P xs"
  then show "\<exists>a b c d. P [a, b, c, d]" by (auto simp: length_Suc_conv numeral_eq_Suc)
next
  assume "\<exists>a b c d. P [a, b, c, d]"
  then obtain a b c d where "P [a, b, c, d]" by blast
  then show "\<exists>xs. length xs = 4 \<and> P xs" by (intro exI [of _ "[a, b, c, d]"]) simp
qed

lemma rfind_None: "rfind c xs = None \<longleftrightarrow> c \<notin> set xs"
  by (induction xs) (auto split: option.splits)

lemma rfind_append: "c \<notin> set ys \<Longrightarrow> rfind c (xs @ c # ys) = Some (length xs)"
  by (induction xs) (auto simp: rfind_None split: option.split)

lemma rfind_Some: "rfind c xs = Some i \<Longrightarrow> i < length xs \<and> xs ! i = c \<and> c \<notin> set (drop (Suc i) xs)"
  by (induction xs arbitrary: i) (auto split: option.splits if_splits simp: rfind_None)

lemma find_char_append: "c \<notin> set xs \<Longrightarrow> find_char c (xs @ c # ys) = Some (length xs)"
  by (induction xs) auto

end
