(* ===== verification/Std_Map.thy ===== *)
theory Std_Map
  imports PB_Prelude
begin

text \<open>
  \<^verbatim>\<open>std::map\<close> as the daemon uses it: a finite map whose iteration order is the order of
  the keys.  The order is observable in the daemon (it decides which real gets which
  \<^verbatim>\<open>real_id\<close> and the order of the map writes), so the representation is the sorted
  association list that a range-\<^verbatim>\<open>for\<close> walks.  The locale \<open>ordered_map\<close> states what the
  clients rely on and derives what they use; it is interpreted on these operations.
\<close>

section \<open>Sorted association lists\<close>

fun ins_list :: "'k::linorder \<Rightarrow> 'v \<Rightarrow> ('k \<times> 'v) list \<Rightarrow> ('k \<times> 'v) list" where
  "ins_list k v [] = [(k, v)]"
| "ins_list k v ((a, b) # xs) =
     (if k < a then (k, v) # (a, b) # xs
      else if k = a then (k, v) # xs
      else (a, b) # ins_list k v xs)"

definition era_list :: "'k \<Rightarrow> ('k \<times> 'v) list \<Rightarrow> ('k \<times> 'v) list" where
  "era_list k xs = filter (\<lambda>p. fst p \<noteq> k) xs"

definition keys_ok :: "('k::linorder \<times> 'v) list \<Rightarrow> bool" where
  "keys_ok xs \<longleftrightarrow> sorted_wrt (<) (map fst xs)"

lemma set_ins_list: "fst ` set (ins_list k v xs) = insert k (fst ` set xs)"
  by (induction k v xs rule: ins_list.induct) auto

lemma keys_ok_ins_list: "keys_ok xs \<Longrightarrow> keys_ok (ins_list k v xs)"
proof (induction k v xs rule: ins_list.induct)
  case (2 k v a b xs)
  have "\<forall>x \<in> set (ins_list k v xs). a < fst x" if "a < k" "\<forall>x \<in> set xs. a < fst x"
    using that set_ins_list [of k v xs] by (metis (no_types, lifting) imageE imageI insertE)
  with 2 show ?case by (auto simp: keys_ok_def)
qed (simp add: keys_ok_def)

lemma keys_ok_era_list: "keys_ok xs \<Longrightarrow> keys_ok (era_list k xs)"
  by (induction xs) (auto simp: keys_ok_def era_list_def)

lemma keys_ok_distinct: "keys_ok xs \<Longrightarrow> distinct (map fst xs)"
  by (simp add: keys_ok_def strict_sorted_iff)

lemma map_of_ins_list: "map_of (ins_list k v xs) = (map_of xs)(k \<mapsto> v)"
  by (induction k v xs rule: ins_list.induct) auto

lemma map_of_era_list: "map_of (era_list k xs) = (map_of xs)(k := None)"
  by (induction xs) (auto simp: era_list_def)

lemma keys_ok_rebuild:
  assumes "keys_ok xs"
  shows "map (\<lambda>k. (k, the (map_of xs k))) (map fst xs) = xs"
  using keys_ok_distinct [OF assms] by (auto intro!: map_idI simp: map_of_is_SomeI)

lemma keys_ok_ext:
  assumes "keys_ok xs" "keys_ok ys" "map_of xs = map_of ys"
  shows "xs = ys"
proof -
  have "set (map fst xs) = set (map fst ys)"
    using assms(3) by (metis dom_map_of_conv_image_fst set_map)
  then have "map fst xs = map fst ys"
    using assms(1,2) by (intro sorted_distinct_set_unique) (auto simp: keys_ok_def strict_sorted_iff)
  then show ?thesis
    using keys_ok_rebuild [OF assms(1)] keys_ok_rebuild [OF assms(2)] assms(3) by metis
qed

section \<open>The type and its operations\<close>

typedef (overloaded) ('k::linorder, 'v) smap = "{xs :: ('k \<times> 'v) list. keys_ok xs}"
  morphisms items Smap
  by (rule exI [of _ "[]"]) (simp add: keys_ok_def)

setup_lifting type_definition_smap

lift_definition smap_empty :: "('k::linorder, 'v) smap" is "[]"
  by (simp add: keys_ok_def)

lift_definition smap_insert :: "'k::linorder \<Rightarrow> 'v \<Rightarrow> ('k, 'v) smap \<Rightarrow> ('k, 'v) smap" is ins_list
  by (rule keys_ok_ins_list)

lift_definition smap_erase :: "'k::linorder \<Rightarrow> ('k, 'v) smap \<Rightarrow> ('k, 'v) smap" is era_list
  by (rule keys_ok_era_list)

definition smap_find :: "('k::linorder, 'v) smap \<Rightarrow> 'k \<Rightarrow> 'v option" where
  "smap_find m = map_of (items m)"

definition smap_keys :: "('k::linorder, 'v) smap \<Rightarrow> 'k list" where
  "smap_keys m = map fst (items m)"

definition smap_count :: "('k::linorder, 'v) smap \<Rightarrow> 'k \<Rightarrow> bool" where
  "smap_count m k \<longleftrightarrow> smap_find m k \<noteq> None"

text \<open>\<^verbatim>\<open>for (auto& [k, v] : m) v = f(k, v);\<close>\<close>

lift_definition smap_map :: "('k::linorder \<Rightarrow> 'v \<Rightarrow> 'w) \<Rightarrow> ('k, 'v) smap \<Rightarrow> ('k, 'w) smap" is
  "\<lambda>f. map (\<lambda>(k, v). (k, f k v))"
  by (simp add: keys_ok_def case_prod_unfold comp_def)

definition smap_of_list :: "('k::linorder \<times> 'v) list \<Rightarrow> ('k, 'v) smap" where
  "smap_of_list kvs = fold (\<lambda>(k, v). smap_insert k v) kvs smap_empty"

lemma items_simps [simp]:
  "items smap_empty = []"
  "items (smap_insert k v m) = ins_list k v (items m)"
  "items (smap_erase k m) = era_list k (items m)"
  "items (smap_map f m) = map (\<lambda>(k, v). (k, f k v)) (items m)"
  by (transfer, simp)+

section \<open>The interface\<close>

locale ordered_map =
  fixes empty :: "'m"
    and insert :: "'k::linorder \<Rightarrow> 'v \<Rightarrow> 'm \<Rightarrow> 'm"
    and erase :: "'k \<Rightarrow> 'm \<Rightarrow> 'm"
    and find :: "'m \<Rightarrow> 'k \<Rightarrow> 'v option"
    and entries :: "'m \<Rightarrow> ('k \<times> 'v) list"
  assumes find_empty: "find empty k = None"
    and find_insert: "find (insert k v m) = (find m)(k \<mapsto> v)"
    and find_erase: "find (erase k m) = (find m)(k := None)"
    and find_entries: "find m = map_of (entries m)"
    and entries_sorted: "sorted_wrt (<) (map fst (entries m))"
    and entries_ext: "find m = find n \<Longrightarrow> m = n"
begin

lemma distinct_entries: "distinct (map fst (entries m))"
  using entries_sorted [of m] by (simp add: strict_sorted_iff)

lemma distinct_entries_pairs: "distinct (entries m)"
  using distinct_entries [of m] by (simp add: distinct_map)

lemma in_entries: "(k, v) \<in> set (entries m) \<longleftrightarrow> find m k = Some v"
  using distinct_entries [of m] by (simp add: find_entries map_of_eq_Some_iff)

lemma set_keys: "fst ` set (entries m) = dom (find m)"
  by (simp add: find_entries dom_map_of_conv_image_fst)

lemma in_keys: "k \<in> fst ` set (entries m) \<longleftrightarrow> find m k \<noteq> None"
  by (simp add: set_keys domIff)

lemma finite_dom_find: "finite (dom (find m))"
  by (simp add: find_entries finite_dom_map_of)

lemma erase_absent: "find m k = None \<Longrightarrow> erase k m = m"
  by (rule entries_ext) (auto simp: find_erase fun_upd_idem_iff)

lemma insert_same: "find m k = Some v \<Longrightarrow> insert k v m = m"
  by (rule entries_ext) (auto simp: find_insert fun_upd_idem_iff)

lemma erase_insert: "find m k = None \<Longrightarrow> erase k (insert k v m) = m"
  by (rule entries_ext) (auto simp: find_insert find_erase)

lemma length_entries: "length (entries m) = card (dom (find m))"
  using distinct_card [OF distinct_entries [of m]] set_keys [of m] by (simp flip: set_map)

end

lemma items_keys_ok: "keys_ok (items m)"
  using items [of m] by simp

interpretation smap: ordered_map smap_empty smap_insert smap_erase smap_find items
proof unfold_locales
  fix k :: 'a and v :: 'b and m n :: "('a, 'b) smap"
  show "smap_find smap_empty k = None"
    by (simp add: smap_find_def)
  show "smap_find (smap_insert k v m) = (smap_find m)(k \<mapsto> v)"
    by (simp add: smap_find_def map_of_ins_list)
  show "smap_find (smap_erase k m) = (smap_find m)(k := None)"
    by (simp add: smap_find_def map_of_era_list)
  show "smap_find m = map_of (items m)"
    by (rule smap_find_def)
  show "sorted_wrt (<) (map fst (items m))"
    using items_keys_ok [of m] by (simp add: keys_ok_def)
  show "m = n" if "smap_find m = smap_find n"
    using keys_ok_ext [OF items_keys_ok items_keys_ok] that
    by (simp add: smap_find_def items_inject)
qed

lemmas smap_find_simps [simp] = smap.find_empty smap.find_insert smap.find_erase

lemma map_of_map_key: "map_of (map (\<lambda>(k, v). (k, f k v)) xs) k = map_option (f k) (map_of xs k)"
  by (induction xs) auto

lemma smap_find_map [simp]: "smap_find (smap_map f m) k = map_option (f k) (smap_find m k)"
  by (simp add: smap_find_def map_of_map_key)

lemma smap_keys_map [simp]: "smap_keys (smap_map f m) = smap_keys m"
  by (simp add: smap_keys_def case_prod_unfold comp_def)

lemma smap_find_fold_insert:
  "distinct (map fst kvs) \<Longrightarrow>
   smap_find (fold (\<lambda>(k, v). smap_insert k v) kvs m) = smap_find m ++ map_of kvs"
proof (induction kvs arbitrary: m)
  case (Cons p kvs)
  obtain k v where p: "p = (k, v)" by (cases p)
  have "map_of kvs k = None" using Cons.prems by (simp add: p map_of_eq_None_iff)
  then show ?case
    using Cons by (auto simp: p map_add_def fun_eq_iff split: option.split)
qed simp

lemma smap_find_of_list: "distinct (map fst kvs) \<Longrightarrow> smap_find (smap_of_list kvs) = map_of kvs"
  by (simp add: smap_of_list_def smap_find_fold_insert fun_eq_iff map_add_def split: option.split)

lemma smap_count_simps [simp]:
  "\<not> smap_count smap_empty k"
  "smap_count (smap_insert k v m) k' \<longleftrightarrow> k' = k \<or> smap_count m k'"
  "smap_count (smap_erase k m) k' \<longleftrightarrow> k' \<noteq> k \<and> smap_count m k'"
  by (auto simp: smap_count_def)

lemma set_smap_keys [simp]: "set (smap_keys m) = dom (smap_find m)"
  by (simp add: smap_keys_def smap.set_keys)

lemma distinct_smap_keys [simp]: "distinct (smap_keys m)"
  by (simp add: smap_keys_def smap.distinct_entries)

instantiation smap :: (linorder, equal) equal
begin

definition equal_smap :: "('a, 'b) smap \<Rightarrow> ('a, 'b) smap \<Rightarrow> bool" where
  "equal_smap m n \<longleftrightarrow> HOL.equal (items m) (items n)"

instance
  by standard (simp add: equal_smap_def equal_eq items_inject)

end

end
