(* ===== verification/PB_Abi.thy ===== *)
theory PB_Abi
  imports PB_Prelude
begin

text \<open>
  The data-plane / control-plane ABI, \<^verbatim>\<open>include/packetbalance/abi.h\<close>: the sizes, the
  flags and the key and value structs of every map the XDP program and the daemon share.
  A struct's padding is part of a hash map's key, so it is a field here as well.
\<close>

section \<open>Sizes and flags\<close>

definition PB_RING_SIZE :: u32 where "PB_RING_SIZE = 65537"
definition PB_MAX_VIPS :: u32 where "PB_MAX_VIPS = 64"
definition PB_MAX_REALS :: u32 where "PB_MAX_REALS = 512"
definition PB_CT_DEFAULT_SIZE :: u32 where "PB_CT_DEFAULT_SIZE = push_bit 20 1"
definition PB_REAL_NONE :: u32 where "PB_REAL_NONE = 0xFFFFFFFF"
definition PB_STATS_GLOBAL :: u32 where "PB_STATS_GLOBAL = PB_MAX_VIPS"
definition PB_MAX_PACKET_LEN :: u32 where "PB_MAX_PACKET_LEN = 3500"
definition PB_VIP_F_NO_CONNTRACK :: u32 where "PB_VIP_F_NO_CONNTRACK = push_bit 0 1"
definition PB_CFG_F_NO_CONNTRACK :: u32 where "PB_CFG_F_NO_CONNTRACK = push_bit 0 1"
definition PB_CFG_F_ICMP_PMTU :: u32 where "PB_CFG_F_ICMP_PMTU = push_bit 1 1"

lemmas abi_consts =
  PB_RING_SIZE_def PB_MAX_VIPS_def PB_MAX_REALS_def PB_REAL_NONE_def PB_STATS_GLOBAL_def
  PB_MAX_PACKET_LEN_def PB_VIP_F_NO_CONNTRACK_def PB_CFG_F_NO_CONNTRACK_def
  PB_CFG_F_ICMP_PMTU_def PB_CT_DEFAULT_SIZE_def

section \<open>Map keys and values\<close>

record pb_vip_key =
  vk_addr :: u32
  vk_port :: u16
  vk_proto :: u8
  vk_pad :: u8

record pb_vip_value =
  vip_id :: u32
  vip_flags :: u32

record pb_real =
  real_addr :: u32
  real_flags :: u32

datatype mac_addr = Mac u8 u8 u8 u8 u8 u8

record pb_mac =
  mac :: mac_addr
  mac_pad :: "u8 \<times> u8"

record pb_ct_key =
  ck_saddr :: u32
  ck_daddr :: u32
  ck_sport :: u16
  ck_dport :: u16
  ck_proto :: u8
  ck_pad :: "u8 \<times> u8 \<times> u8"

record pb_ct_value =
  ct_real_id :: u32
  ct_vip_id :: u32
  last_seen_ns :: u64

datatype pb_counter =
    PB_CNT_PACKETS | PB_CNT_BYTES | PB_CNT_CT_HIT | PB_CNT_CT_MISS | PB_CNT_HASH | PB_CNT_SYN
  | PB_CNT_TX | PB_CNT_PASS | PB_CNT_DROP_FRAG | PB_CNT_DROP_OPTS | PB_CNT_DROP_NO_REAL
  | PB_CNT_DROP_ADJ_HEAD | PB_CNT_DROP_MTU | PB_CNT_DROP_SHORT | PB_CNT_DROP_OTHER
  | PB_CNT_ICMP_PMTU_FWD

type_synonym pb_stats = "pb_counter \<Rightarrow> u64"

record pb_real_stats =
  rs_packets :: u64
  rs_bytes :: u64

record pb_config =
  lb_mac :: mac_addr
  encap_src_prefix :: u32
  encap_src_mask :: u32
  cfg_flags :: u32

definition mac_bytes :: "mac_addr \<Rightarrow> u8 list" where
  "mac_bytes m = (case m of Mac a b c d e f \<Rightarrow> [a, b, c, d, e, f])"

definition zero_mac :: mac_addr where
  "zero_mac = Mac 0 0 0 0 0 0"

definition zero_pb_mac :: pb_mac where
  "zero_pb_mac = \<lparr>mac = zero_mac, mac_pad = (0, 0)\<rparr>"

definition zero_pb_real :: pb_real where
  "zero_pb_real = \<lparr>real_addr = 0, real_flags = 0\<rparr>"

definition zero_ct_value :: pb_ct_value where
  "zero_ct_value = \<lparr>ct_real_id = 0, ct_vip_id = 0, last_seen_ns = 0\<rparr>"

section \<open>Lemmas\<close>

lemma unat_consts [simp]:
  "unat PB_RING_SIZE = 65537" "unat PB_MAX_VIPS = 64" "unat PB_MAX_REALS = 512"
  "unat PB_STATS_GLOBAL = 64" "unat PB_MAX_PACKET_LEN = 3500"
  by (simp_all add: abi_consts)

lemma PB_REAL_NONE_not_real [simp]:
  "\<not> PB_REAL_NONE < PB_MAX_REALS" "PB_MAX_REALS \<le> PB_REAL_NONE"
  by (simp_all add: abi_consts)

lemma less_max_reals_not_NONE: "i < PB_MAX_REALS \<Longrightarrow> i \<noteq> PB_REAL_NONE"
  by auto

lemma length_mac_bytes [simp]: "length (mac_bytes m) = 6"
  by (cases m) (simp add: mac_bytes_def)

lemma mac_bytes_inject [simp]: "mac_bytes m = mac_bytes n \<longleftrightarrow> m = n"
  by (cases m; cases n) (simp add: mac_bytes_def)

lemma mac_bytes_zero_iff: "(\<forall>b \<in> set (mac_bytes m). b = 0) \<longleftrightarrow> m = zero_mac"
  by (cases m) (auto simp: mac_bytes_def zero_mac_def)

end
