(* ===== verification/PB_Hash.thy ===== *)
theory PB_Hash
  imports PB_Abi
begin

text \<open>
  The flow hash both planes share, \<^verbatim>\<open>include/packetbalance/hash.h\<close>: the rotation
  \<^verbatim>\<open>pb_rol32\<close>, the final mix \<^verbatim>\<open>PB_JHASH_FINAL\<close> (a macro of seven statements, one
  update of the three words each), \<^verbatim>\<open>pb_jhash_3words\<close> and the three hashes built on it.
  The lemmas show that the rotation is the word rotation, that the mix is a bijection of
  word triples (it loses no information), and the values the repository's own test
  \<^verbatim>\<open>tests/core/hash_test.cpp\<close> pins.
\<close>

definition PB_JHASH_INITVAL :: u32 where "PB_JHASH_INITVAL = 0xdeadbeef"
definition PB_HASH_SEED :: u32 where "PB_HASH_SEED = 0x50424C42"

definition pb_rol32 :: "u32 \<Rightarrow> u32 \<Rightarrow> u32" where
  "pb_rol32 word shift = push_bit (unat (shift AND 31)) word OR drop_bit (unat ((- shift) AND 31)) word"

text \<open>One statement pair of the macro: \<^verbatim>\<open>x ^= y; x -= pb_rol32(y, n);\<close>\<close>

definition mix1 :: "u32 \<Rightarrow> u32 \<Rightarrow> u32 \<Rightarrow> u32" where
  "mix1 n x y = (x XOR y) - pb_rol32 y n"

definition PB_JHASH_FINAL :: "u32 \<times> u32 \<times> u32 \<Rightarrow> u32 \<times> u32 \<times> u32" where
  "PB_JHASH_FINAL = (\<lambda>(a, b, c).
     let c = mix1 14 c b;
         a = mix1 11 a c;
         b = mix1 25 b a;
         c = mix1 16 c b;
         a = mix1 4 a c;
         b = mix1 14 b a;
         c = mix1 24 c b
     in (a, b, c))"

definition pb_jhash_3words :: "u32 \<Rightarrow> u32 \<Rightarrow> u32 \<Rightarrow> u32 \<Rightarrow> u32" where
  "pb_jhash_3words a b c initval =
     (let a = a + PB_JHASH_INITVAL; b = b + PB_JHASH_INITVAL; c = c + initval
      in snd (snd (PB_JHASH_FINAL (a, b, c))))"

definition pb_flow_hash :: "u32 \<Rightarrow> u32 \<Rightarrow> u16 \<Rightarrow> u16 \<Rightarrow> u8 \<Rightarrow> u32" where
  "pb_flow_hash saddr daddr sport dport proto =
     (let ports = push_bit 16 (ucast sport) OR ucast dport
      in pb_jhash_3words saddr daddr ports (PB_HASH_SEED XOR ucast proto))"

definition pb_backend_hash_offset :: "u32 \<Rightarrow> u32" where
  "pb_backend_hash_offset addr = pb_jhash_3words addr 0x9e3779b9 0 0x0f0f0f0f"

definition pb_backend_hash_skip :: "u32 \<Rightarrow> u32" where
  "pb_backend_hash_skip addr = pb_jhash_3words addr 0x7f4a7c15 1 0xf0f0f0f0"

lemmas hash_defs =
  PB_JHASH_INITVAL_def PB_HASH_SEED_def pb_rol32_def mix1_def PB_JHASH_FINAL_def
  pb_jhash_3words_def pb_flow_hash_def pb_backend_hash_offset_def pb_backend_hash_skip_def

section \<open>The mix is invertible\<close>

definition unmix1 :: "u32 \<Rightarrow> u32 \<Rightarrow> u32 \<Rightarrow> u32" where
  "unmix1 n x y = (x + pb_rol32 y n) XOR y"

lemma unmix1_mix1 [simp]: "unmix1 n (mix1 n x y) y = x"
  by (simp add: unmix1_def mix1_def xor.assoc)

lemma mix1_unmix1 [simp]: "mix1 n (unmix1 n x y) y = x"
  by (simp add: unmix1_def mix1_def xor.assoc)

definition unfinal :: "u32 \<times> u32 \<times> u32 \<Rightarrow> u32 \<times> u32 \<times> u32" where
  "unfinal = (\<lambda>(a, b, c).
     let c = unmix1 24 c b;
         b = unmix1 14 b a;
         a = unmix1 4 a c;
         c = unmix1 16 c b;
         b = unmix1 25 b a;
         a = unmix1 11 a c;
         c = unmix1 14 c b
     in (a, b, c))"

lemma unfinal_final [simp]: "unfinal (PB_JHASH_FINAL t) = t"
  by (cases t) (simp add: unfinal_def PB_JHASH_FINAL_def Let_def)

lemma final_unfinal [simp]: "PB_JHASH_FINAL (unfinal t) = t"
  by (cases t) (simp add: unfinal_def PB_JHASH_FINAL_def Let_def)

section \<open>The rotation\<close>

lemma unat_and_31: "unat ((x :: u32) AND 31) = unat x mod 32"
proof -
  have "x AND 31 = take_bit 5 x"
    by (simp add: take_bit_eq_mask mask_eq_exp_minus_1)
  then have "x AND 31 = x mod 32"
    by (simp add: take_bit_eq_mod)
  then show ?thesis
    by (simp add: unat_mod)
qed

lemma pb_rol32_shifts:
  assumes "n < 32"
  shows "pb_rol32 w (of_nat n) = push_bit n w OR drop_bit ((32 - n) mod 32) w"
proof -
  have n: "unat (of_nat n :: u32) = n"
    using assms by (simp add: unsigned_of_nat take_bit_eq_mod)
  have "unat (- (of_nat n :: u32)) mod 32 = (32 - n) mod 32"
  proof (cases "n = 0")
    case False
    have "of_nat (2 ^ 32 - n) = (- of_nat n :: u32)"
      using assms by (subst of_nat_diff) simp_all
    then have "unat (- (of_nat n :: u32)) = unat (of_nat (2 ^ 32 - n) :: u32)"
      by simp
    also have "\<dots> = 2 ^ 32 - n"
      using False by (simp only: unsigned_of_nat take_bit_eq_mod) simp
    finally have "unat (- (of_nat n :: u32)) = 2 ^ 32 - n" .
    moreover have "(2 ^ 32 - n) mod 32 = ((32 - n) + (2 ^ 27 - 1) * 32) mod 32"
      using assms by simp
    ultimately show ?thesis
      by (simp only: mod_mult_self1)
  qed simp
  then show ?thesis
    using assms by (simp add: pb_rol32_def unat_and_31 n)
qed

lemma pb_rol32_rotl:
  assumes "n < 32"
  shows "pb_rol32 w (of_nat n) = word_rotl n w"
proof (rule bit_word_eqI)
  fix i assume "i < LENGTH(32)"
  then have i: "i < 32"
    by simp
  have "bit (pb_rol32 w (of_nat n)) i \<longleftrightarrow> n \<le> i \<and> bit w (i - n) \<or> bit w ((32 - n) mod 32 + i)"
    using i by (simp only: pb_rol32_shifts [OF assms]) (auto simp: bit_simps)
  also have "\<dots> \<longleftrightarrow> bit w ((i + (32 - n mod 32)) mod 32)"
    using i assms bit_imp_le_length [of w "(32 - n) mod 32 + i"]
    by (cases "n = 0"; cases "n \<le> i") (auto simp: mod_if ac_simps)
  also have "\<dots> \<longleftrightarrow> bit (word_rotl n w) i"
    using i by (simp add: bit_word_rotl_iff)
  finally show "bit (pb_rol32 w (of_nat n)) i = bit (word_rotl n w) i" .
qed

section \<open>Evaluation on concrete words\<close>

text \<open>
  The mix is evaluated one statement at a time, each intermediate word written as a
  32-bit numeral.
\<close>

lemma jhash_steps:
  assumes "a + PB_JHASH_INITVAL = ia" "b + PB_JHASH_INITVAL = ib" "c + initval = ic"
    and "mix1 14 ic ib = p" "mix1 11 ia p = q" "mix1 25 ib q = r" "mix1 16 p r = s"
    and "mix1 4 q s = t" "mix1 14 r t = u" "mix1 24 s u = v"
  shows "pb_jhash_3words a b c initval = v"
  using assms by (simp add: pb_jhash_3words_def PB_JHASH_FINAL_def)

lemma flow_hash_steps:
  assumes "saddr + PB_JHASH_INITVAL = ia" "daddr + PB_JHASH_INITVAL = ib"
    "(push_bit 16 (ucast sport) OR ucast dport) + (PB_HASH_SEED XOR ucast proto) = ic"
    and "mix1 14 ic ib = p" "mix1 11 ia p = q" "mix1 25 ib q = r" "mix1 16 p r = s"
    and "mix1 4 q s = t" "mix1 14 r t = u" "mix1 24 s u = v"
  shows "pb_flow_hash saddr daddr sport dport proto = v"
  using assms by (simp add: pb_flow_hash_def pb_jhash_3words_def PB_JHASH_FINAL_def)

lemmas vector_simps =
  PB_JHASH_INITVAL_def PB_HASH_SEED_def mix1_def pb_rol32_def le32_def le16_def bswap16_def byte16_def

lemma flow_hash_vector_1:
  "pb_flow_hash (le32 10 0 0 1) (le32 198 51 100 1) (bswap16 12345) (bswap16 80) 6 = 0xde1e4d19"
  by (rule flow_hash_steps [where ia = "0xdfadbef9" and ib = "0xe011f2b5" and ic = "0x89729c44" and p = "0xecb5f6ed" and q = "0x8360d8af"
      and r = "0x46a6869" and s = "0x80769a1a" and t = "0xfbaca10d" and u = "0xd7834a79"])
    (simp_all add: vector_simps)

lemma flow_hash_vector_2:
  "pb_flow_hash (le32 192 168 1 10) (le32 198 51 100 1) (bswap16 40000) (bswap16 80) 6 = 0x79af1f30"
  by (rule flow_hash_steps [where ia = "0xe8af67af" and ib = "0xe011f2b5" and ic = "0x90de9c44" and p = "0xf421f6ed" and q = "0xcd721a1"
      and r = "0xaaad24d1" and s = "0x39bb278f" and t = "0x99b98d3b" and u = "0xcfc5c37c"])
    (simp_all add: vector_simps)

lemma flow_hash_vector_3:
  "pb_flow_hash (le32 172 16 5 4) (le32 198 51 100 2) (bswap16 53) (bswap16 53) 17 = 0xb9eabbab"
  by (rule flow_hash_steps [where ia = "0xe2b2cf9b" and ib = "0xe111f2b5" and ic = "0x85428153" and p = "0xe7a5fba2" and q = "0xd53a1cfc"
      and r = "0x3a817a10" and s = "0x63144731" and t = "0x84e9e8b7" and u = "0x443ab16d"])
    (simp_all add: vector_simps)

lemma flow_hash_vector_4:
  "pb_flow_hash (le32 0 0 0 0) (le32 0 0 0 0) (bswap16 0) (bswap16 0) 0 = 0x56385eb7"
  by (rule flow_hash_steps [where ia = "0xdeadbeef" and ib = "0xdeadbeef" and ic = "0x50424c42" and p = "0x1f33fb02" and q = "0x21c634f4"
      and r = "0x1727fdb2" and s = "0xa61ef89" and t = "0x8588e2ed" and u = "0x59f3bdfd"])
    (simp_all add: vector_simps)

lemma flow_hash_vector_5:
  "pb_flow_hash (le32 255 255 255 255) (le32 198 51 100 1) (bswap16 65535) (bswap16 443) 6 = 0xe1f7b089"
  by (rule flow_hash_steps [where ia = "0xdeadbeee" and ib = "0xe011f2b5" and ic = "0x50420745" and p = "0x33a67dec" and q = "0xb91c6165"
      and r = "0x8d9b5b0e" and s = "0x632e9947" and t = "0xa74963ac" and u = "0xd1e70ed0"])
    (simp_all add: vector_simps)

lemma backend_hash_offset_vector:
  "pb_backend_hash_offset (le32 10 0 0 21) = 0x13814be4"
  unfolding pb_backend_hash_offset_def
  by (rule jhash_steps [where ia = "0xf3adbef9" and ib = "0x7ce538a8" and ic = "0xf0f0f0f" and p = "0x25c0186e" and q = "0xd5aa3569"
      and r = "0xd5a3b957" and s = "0x370bcb96" and t = "0x71e5459c" and u = "0x52dfe052"])
    (simp_all add: vector_simps)

lemma backend_hash_skip_vector:
  "pb_backend_hash_skip (le32 10 0 0 21) = 0x2c509bd8"
  unfolding pb_backend_hash_skip_def
  by (rule jhash_steps [where ia = "0xf3adbef9" and ib = "0x5df83b04" and ic = "0xf0f0f0f1" and p = "0x9e47b477" and q = "0x30464d9c"
      and r = "0x355de9fd" and s = "0xc11d282d" and t = "0xdf88e2d5" and u = "0xb21f9346"])
    (simp_all add: vector_simps)

section \<open>Claims\<close>

text \<open>
  The final mix loses no information: it is a bijection on triples of 32-bit words,
  so two flows collide only because two of the three mixed words are dropped.
\<close>

theorem final_mix_bijective: "bij PB_JHASH_FINAL"
  by (rule bij_betw_byWitness [of _ unfinal]) simp_all

text \<open>
  The model computes the hash of the program: it gives the flow-hash and the two
  backend-hash values that \<^verbatim>\<open>tests/core/hash_test.cpp\<close> pins for the C code.
\<close>

theorem hash_test_vectors:
  "pb_flow_hash (le32 10 0 0 1) (le32 198 51 100 1) (bswap16 12345) (bswap16 80) 6 = 0xde1e4d19 \<and>
   pb_flow_hash (le32 192 168 1 10) (le32 198 51 100 1) (bswap16 40000) (bswap16 80) 6 = 0x79af1f30 \<and>
   pb_flow_hash (le32 172 16 5 4) (le32 198 51 100 2) (bswap16 53) (bswap16 53) 17 = 0xb9eabbab \<and>
   pb_flow_hash (le32 0 0 0 0) (le32 0 0 0 0) (bswap16 0) (bswap16 0) 0 = 0x56385eb7 \<and>
   pb_flow_hash (le32 255 255 255 255) (le32 198 51 100 1) (bswap16 65535) (bswap16 443) 6 = 0xe1f7b089 \<and>
   pb_backend_hash_offset (le32 10 0 0 21) = 0x13814be4 \<and>
   pb_backend_hash_skip (le32 10 0 0 21) = 0x2c509bd8"
  by (intro conjI flow_hash_vector_1 flow_hash_vector_2 flow_hash_vector_3 flow_hash_vector_4
      flow_hash_vector_5 backend_hash_offset_vector backend_hash_skip_vector)

end
