(* ===== verification/Vip_Spec.thy ===== *)
theory Vip_Spec
  imports PB_Abi
begin

text \<open>
  \<^verbatim>\<open>include/packetbalance/vipspec.h\<close>: the strict IPv4 and port parsers, their printers,
  and \<^verbatim>\<open>VipSpec\<close> with its parser, printer, map key and order.  A parser works on the
  rest of the string from \<^verbatim>\<open>pos\<close> on, so \<^verbatim>\<open>pos >= s.size()\<close> is the empty rest.
\<close>

section \<open>IPv4 addresses\<close>

text \<open>The inner \<^verbatim>\<open>while\<close>: \<open>n\<close> is \<^verbatim>\<open>pos - start\<close>; \<open>None\<close> is the \<^verbatim>\<open>throw\<close>.\<close>

fun octet_loop :: "nat \<Rightarrow> nat \<Rightarrow> string \<Rightarrow> (nat \<times> string) option" where
  "octet_loop n v [] = Some (v, [])"
| "octet_loop n v (c # cs) =
     (if isdigit c then
        (let v = v * 10 + digit_val c
         in if v > 255 \<or> n \<ge> 3 then None else octet_loop (Suc n) v cs)
      else Some (v, c # cs))"

text \<open>The outer \<^verbatim>\<open>for\<close> over \<open>i\<close>; \<open>k\<close> is the number of octets still to read.\<close>

fun octets_loop :: "nat \<Rightarrow> string \<Rightarrow> (u8 list \<times> string) option" where
  "octets_loop 0 s = Some ([], s)"
| "octets_loop (Suc k) s =
     (case s of [] \<Rightarrow> None
      | c # _ \<Rightarrow>
        if \<not> isdigit c then None
        else (case octet_loop 0 0 s of
            None \<Rightarrow> None
          | Some (v, s) \<Rightarrow>
            if k = 0 then Some ([of_nat v], s)
            else (case s of [] \<Rightarrow> None
                 | d # s \<Rightarrow>
                   if d \<noteq> CHR ''.'' then None
                   else (case octets_loop k s of
                       None \<Rightarrow> None
                     | Some (be, s) \<Rightarrow> Some (of_nat v # be, s)))))"

definition parse_ipv4 :: "string \<Rightarrow> u32 result" where
  "parse_ipv4 s =
     (case octets_loop 4 s of
        Some ([b0, b1, b2, b3], []) \<Rightarrow> Inr (le32 b0 b1 b2 b3)
      | _ \<Rightarrow> Inl (InvalidArgument (''bad IPv4 address: '' @ s)))"

definition ipv4_to_string :: "u32 \<Rightarrow> string" where
  "ipv4_to_string addr_be =
     to_string (unat (byte32 0 addr_be)) @ ''.'' @ to_string (unat (byte32 1 addr_be)) @ ''.'' @
     to_string (unat (byte32 2 addr_be)) @ ''.'' @ to_string (unat (byte32 3 addr_be))"

section \<open>Ports\<close>

fun port_loop :: "nat \<Rightarrow> string \<Rightarrow> nat option" where
  "port_loop v [] = Some v"
| "port_loop v (ch # cs) = (if \<not> isdigit ch then None else port_loop (v * 10 + digit_val ch) cs)"

definition parse_port :: "string \<Rightarrow> u16 result" where
  "parse_port s =
     (let bad = Inl (InvalidArgument (''bad port: '' @ s))
      in if s = [] \<or> length s > 5 then bad
         else (case port_loop 0 s of
             None \<Rightarrow> bad
           | Some v \<Rightarrow> if v < 1 \<or> v > 65535 then bad else Inr (of_nat v)))"

definition port_to_be :: "u16 \<Rightarrow> u16" where
  "port_to_be host_port = le16 (ucast (drop_bit 8 host_port)) (ucast (host_port AND 0xff))"

definition port_from_be :: "u16 \<Rightarrow> u16" where
  "port_from_be port_be =
     (let b0 = byte16 0 port_be; b1 = byte16 1 port_be
      in push_bit 8 (ucast b0) OR ucast b1)"

section \<open>VipSpec\<close>

datatype vip_spec = VipSpec (addr_be: u32) (port_be: u16) (proto: u8)

definition VipSpec_parse :: "string \<Rightarrow> vip_spec result" where
  "VipSpec_parse s =
     (case (rfind (CHR '':'') s, rfind (CHR ''/'') s) of
        (Some colon, Some slash) \<Rightarrow>
          if slash < colon then Inl (InvalidArgument (''bad VIP, want ADDR:PORT/PROTO: '' @ s))
          else bind_result (parse_ipv4 (substr s 0 colon)) (\<lambda>addr.
               bind_result (parse_port (substr s (colon + 1) (slash - colon - 1))) (\<lambda>port.
                 let proto = drop (slash + 1) s
                 in if proto = ''tcp'' then Inr (VipSpec addr (port_to_be port) 6)
                    else if proto = ''udp'' then Inr (VipSpec addr (port_to_be port) 17)
                    else Inl (InvalidArgument (''bad proto in VIP (tcp|udp): '' @ s))))
      | _ \<Rightarrow> Inl (InvalidArgument (''bad VIP, want ADDR:PORT/PROTO: '' @ s)))"

definition VipSpec_str :: "vip_spec \<Rightarrow> string" where
  "VipSpec_str v =
     ipv4_to_string (addr_be v) @ '':'' @ to_string (unat (port_from_be (port_be v))) @
     (if proto v = 6 then ''/tcp'' else if proto v = 17 then ''/udp'' else ''/?'')"

definition VipSpec_key :: "vip_spec \<Rightarrow> pb_vip_key" where
  "VipSpec_key v = \<lparr>vk_addr = addr_be v, vk_port = port_be v, vk_proto = proto v, vk_pad = 0\<rparr>"

definition VipSpec_less :: "vip_spec \<Rightarrow> vip_spec \<Rightarrow> bool" where
  "VipSpec_less v o' =
     (if addr_be v \<noteq> addr_be o' then addr_be v < addr_be o'
      else if port_be v \<noteq> port_be o' then port_be v < port_be o'
      else proto v < proto o')"

text \<open>\<^verbatim>\<open>operator<\<close> is a strict total order, so \<^verbatim>\<open>VipSpec\<close> can key a \<^verbatim>\<open>std::map\<close>.\<close>

instantiation vip_spec :: linorder
begin

definition less_vip_spec :: "vip_spec \<Rightarrow> vip_spec \<Rightarrow> bool" where
  "less_vip_spec = VipSpec_less"

definition less_eq_vip_spec :: "vip_spec \<Rightarrow> vip_spec \<Rightarrow> bool" where
  "less_eq_vip_spec v w \<longleftrightarrow> v = w \<or> VipSpec_less v w"

instance
  by standard
    (auto simp: less_vip_spec_def less_eq_vip_spec_def VipSpec_less_def vip_spec.expand
      split: if_splits)

end

section \<open>What the parsers accept\<close>

text \<open>A decimal octet: one to three digits, at most 255.  A dotted string joins octets with dots.\<close>

definition octet_ok :: "string \<Rightarrow> bool" where
  "octet_ok t \<longleftrightarrow> t \<noteq> [] \<and> length t \<le> 3 \<and> (\<forall>c \<in> set t. isdigit c) \<and> dec_val 0 t \<le> 255"

fun join_dots :: "string list \<Rightarrow> string" where
  "join_dots [] = []"
| "join_dots [t] = t"
| "join_dots (t # u # ts) = t @ CHR ''.'' # join_dots (u # ts)"

definition octet_val :: "string \<Rightarrow> u8" where
  "octet_val t = of_nat (dec_val 0 t)"

lemma octet_loop_iff:
  "octet_loop n v s = Some (w, r) \<longleftrightarrow>
     (\<exists>t. s = t @ r \<and> (\<forall>c \<in> set t. isdigit c) \<and> w = dec_val v t \<and>
          (t \<noteq> [] \<longrightarrow> w \<le> 255 \<and> n + length t \<le> 3) \<and> (r = [] \<or> \<not> isdigit (hd r)))"
  (is "_ \<longleftrightarrow> ?R n v s")
proof (induction n v s rule: octet_loop.induct)
  case (2 n v c cs)
  let ?v = "v * 10 + digit_val c"
  show ?case
  proof (cases "isdigit c")
    case True
    have "?R n v (c # cs) \<longleftrightarrow> ?v \<le> 255 \<and> n < 3 \<and> ?R (Suc n) ?v cs" (is "?A \<longleftrightarrow> ?B")
    proof
      assume ?A
      then obtain t where t: "c # cs = t @ r" "\<forall>c \<in> set t. isdigit c" "w = dec_val v t"
        "t \<noteq> [] \<longrightarrow> w \<le> 255 \<and> n + length t \<le> 3" "r = [] \<or> \<not> isdigit (hd r)"
        by blast
      with True obtain t' where "t = c # t'" "cs = t' @ r"
        by (cases t) auto
      with t dec_val_ge [of ?v t'] show ?B by auto
    next
      assume ?B
      then obtain t where "cs = t @ r" "\<forall>c \<in> set t. isdigit c" "w = dec_val ?v t"
        "t \<noteq> [] \<longrightarrow> w \<le> 255 \<and> Suc n + length t \<le> 3" "r = [] \<or> \<not> isdigit (hd r)"
        "?v \<le> 255" "n < 3"
        by blast
      with True show ?A by (intro exI [of _ "c # t"]) auto
    qed
    with 2 True show ?thesis by (auto simp: Let_def)
  next
    case False
    then show ?thesis by (auto simp: append_eq_Cons_conv Cons_eq_append_conv)
  qed
qed auto

lemma not_isdigit_dot [simp]: "\<not> isdigit (CHR ''.'')"
  by (simp add: isdigit_def)

lemma octet_loop_0_iff:
  assumes "isdigit (hd s)" "s \<noteq> []"
  shows "octet_loop 0 0 s = Some (w, r) \<longleftrightarrow>
    (\<exists>t. s = t @ r \<and> octet_ok t \<and> w = dec_val 0 t \<and> (r = [] \<or> \<not> isdigit (hd r)))"
  using assms by (auto simp: octet_loop_iff octet_ok_def)

lemma octet_ok_hd: "octet_ok t \<Longrightarrow> t \<noteq> [] \<and> isdigit (hd t)"
  by (simp add: octet_ok_def)

lemma octets_loop_Suc_iff:
  "octets_loop (Suc k) s = Some (be, r) \<longleftrightarrow>
    (\<exists>t s'. s = t @ s' \<and> octet_ok t \<and> (s' = [] \<or> \<not> isdigit (hd s')) \<and>
       (if k = 0 then be = [octet_val t] \<and> r = s'
        else \<exists>u be'. s' = CHR ''.'' # u \<and> octets_loop k u = Some (be', r) \<and> be = octet_val t # be'))"
  (is "?L \<longleftrightarrow> ?R")
proof (cases "s \<noteq> [] \<and> isdigit (hd s)")
  case False
  then have "\<not> ?L" by (auto split: list.splits)
  moreover from False have "\<not> ?R" by (auto dest: octet_ok_hd)
  ultimately show ?thesis by blast
next
  case True
  then obtain c cs where s: "s = c # cs" "isdigit c" by (cases s) auto
  have "?L \<longleftrightarrow> (\<exists>v s'. octet_loop 0 0 s = Some (v, s') \<and>
       (if k = 0 then be = [of_nat v] \<and> r = s'
        else \<exists>u be'. s' = CHR ''.'' # u \<and> octets_loop k u = Some (be', r) \<and> be = of_nat v # be'))"
    using s by (auto split: option.splits list.splits if_splits simp del: octet_loop.simps)
  also have "\<dots> \<longleftrightarrow> ?R"
    using True unfolding octet_val_def by (subst octet_loop_0_iff) blast+
  finally show ?thesis .
qed

declare octets_loop.simps(2) [simp del]

lemma octets_loop_iff:
  "octets_loop (Suc k) s = Some (be, r) \<longleftrightarrow>
    (\<exists>ts. length ts = Suc k \<and> (\<forall>t \<in> set ts. octet_ok t) \<and> s = join_dots ts @ r \<and>
       (r = [] \<or> \<not> isdigit (hd r)) \<and> be = map octet_val ts)"
proof (induction k arbitrary: s be)
  case 0
  show ?case
    by (auto simp: octets_loop_Suc_iff length_Suc_conv)
next
  case (Suc k)
  have "octets_loop (Suc (Suc k)) s = Some (be, r) \<longleftrightarrow>
    (\<exists>t u be'. s = t @ CHR ''.'' # u \<and> octet_ok t \<and> octets_loop (Suc k) u = Some (be', r) \<and>
       be = octet_val t # be')"
    by (subst octets_loop_Suc_iff) (fastforce simp: exI [of _ "CHR ''.'' # _"])
  also have "\<dots> \<longleftrightarrow> (\<exists>t ts. length ts = Suc k \<and> octet_ok t \<and> (\<forall>t \<in> set ts. octet_ok t) \<and>
       s = t @ CHR ''.'' # join_dots ts @ r \<and> (r = [] \<or> \<not> isdigit (hd r)) \<and> be = map octet_val (t # ts))"
    by (auto simp: Suc.IH)
  also have "\<dots> \<longleftrightarrow> (\<exists>ts. length ts = Suc (Suc k) \<and> (\<forall>t \<in> set ts. octet_ok t) \<and> s = join_dots ts @ r \<and>
       (r = [] \<or> \<not> isdigit (hd r)) \<and> be = map octet_val ts)"
    by (fastforce simp: length_Suc_conv)
  finally show ?case .
qed

lemma parse_ipv4_Inr_iff:
  "parse_ipv4 s = Inr a \<longleftrightarrow>
    (\<exists>t0 t1 t2 t3. octet_ok t0 \<and> octet_ok t1 \<and> octet_ok t2 \<and> octet_ok t3 \<and>
       s = join_dots [t0, t1, t2, t3] \<and>
       a = le32 (octet_val t0) (octet_val t1) (octet_val t2) (octet_val t3))"
proof -
  have "parse_ipv4 s = Inr a \<longleftrightarrow>
    (\<exists>b0 b1 b2 b3. octets_loop (Suc 3) s = Some ([b0, b1, b2, b3], []) \<and> a = le32 b0 b1 b2 b3)"
    by (auto simp: parse_ipv4_def split: option.splits list.splits prod.splits)
  also have "\<dots> \<longleftrightarrow> (\<exists>ts. length ts = 4 \<and> (\<forall>t \<in> set ts. octet_ok t) \<and> s = join_dots ts \<and>
       (\<exists>b0 b1 b2 b3. [b0, b1, b2, b3] = map octet_val ts \<and> a = le32 b0 b1 b2 b3))"
    unfolding octets_loop_iff by (simp, intro iffI; elim exE conjE; intro exI conjI; assumption)
  finally show ?thesis
    unfolding ex_length_4 by auto
qed

lemma parse_ipv4_Inl: "parse_ipv4 s = Inl e \<Longrightarrow> e = InvalidArgument (''bad IPv4 address: '' @ s)"
  by (auto simp: parse_ipv4_def split: option.splits list.splits prod.splits)

lemma octet_ok_to_string: "octet_ok (to_string (unat (b :: u8)))"
  using unat_bounds(1) [of b] length_to_string [of 3 "unat b"]
  by (auto simp: octet_ok_def to_string_digits)

lemma octet_val_to_string [simp]: "octet_val (to_string (unat (b :: u8))) = b"
  by (simp add: octet_val_def)

lemma parse_ipv4_to_string [simp]: "parse_ipv4 (ipv4_to_string a) = Inr a"
  unfolding parse_ipv4_Inr_iff
  by (intro exI [of _ "to_string (unat (byte32 0 a))"] exI [of _ "to_string (unat (byte32 1 a))"]
      exI [of _ "to_string (unat (byte32 2 a))"] exI [of _ "to_string (unat (byte32 3 a))"])
    (simp add: octet_ok_to_string ipv4_to_string_def)

lemma ipv4_to_string_inject [simp]: "ipv4_to_string a = ipv4_to_string b \<longleftrightarrow> a = b"
  by (metis parse_ipv4_to_string sum.inject(2))

subsection \<open>Ports\<close>

lemma port_loop_iff: "port_loop v s = Some w \<longleftrightarrow> (\<forall>c \<in> set s. isdigit c) \<and> w = dec_val v s"
  by (induction v s rule: port_loop.induct) auto

lemma port_loop_None: "port_loop v s = None \<longleftrightarrow> \<not> (\<forall>c \<in> set s. isdigit c)"
  by (induction v s rule: port_loop.induct) auto

lemma parse_port_Inr_iff:
  "parse_port s = Inr p \<longleftrightarrow>
    s \<noteq> [] \<and> length s \<le> 5 \<and> (\<forall>c \<in> set s. isdigit c) \<and> 1 \<le> dec_val 0 s \<and> dec_val 0 s \<le> 65535 \<and>
    p = of_nat (dec_val 0 s)"
  by (auto simp: parse_port_def Let_def port_loop_iff port_loop_None split: option.splits)

lemma parse_port_nonzero: "parse_port s = Inr p \<Longrightarrow> p \<noteq> 0"
proof
  assume "parse_port s = Inr p" "p = 0"
  then have "1 \<le> dec_val 0 s" "dec_val 0 s \<le> 65535" "unat (of_nat (dec_val 0 s) :: u16) = 0"
    by (auto simp: parse_port_Inr_iff)
  then show False by (simp add: unat_of_nat take_bit_eq_mod)
qed

lemma parse_port_to_string: "p \<noteq> 0 \<Longrightarrow> parse_port (to_string (unat p)) = Inr p"
  using unat_bounds(2) [of p] length_to_string [of 5 "unat p"]
  by (auto simp: parse_port_Inr_iff to_string_digits unat_gt_0 Suc_le_eq)

lemma port_to_be_eq: "port_to_be p = bswap16 p"
proof -
  have "p AND 0xff = take_bit 8 p"
    by (simp add: take_bit_eq_mask mask_eq_exp_minus_1)
  then have "ucast (p AND 0xff) = byte16 0 p"
    by (auto simp: byte16_def bit_simps intro!: bit_word_eqI)
  then show ?thesis by (simp add: port_to_be_def bswap16_def byte16_def)
qed

lemma port_from_be_eq: "port_from_be p = bswap16 p"
  by (rule bit_word_eqI) (auto simp: port_from_be_def bswap16_def Let_def le16_def bit_simps)

lemma port_round_trip [simp]: "port_from_be (port_to_be p) = p" "port_to_be (port_from_be p) = p"
  by (simp_all add: port_to_be_eq port_from_be_eq)

lemma port_to_be_0_iff [simp]: "port_to_be p = 0 \<longleftrightarrow> p = 0" "port_from_be p = 0 \<longleftrightarrow> p = 0"
  by (simp_all add: port_to_be_eq port_from_be_eq)

subsection \<open>VIP specifications\<close>

lemma colon_slash_notin:
  "\<not> isdigit (CHR '':'')" "\<not> isdigit (CHR ''/'')"
  by (simp_all add: isdigit_def)

lemma notin_to_string: "\<not> isdigit c \<Longrightarrow> c \<notin> set (to_string n)"
  using to_string_digits by blast

lemma VipSpec_str_parts:
  assumes "proto v = 6 \<or> proto v = 17" and "port_be v \<noteq> 0"
  shows "VipSpec_parse (VipSpec_str v) = Inr v"
proof -
  define A where "A = ipv4_to_string (addr_be v)"
  define P where "P = to_string (unat (port_from_be (port_be v)))"
  define Q where "Q = (if proto v = 6 then ''tcp'' else ''udp'')"
  have str: "VipSpec_str v = A @ CHR '':'' # P @ CHR ''/'' # Q"
    using assms(1) by (auto simp: VipSpec_str_def A_def P_def Q_def)
  have P: "CHR '':'' \<notin> set P" "CHR ''/'' \<notin> set P"
    by (simp_all add: P_def notin_to_string colon_slash_notin)
  have Q: "CHR '':'' \<notin> set Q" "CHR ''/'' \<notin> set Q"
    by (simp_all add: Q_def)
  have colon: "rfind (CHR '':'') (VipSpec_str v) = Some (length A)"
    unfolding str using P Q by (intro rfind_append) simp
  have slash: "rfind (CHR ''/'') (VipSpec_str v) = Some (length (A @ CHR '':'' # P))"
    using rfind_append [OF Q(2), of "A @ CHR '':'' # P"] by (simp add: str)
  have port: "parse_port P = Inr (port_from_be (port_be v))"
    unfolding P_def using assms(2) by (intro parse_port_to_string) simp
  have "substr (VipSpec_str v) 0 (length A) = A"
    and "substr (VipSpec_str v) (Suc (length A)) (length P) = P"
    and "drop (Suc (Suc (length A + length P))) (VipSpec_str v) = Q"
    by (simp_all add: substr_def str)
  with colon slash port assms(1) show ?thesis
    by (cases v) (auto simp: VipSpec_parse_def A_def Q_def)
qed

lemma VipSpec_parse_range:
  assumes "VipSpec_parse s = Inr v"
  shows "(proto v = 6 \<or> proto v = 17) \<and> port_be v \<noteq> 0"
  using assms
  by (auto simp: VipSpec_parse_def bind_result_Inr Let_def parse_port_nonzero
      split: option.splits if_splits)

section \<open>Claims\<close>

text \<open>
  C34.  The address parser accepts exactly the dotted quads: four groups of one to three
  decimal digits of value at most 255 and nothing else (no sign, no blank, no fifth group),
  and its result holds the four octets in network byte order.
\<close>

theorem parse_ipv4_language:
  "parse_ipv4 s = Inr a \<longleftrightarrow>
    (\<exists>t0 t1 t2 t3. octet_ok t0 \<and> octet_ok t1 \<and> octet_ok t2 \<and> octet_ok t3 \<and>
       s = join_dots [t0, t1, t2, t3] \<and>
       a = le32 (octet_val t0) (octet_val t1) (octet_val t2) (octet_val t3))"
  by (rule parse_ipv4_Inr_iff)

text \<open>
  C33.  Printing and parsing a VIP: \<^verbatim>\<open>str()\<close> followed by \<^verbatim>\<open>parse()\<close> gives the VIP
  back exactly when it is a TCP or UDP service with a nonzero port, which are the only
  values the parser ever returns.
\<close>

theorem vip_spec_round_trip:
  "VipSpec_parse (VipSpec_str v) = Inr v \<longleftrightarrow> (proto v = 6 \<or> proto v = 17) \<and> port_be v \<noteq> 0"
  using VipSpec_str_parts [of v] VipSpec_parse_range [of "VipSpec_str v" v] by blast

end
