(* ===== verification/Maglev_Ring.thy ===== *)
theory Maglev_Ring
  imports Complex_Main PB_Hash Vip_Spec "HOL-Library.Multiset"
begin

text \<open>
  \<^verbatim>\<open>src/core/maglev.cpp\<close> and \<^verbatim>\<open>include/packetbalance/maglev.h\<close>: the ring builders, and the
  proof that the Maglev fill refines the published algorithm.

  \<^verbatim>\<open>build_maglev\<close> is translated loop by loop.  The probe loop and the endless
  \<^verbatim>\<open>while (true)\<close> may fail to end (for a composite ring size they do), so both are
  \<^verbatim>\<open>partial_function (option)\<close>: \<open>None\<close> is a call that never returns.  The
  \<^verbatim>\<open>return\<close> inside the nested loops is the constructor \<open>Return\<close>.  \<^verbatim>\<open>ring_disruption\<close>
  returns the exact quotient, not its rounding to a double.

  \<open>maglev_ref\<close> is the algorithm of the Maglev paper with the permutation table written
  out; the theory ends with the proof that on a prime ring size the code returns exactly
  that ring.
\<close>

section \<open>The code\<close>

record backend =
  bk_real_id :: u32
  bk_addr :: u32
  bk_weight :: u32

datatype hash_mode = Maglev | Modulo

fun adjacent_find :: "('a \<Rightarrow> 'a \<Rightarrow> bool) \<Rightarrow> 'a list \<Rightarrow> 'a option" where
  "adjacent_find p (x # y # zs) = (if p x y then Some x else adjacent_find p (y # zs))"
| "adjacent_find p _ = None"

definition active_sorted :: "backend list \<Rightarrow> backend list result" where
  "active_sorted backends =
     (let out = sort_key bk_addr (filter (\<lambda>b. bk_weight b > 0) backends)
      in case adjacent_find (\<lambda>x y. bk_addr x = bk_addr y) out of
           Some dup \<Rightarrow> Inl (InvalidArgument (''build_ring: duplicate backend address '' @
                                             ipv4_to_string (bk_addr dup)))
         | None \<Rightarrow> Inr out)"

subsection \<open>Maglev\<close>

record fill =
  entry :: "u32 list"
  nxt :: "u32 list"
  filled :: u32

datatype 's loop = Return "u32 list" | Next 's

definition maglev_offset :: "u32 \<Rightarrow> backend \<Rightarrow> u32" where
  "maglev_offset M b = pb_backend_hash_offset (bk_addr b) mod M"

definition maglev_skip :: "u32 \<Rightarrow> backend \<Rightarrow> u32" where
  "maglev_skip M b = (if M > 1 then pb_backend_hash_skip (bk_addr b) mod (M - 1) + 1 else 1)"

definition w_max :: "backend list \<Rightarrow> u32" where
  "w_max srt = foldl (\<lambda>w b. max w (bk_weight b)) 0 srt"

definition advance :: "u32 \<Rightarrow> u32 \<Rightarrow> u32 \<Rightarrow> u32" where
  "advance c skip M = ucast ((ucast c + ucast skip :: u64) mod ucast M)"

text \<open>\<^verbatim>\<open>while (entry[c] != PB_REAL_NONE) c = (c + skip[i]) % M;\<close>\<close>

partial_function (option) walk :: "u32 list \<Rightarrow> u32 \<Rightarrow> u32 \<Rightarrow> u32 \<Rightarrow> u32 option" where
  "walk slots skip M c =
     (if slots ! unat c \<noteq> PB_REAL_NONE then walk slots skip M (advance c skip M) else Some c)"

definition take_turn :: "backend list \<Rightarrow> u32 list \<Rightarrow> u32 \<Rightarrow> nat \<Rightarrow> fill \<Rightarrow> fill loop option" where
  "take_turn srt skip M i s =
     (case walk (entry s) (skip ! i) M (nxt s ! i) of
        None \<Rightarrow> None
      | Some c \<Rightarrow>
        (let s = s\<lparr>entry := (entry s)[unat c := bk_real_id (srt ! i)],
                   nxt := (nxt s)[i := advance c (skip ! i) M],
                   filled := filled s + 1\<rparr>
         in Some (if filled s = M then Return (entry s) else Next s)))"

fun backends_loop :: "backend list \<Rightarrow> u32 list \<Rightarrow> u32 \<Rightarrow> nat \<Rightarrow> nat list \<Rightarrow> fill \<Rightarrow> fill loop option" where
  "backends_loop srt skip M pass [] s = Some (Next s)"
| "backends_loop srt skip M pass (i # is) s =
     (if pass \<ge> unat (bk_weight (srt ! i)) then backends_loop srt skip M pass is s
      else (case take_turn srt skip M i s of
          None \<Rightarrow> None
        | Some (Return e) \<Rightarrow> Some (Return e)
        | Some (Next s) \<Rightarrow> backends_loop srt skip M pass is s))"

fun passes_loop :: "backend list \<Rightarrow> u32 list \<Rightarrow> u32 \<Rightarrow> nat list \<Rightarrow> fill \<Rightarrow> fill loop option" where
  "passes_loop srt skip M [] s = Some (Next s)"
| "passes_loop srt skip M (pass # ps) s =
     (case backends_loop srt skip M pass [0..<length srt] s of
        None \<Rightarrow> None
      | Some (Return e) \<Rightarrow> Some (Return e)
      | Some (Next s) \<Rightarrow> passes_loop srt skip M ps s)"

partial_function (option) rounds_loop :: "backend list \<Rightarrow> u32 list \<Rightarrow> u32 \<Rightarrow> fill \<Rightarrow> u32 list option" where
  "rounds_loop srt skip M s =
     (case passes_loop srt skip M [0..<unat (w_max srt)] s of
        None \<Rightarrow> None
      | Some (Return e) \<Rightarrow> Some e
      | Some (Next s) \<Rightarrow> rounds_loop srt skip M s)"

definition build_maglev :: "backend list \<Rightarrow> u32 \<Rightarrow> u32 list option" where
  "build_maglev srt M =
     (let slots = replicate (unat M) PB_REAL_NONE
      in if srt = [] \<or> M = 0 then Some slots
         else rounds_loop srt (map (maglev_skip M) srt) M
                \<lparr>entry = slots, nxt = map (maglev_offset M) srt, filled = 0\<rparr>)"

subsection \<open>Modulo and the common entry point\<close>

definition build_modulo :: "backend list \<Rightarrow> u32 \<Rightarrow> u32 list" where
  "build_modulo srt M =
     (let lst = concat (map (\<lambda>b. replicate (unat (bk_weight b)) (bk_real_id b)) srt)
      in if lst = [] then replicate (unat M) PB_REAL_NONE
         else map (\<lambda>i. lst ! (i mod length lst)) [0..<unat M])"

definition parse_hash_mode :: "string \<Rightarrow> hash_mode result" where
  "parse_hash_mode s =
     (if s = ''maglev'' then Inr Maglev
      else if s = ''modulo'' then Inr Modulo
      else Inl (InvalidArgument (''bad hash mode (maglev|modulo): '' @ s)))"

definition hash_mode_name :: "hash_mode \<Rightarrow> string" where
  "hash_mode_name m = (case m of Maglev \<Rightarrow> ''maglev'' | Modulo \<Rightarrow> ''modulo'')"

definition build_ring :: "backend list \<Rightarrow> hash_mode \<Rightarrow> u32 \<Rightarrow> u32 list result option" where
  "build_ring backends mode ring_size =
     (case active_sorted backends of
        Inl e \<Rightarrow> Some (Inl e)
      | Inr srt \<Rightarrow>
          (if mode = Maglev then map_option Inr (build_maglev srt ring_size)
           else Some (Inr (build_modulo srt ring_size))))"

definition ring_index :: "u32 \<Rightarrow> u32 \<Rightarrow> u32" where
  "ring_index flow_hash ring_size = flow_hash mod ring_size"

definition ring_disruption :: "u32 list \<Rightarrow> u32 list \<Rightarrow> rat result" where
  "ring_disruption a b =
     (if length a \<noteq> length b then Inl (InvalidArgument ''ring_disruption: rings differ in size'')
      else if a = [] then Inr 0
      else (let changed = sum_list (map (\<lambda>(x, y). if x \<noteq> y then 1 else 0 :: nat) (zip a b))
            in Inr (of_nat changed / of_nat (length a))))"

section \<open>The reference algorithm\<close>

text \<open>
  The permutation of a backend, the turns of one round (pass by pass, in each pass the
  backends whose weight exceeds it) and the fill of a turn sequence: a turn claims the
  first free slot of the backend's permutation, always searching from its start.
\<close>

definition slot_at :: "u32 \<Rightarrow> backend \<Rightarrow> nat \<Rightarrow> nat" where
  "slot_at M b j = (unat (maglev_offset M b) + j * unat (maglev_skip M b)) mod unat M"

definition permutation :: "u32 \<Rightarrow> backend \<Rightarrow> nat list" where
  "permutation M b = map (slot_at M b) [0..<unat M]"

definition claim :: "u32 \<Rightarrow> u32 list \<Rightarrow> backend \<Rightarrow> u32 list" where
  "claim M e b =
     (case find (\<lambda>k. e ! k = PB_REAL_NONE) (permutation M b) of
        None \<Rightarrow> e
      | Some k \<Rightarrow> e[k := bk_real_id b])"

definition round_turns :: "backend list \<Rightarrow> nat list" where
  "round_turns srt =
     concat (map (\<lambda>p. filter (\<lambda>i. p < unat (bk_weight (srt ! i))) [0..<length srt])
                 [0..<unat (w_max srt)])"

definition turn_sequence :: "backend list \<Rightarrow> nat \<Rightarrow> nat list" where
  "turn_sequence srt n = take n (concat (replicate n (round_turns srt)))"

definition ref_fill :: "backend list \<Rightarrow> u32 \<Rightarrow> nat list \<Rightarrow> u32 list" where
  "ref_fill srt M T = foldl (\<lambda>e i. claim M e (srt ! i)) (replicate (unat M) PB_REAL_NONE) T"

definition maglev_ref :: "backend list \<Rightarrow> u32 \<Rightarrow> u32 list" where
  "maglev_ref srt M = ref_fill srt M (turn_sequence srt (unat M))"

text \<open>Every step width is coprime to the ring size, which holds when the size is prime.\<close>

definition ring_size_ok :: "u32 \<Rightarrow> bool" where
  "ring_size_ok M \<longleftrightarrow> 0 < M \<and> (\<forall>s. 0 < s \<and> s < unat M \<longrightarrow> coprime s (unat M))"

text \<open>What the fill relies on: active backends with usable ids.\<close>

definition backends_ok :: "backend list \<Rightarrow> bool" where
  "backends_ok srt \<longleftrightarrow> (\<forall>b\<in>set srt. 0 < bk_weight b \<and> bk_real_id b \<noteq> PB_REAL_NONE)"

section \<open>Arithmetic of the permutations\<close>

lemma unat_less_32: "unat (x :: u32) < 2 ^ 32"
  using unsigned_less [of x, where ?'a = nat] by simp

lemma unat_plus_one: "unat (x :: u32) + 1 < 2 ^ 32 \<Longrightarrow> unat (x + 1) = unat x + 1"
  by (simp add: unat_word_ariths)

lemma unat_advance:
  assumes "M \<noteq> 0"
  shows "unat (advance c s M) = (unat c + unat s) mod unat M"
proof -
  have "unat c < 2 ^ 32" "unat s < 2 ^ 32" and M: "unat M < 2 ^ 32"
    using unsigned_less [of c] unsigned_less [of s] unsigned_less [of M] by simp_all
  then have "unat (ucast c + ucast s :: u64) = unat c + unat s"
    by (simp add: unat_word_ariths unsigned_ucast_eq take_bit_eq_mod)
  then have "unat ((ucast c + ucast s :: u64) mod ucast M) = (unat c + unat s) mod unat M"
    using M by (simp add: unat_mod unsigned_ucast_eq take_bit_eq_mod)
  moreover have "(unat c + unat s) mod unat M < 2 ^ 32"
    using assms M mod_less_divisor [of "unat M" "unat c + unat s"]
    by (simp add: unat_gt_0 del: mod_less_divisor)
  ultimately show ?thesis
    by (simp add: advance_def unsigned_ucast_eq take_bit_eq_mod)
qed

lemma unat_maglev_offset: "unat (maglev_offset M b) = unat (pb_backend_hash_offset (bk_addr b)) mod unat M"
  by (simp add: maglev_offset_def unat_mod)

lemma unat_maglev_skip:
  "unat (maglev_skip M b) =
     (if 1 < unat M then unat (pb_backend_hash_skip (bk_addr b)) mod (unat M - 1) + 1 else 1)"
proof (cases "1 < M")
  case True
  let ?h = "pb_backend_hash_skip (bk_addr b)"
  have M1: "1 < unat M"
    using True by (simp add: word_less_nat_alt)
  have sub: "unat (M - 1) = unat M - 1"
    using True by (subst unat_sub) (simp_all add: word_le_nat_alt word_less_nat_alt)
  have "unat (?h mod (M - 1)) < unat M - 1"
    using M1 by (simp add: unat_mod sub)
  then have "unat (?h mod (M - 1) + 1) = unat (?h mod (M - 1)) + 1"
    using unat_less_32 [of M] by (intro unat_plus_one) simp
  then show ?thesis
    using True M1 by (simp add: maglev_skip_def unat_mod sub)
next
  case False
  then show ?thesis
    by (simp add: maglev_skip_def word_less_nat_alt)
qed

lemma maglev_skip_coprime:
  assumes "ring_size_ok M"
  shows "coprime (unat (maglev_skip M b)) (unat M)"
proof (cases "1 < unat M")
  case True
  then have "unat (maglev_skip M b) < unat M"
    using mod_less_divisor [of "unat M - 1"] by (simp add: unat_maglev_skip less_diff_conv del: mod_less_divisor)
  moreover have "0 < unat (maglev_skip M b)"
    by (simp add: unat_maglev_skip)
  ultimately show ?thesis
    using assms by (simp add: ring_size_ok_def)
next
  case False
  then show ?thesis
    by (simp add: unat_maglev_skip)
qed

lemma ring_size_ok_pos: "ring_size_ok M \<Longrightarrow> 0 < unat M"
  by (simp add: ring_size_ok_def word_less_nat_alt)

lemma slot_at_less: "ring_size_ok M \<Longrightarrow> slot_at M b j < unat M"
  using ring_size_ok_pos [of M] by (simp add: slot_at_def)

lemma slot_at_inj:
  assumes "ring_size_ok M"
  shows "inj_on (slot_at M b) {..<unat M}"
proof (rule linorder_inj_onI)
  fix i j :: nat
  assume "i < j" and "i \<in> {..<unat M}" and j: "j \<in> {..<unat M}"
  show "slot_at M b i \<noteq> slot_at M b j"
  proof
    assume "slot_at M b i = slot_at M b j"
    then have "unat M dvd (j - i) * unat (maglev_skip M b)"
      using \<open>i < j\<close> mod_eq_dvd_iff_nat [of "unat (maglev_offset M b) + i * unat (maglev_skip M b)"
        "unat (maglev_offset M b) + j * unat (maglev_skip M b)" "unat M"]
      by (simp add: slot_at_def diff_mult_distrib del: of_nat_unat)
    then have "unat M dvd j - i"
      using maglev_skip_coprime [OF assms, of b] by (simp add: coprime_dvd_mult_left_iff coprime_commute)
    then show False
      using \<open>i < j\<close> j by (auto dest: dvd_imp_le)
  qed
qed auto

lemma slot_at_surj:
  assumes "ring_size_ok M" "k < unat M"
  shows "\<exists>j<unat M. slot_at M b j = k"
proof -
  have "slot_at M b ` {..<unat M} = {..<unat M}"
    using slot_at_inj [OF assms(1), of b] slot_at_less [OF assms(1), of b]
    by (intro card_subset_eq) (auto simp: card_image)
  then have "k \<in> slot_at M b ` {..<unat M}"
    using assms(2) by simp
  then show ?thesis
    by auto
qed

section \<open>The reference fill\<close>

lemma count_list_update:
  "i < length xs \<Longrightarrow>
   count_list (xs[i := y]) x + (if xs ! i = x then 1 else 0) = count_list xs x + (if y = x then 1 else 0)"
proof (induction xs arbitrary: i)
  case (Cons a xs)
  show ?case
  proof (cases i)
    case (Suc k)
    then show ?thesis
      using Cons.IH [of k] Cons.prems by (auto split: if_splits)
  qed auto
qed simp

lemma count_list_pos_iff: "0 < count_list xs x \<longleftrightarrow> (\<exists>k<length xs. xs ! k = x)"
  using count_list_0_iff [of xs x] by (auto simp: in_set_conv_nth)

lemma length_claim [simp]: "length (claim M e b) = length e"
  by (simp add: claim_def split: option.split)

lemma claim_free:
  assumes "ring_size_ok M" "length e = unat M" "\<exists>k<length e. e ! k = PB_REAL_NONE"
  obtains j where "j < unat M" "e ! slot_at M b j = PB_REAL_NONE"
    "\<forall>i<j. e ! slot_at M b i \<noteq> PB_REAL_NONE"
    "claim M e b = e[slot_at M b j := bk_real_id b]"
proof -
  let ?P = "\<lambda>j. e ! slot_at M b j = PB_REAL_NONE"
  obtain j0 where j0: "j0 < unat M" "?P j0"
    using assms slot_at_surj by metis
  obtain j where j: "?P j" "\<forall>i<j. \<not> ?P i"
    using exists_least_iff [of ?P] j0(2) by blast
  have "j < unat M"
    using j(2) j0 by (meson le_less_trans not_le)
  with j have "find (\<lambda>k. e ! k = PB_REAL_NONE) (permutation M b) = Some (slot_at M b j)"
    by (auto simp: find_Some_iff permutation_def intro!: exI [of _ j])
  then show thesis
    using that [of j] j \<open>j < unat M\<close> by (simp add: claim_def)
qed

lemma ref_fill_snoc [simp]: "ref_fill srt M (T @ [i]) = claim M (ref_fill srt M T) (srt ! i)"
  by (simp add: ref_fill_def)

lemma length_ref_fill [simp]: "length (ref_fill srt M T) = unat M"
  by (induction T rule: rev_induct) (simp_all add: ref_fill_def)

lemma ref_fill_counts:
  assumes "ring_size_ok M" "backends_ok srt" "set T \<subseteq> {..<length srt}" "length T \<le> unat M"
  shows "count_list (ref_fill srt M T) PB_REAL_NONE = unat M - length T"
    and "x \<noteq> PB_REAL_NONE \<Longrightarrow>
         count_list (ref_fill srt M T) x = length (filter (\<lambda>i. bk_real_id (srt ! i) = x) T)"
proof -
  have "count_list (ref_fill srt M T) PB_REAL_NONE = unat M - length T \<and>
    (\<forall>x. x \<noteq> PB_REAL_NONE \<longrightarrow>
         count_list (ref_fill srt M T) x = length (filter (\<lambda>i. bk_real_id (srt ! i) = x) T))"
    using assms(3,4)
  proof (induction T rule: rev_induct)
    case Nil
    have "count_list (replicate n y) x = (if x = y then n else 0)" for n and x y :: u32
      by (induction n) auto
    then show ?case
      by (simp add: ref_fill_def)
  next
    case (snoc i T)
    let ?e = "ref_fill srt M T" and ?id = "bk_real_id (srt ! i)"
    have IH: "count_list ?e PB_REAL_NONE = unat M - length T"
      "\<And>x. x \<noteq> PB_REAL_NONE \<Longrightarrow> count_list ?e x = length (filter (\<lambda>i. bk_real_id (srt ! i) = x) T)"
      using snoc by auto
    have "0 < count_list ?e PB_REAL_NONE"
      using snoc.prems(2) IH(1) by simp
    then obtain j where j: "?e ! slot_at M (srt ! i) j = PB_REAL_NONE"
      "claim M ?e (srt ! i) = ?e[slot_at M (srt ! i) j := ?id]"
      using claim_free [OF assms(1), of ?e "srt ! i"] by (auto simp: count_list_pos_iff)
    have id: "?id \<noteq> PB_REAL_NONE"
      using assms(2) snoc.prems(1) by (simp add: backends_ok_def)
    have upd: "count_list (claim M ?e (srt ! i)) x + (if PB_REAL_NONE = x then 1 else 0) =
        count_list ?e x + (if ?id = x then 1 else 0)" for x
      using count_list_update [of "slot_at M (srt ! i) j" ?e ?id x] slot_at_less [OF assms(1)] j by simp
    have "count_list (claim M ?e (srt ! i)) PB_REAL_NONE = unat M - length (T @ [i])"
      using upd [of PB_REAL_NONE] id IH(1) by simp
    moreover have "count_list (claim M ?e (srt ! i)) x =
        length (filter (\<lambda>i. bk_real_id (srt ! i) = x) (T @ [i]))" if "x \<noteq> PB_REAL_NONE" for x
      using upd [of x] that IH(2) [OF that] by simp
    ultimately show ?case
      by simp
  qed
  then show "count_list (ref_fill srt M T) PB_REAL_NONE = unat M - length T"
    and "x \<noteq> PB_REAL_NONE \<Longrightarrow>
         count_list (ref_fill srt M T) x = length (filter (\<lambda>i. bk_real_id (srt ! i) = x) T)"
    by blast+
qed

lemma ref_fill_free:
  assumes "ring_size_ok M" "backends_ok srt" "set T \<subseteq> {..<length srt}" "length T < unat M"
  shows "\<exists>k<unat M. ref_fill srt M T ! k = PB_REAL_NONE"
  using ref_fill_counts(1) [of M srt T] count_list_pos_iff [of "ref_fill srt M T" PB_REAL_NONE] assms
  by simp

section \<open>The code refines the reference\<close>

lemma mod_step: "((x + a * s) mod m + s) mod m = (x + Suc a * s) mod (m :: nat)"
proof -
  have "x + Suc a * s = (x + a * s) + s"
    by simp
  then show ?thesis
    by (simp only: mod_add_left_eq)
qed

lemma walk_finds:
  assumes "M \<noteq> 0" "unat c = (x + a * unat s) mod unat M" "a \<le> j"
    "slots ! ((x + j * unat s) mod unat M) = PB_REAL_NONE"
    "\<forall>i. a \<le> i \<and> i < j \<longrightarrow> slots ! ((x + i * unat s) mod unat M) \<noteq> PB_REAL_NONE"
  shows "\<exists>c'. walk slots s M c = Some c' \<and> unat c' = (x + j * unat s) mod unat M"
  using assms(2-5)
proof (induction "j - a" arbitrary: a c)
  case 0
  then show ?case
    by (subst walk.simps) auto
next
  case (Suc n)
  then have "slots ! unat c \<noteq> PB_REAL_NONE"
    by auto
  moreover have "unat (advance c s M) = (x + Suc a * unat s) mod unat M"
    using Suc.prems(1) by (simp only: unat_advance [OF assms(1)] mod_step)
  then have "\<exists>c'. walk slots s M (advance c s M) = Some c' \<and> unat c' = (x + j * unat s) mod unat M"
    using Suc.hyps(2) Suc.prems by (intro Suc.hyps(1) [of "Suc a"]) auto
  ultimately show ?case
    by (subst walk.simps) simp
qed

text \<open>
  The simulation relation after the turns \<open>T\<close>: the entries are the reference's, and every
  cursor stands at a position of its permutation before which no slot is free.
\<close>

definition sim :: "backend list \<Rightarrow> u32 \<Rightarrow> nat list \<Rightarrow> fill \<Rightarrow> bool" where
  "sim srt M T s \<longleftrightarrow>
     entry s = ref_fill srt M T \<and> unat (filled s) = length T \<and> length T < unat M \<and>
     set T \<subseteq> {..<length srt} \<and> length (nxt s) = length srt \<and>
     (\<forall>i<length srt. \<exists>a. unat (nxt s ! i) = slot_at M (srt ! i) a \<and>
        (\<forall>j<a. entry s ! slot_at M (srt ! i) j \<noteq> PB_REAL_NONE))"

fun reaches :: "backend list \<Rightarrow> u32 \<Rightarrow> nat list \<Rightarrow> fill loop \<Rightarrow> bool" where
  "reaches srt M T (Return e) \<longleftrightarrow> unat M \<le> length T \<and> e = ref_fill srt M (take (unat M) T)"
| "reaches srt M T (Next s) \<longleftrightarrow> sim srt M T s"

lemma take_turn_reaches:
  assumes ok: "ring_size_ok M" "backends_ok srt" and sim: "sim srt M T s" and i: "i < length srt"
  shows "\<exists>r. take_turn srt (map (maglev_skip M) srt) M i s = Some r \<and> reaches srt M (T @ [i]) r"
proof -
  let ?b = "srt ! i" and ?e = "ref_fill srt M T"
  have M: "M \<noteq> 0"
    using ok(1) by (auto simp: ring_size_ok_def)
  have s: "entry s = ?e" "unat (filled s) = length T" "length T < unat M" "set T \<subseteq> {..<length srt}"
    "length (nxt s) = length srt"
    and cur: "\<And>k. k < length srt \<Longrightarrow> \<exists>a. unat (nxt s ! k) = slot_at M (srt ! k) a \<and>
        (\<forall>j<a. ?e ! slot_at M (srt ! k) j \<noteq> PB_REAL_NONE)"
    using sim by (auto simp: sim_def)
  obtain j where j: "?e ! slot_at M ?b j = PB_REAL_NONE" "\<forall>i<j. ?e ! slot_at M ?b i \<noteq> PB_REAL_NONE"
    "claim M ?e ?b = ?e[slot_at M ?b j := bk_real_id ?b]"
    using claim_free [OF ok(1), of ?e ?b] ref_fill_free [OF ok s(4,3)] by auto
  obtain a where a: "unat (nxt s ! i) = slot_at M ?b a" "\<forall>j<a. ?e ! slot_at M ?b j \<noteq> PB_REAL_NONE"
    using cur [OF i] by blast
  have "a \<le> j"
    using a(2) j(1) by (meson not_le)
  then obtain c where c: "walk ?e (maglev_skip M ?b) M (nxt s ! i) = Some c" "unat c = slot_at M ?b j"
    using walk_finds [OF M, of "nxt s ! i" "unat (maglev_offset M ?b)" a "maglev_skip M ?b" j ?e] a(1) j
    by (auto simp: slot_at_def)
  let ?s = "s\<lparr>entry := claim M ?e ?b, nxt := (nxt s)[i := advance c (maglev_skip M ?b) M],
              filled := filled s + 1\<rparr>"
  have turn: "take_turn srt (map (maglev_skip M) srt) M i s =
      Some (if filled s + 1 = M then Return (claim M ?e ?b) else Next ?s)"
    using c i by (simp add: take_turn_def s(1) j(3) Let_def)
  have fl: "unat (filled s + 1) = Suc (length T)"
    using s(2,3) unat_less_32 [of M] by (subst unat_plus_one) simp_all
  have id: "bk_real_id ?b \<noteq> PB_REAL_NONE"
    using ok(2) i by (simp add: backends_ok_def)
  have keep: "claim M ?e ?b ! k \<noteq> PB_REAL_NONE" if "k = slot_at M ?b j \<or> ?e ! k \<noteq> PB_REAL_NONE" for k
    using that id slot_at_less [OF ok(1), of ?b j] by (cases "k = slot_at M ?b j") (auto simp: j(3))
  have nx: "unat (advance c (maglev_skip M ?b) M) = slot_at M ?b (Suc j)"
    by (simp only: unat_advance [OF M] c(2) slot_at_def mod_step)
  have curs: "\<exists>a. unat (nxt ?s ! k) = slot_at M (srt ! k) a \<and>
      (\<forall>j<a. entry ?s ! slot_at M (srt ! k) j \<noteq> PB_REAL_NONE)" if "k < length srt" for k
  proof (cases "k = i")
    case True
    then show ?thesis
      using keep j(2) nx i s(5) by (auto simp: less_Suc_eq intro!: exI [of _ "Suc j"])
  next
    case False
    then show ?thesis
      using cur [OF that] keep by auto
  qed
  show ?thesis
  proof (cases "filled s + 1 = M")
    case True
    then have "length (T @ [i]) = unat M"
      using fl by simp
    then show ?thesis
      using turn True by simp
  next
    case False
    then have "Suc (length T) \<noteq> unat M"
      using fl by (auto simp: word_unat_eq_iff)
    then have "sim srt M (T @ [i]) ?s"
      unfolding sim_def using s fl i curs by auto
    then show ?thesis
      using turn False by simp
  qed
qed

lemma reaches_extend: "reaches srt M T (Return e) \<Longrightarrow> reaches srt M (T @ U) (Return e)"
  by simp

lemma backends_loop_reaches:
  assumes "ring_size_ok M" "backends_ok srt" "sim srt M T s" "set is \<subseteq> {..<length srt}"
  shows "\<exists>r. backends_loop srt (map (maglev_skip M) srt) M pass is s = Some r \<and>
             reaches srt M (T @ filter (\<lambda>i. pass < unat (bk_weight (srt ! i))) is) r"
  using assms(3,4)
proof (induction "is" arbitrary: T s)
  case (Cons i "is")
  show ?case
  proof (cases "pass < unat (bk_weight (srt ! i))")
    case True
    obtain r where r: "take_turn srt (map (maglev_skip M) srt) M i s = Some r" "reaches srt M (T @ [i]) r"
      using take_turn_reaches [OF assms(1,2) Cons.prems(1)] Cons.prems(2) by auto
    show ?thesis
    proof (cases r)
      case (Return e)
      then show ?thesis
        using r True reaches_extend [of srt M "T @ [i]" e] by (auto simp del: reaches.simps)
    next
      case (Next s')
      then show ?thesis
        using r True Cons.IH [of "T @ [i]" s'] Cons.prems(2) by auto
    qed
  next
    case False
    then show ?thesis
      using Cons.IH [OF Cons.prems(1)] Cons.prems(2) by (simp add: not_less)
  qed
qed simp

lemma passes_loop_reaches:
  assumes "ring_size_ok M" "backends_ok srt" "sim srt M T s"
  shows "\<exists>r. passes_loop srt (map (maglev_skip M) srt) M ps s = Some r \<and>
             reaches srt M (T @ concat (map (\<lambda>p. filter (\<lambda>i. p < unat (bk_weight (srt ! i)))
               [0..<length srt]) ps)) r"
  using assms(3)
proof (induction ps arbitrary: T s)
  case (Cons p ps)
  let ?U = "filter (\<lambda>i. p < unat (bk_weight (srt ! i))) [0..<length srt]"
  have sub: "set [0..<length srt] \<subseteq> {..<length srt}"
    by auto
  obtain r where r: "backends_loop srt (map (maglev_skip M) srt) M p [0..<length srt] s = Some r"
    "reaches srt M (T @ ?U) r"
    using backends_loop_reaches [OF assms(1,2) Cons.prems sub, of p] by blast
  show ?case
  proof (cases r)
    case (Return e)
    then show ?thesis
      using r reaches_extend [of srt M "T @ ?U" e] by (auto simp del: reaches.simps)
  next
    case (Next s')
    then show ?thesis
      using r Cons.IH [of "T @ ?U" s'] by auto
  qed
qed simp

lemma length_concat_replicate: "length (concat (replicate n xs)) = n * length xs"
  by (induction n) simp_all

lemma take_concat_replicate_Suc:
  assumes "n \<le> length T + k * length R"
  shows "take n (T @ concat (replicate (Suc k) R)) = take n (T @ concat (replicate k R))"
proof -
  have "concat (replicate (Suc k) R) = concat (replicate k R) @ R"
    by (simp only: replicate_append_same [symmetric] replicate_Suc concat_append) simp
  then show ?thesis
    using assms by (simp add: length_concat_replicate)
qed

lemma rounds_loop_ref:
  assumes "ring_size_ok M" "backends_ok srt" "round_turns srt \<noteq> []" "sim srt M T s"
  shows "rounds_loop srt (map (maglev_skip M) srt) M s =
         Some (ref_fill srt M (take (unat M) (T @ concat (replicate (unat M) (round_turns srt)))))"
  using assms(4)
proof (induction "unat M - length T" arbitrary: T s rule: less_induct)
  case less
  let ?R = "round_turns srt"
  obtain r where r: "passes_loop srt (map (maglev_skip M) srt) M [0..<unat (w_max srt)] s = Some r"
    "reaches srt M (T @ ?R) r"
    using passes_loop_reaches [OF assms(1,2) less.prems] by (auto simp: round_turns_def)
  have pos: "0 < unat M" "0 < length ?R"
    using ring_size_ok_pos [OF assms(1)] assms(3) by auto
  show ?case
  proof (cases r)
    case (Return e)
    obtain m where "unat M = Suc m"
      using pos(1) by (cases "unat M") auto
    then show ?thesis
      using r Return by (subst rounds_loop.simps) simp
  next
    case (Next s')
    have "length T < unat M"
      using less.prems by (simp add: sim_def)
    then have "rounds_loop srt (map (maglev_skip M) srt) M s' =
        Some (ref_fill srt M (take (unat M) ((T @ ?R) @ concat (replicate (unat M) ?R))))"
      using r Next pos(2) by (intro less.hyps) (simp_all del: length_greater_0_conv)
    also have "(T @ ?R) @ concat (replicate (unat M) ?R) = T @ concat (replicate (Suc (unat M)) ?R)"
      by simp
    also have "take (unat M) \<dots> = take (unat M) (T @ concat (replicate (unat M) ?R))"
      using pos(2) by (intro take_concat_replicate_Suc trans_le_add2) (simp add: Suc_le_eq)
    finally show ?thesis
      using r Next by (subst rounds_loop.simps) simp
  qed
qed

lemma w_max_ge: "b \<in> set srt \<Longrightarrow> bk_weight b \<le> w_max srt"
proof -
  have "a \<le> foldl (\<lambda>w b. max w (bk_weight b)) a bs \<and>
    (\<forall>b\<in>set bs. bk_weight b \<le> foldl (\<lambda>w b. max w (bk_weight b)) a bs)" for a and bs :: "backend list"
    by (induction bs arbitrary: a) (simp_all, meson max.boundedE)
  then show "b \<in> set srt \<Longrightarrow> bk_weight b \<le> w_max srt"
    by (simp add: w_max_def)
qed

lemma round_turns_Nil_iff:
  assumes "backends_ok srt"
  shows "round_turns srt = [] \<longleftrightarrow> srt = []"
proof
  assume R: "round_turns srt = []"
  show "srt = []"
  proof (rule ccontr)
    assume "srt \<noteq> []"
    then have "srt ! 0 \<in> set srt"
      by simp
    moreover from this have "0 < unat (bk_weight (srt ! 0))"
      using assms by (auto simp: backends_ok_def unat_gt_0)
    ultimately have "0 < unat (bk_weight (srt ! 0))" "0 < unat (w_max srt)"
      using w_max_ge [of "srt ! 0" srt] by (auto simp: word_le_nat_alt)
    then have "0 \<in> set (round_turns srt)"
      using \<open>srt \<noteq> []\<close> by (force simp: round_turns_def)
    then show False
      using R by simp
  qed
qed (simp add: round_turns_def)

lemma maglev_ref_Nil [simp]: "maglev_ref [] M = replicate (unat M) PB_REAL_NONE"
  using round_turns_Nil_iff [of "[]"]
  by (simp add: maglev_ref_def turn_sequence_def ref_fill_def backends_ok_def concat_replicate_trivial)

lemma build_maglev_ref:
  assumes "ring_size_ok M" "backends_ok srt"
  shows "build_maglev srt M = Some (maglev_ref srt M)"
proof (cases "srt = []")
  case True
  then show ?thesis
    by (simp add: build_maglev_def)
next
  case False
  let ?s = "\<lparr>entry = replicate (unat M) PB_REAL_NONE, nxt = map (maglev_offset M) srt, filled = 0\<rparr>"
  have "sim srt M [] ?s"
    using ring_size_ok_pos [OF assms(1)]
    by (auto simp: sim_def ref_fill_def slot_at_def unat_maglev_offset intro!: exI [of _ 0])
  then have "rounds_loop srt (map (maglev_skip M) srt) M ?s = Some (maglev_ref srt M)"
    using rounds_loop_ref [OF assms, of "[]" ?s] round_turns_Nil_iff [OF assms(2)] False
    by (simp add: maglev_ref_def turn_sequence_def)
  then show ?thesis
    using False assms(1) by (auto simp: build_maglev_def ring_size_ok_def Let_def)
qed

end
