(* ===== verification/Maglev_Shares.thy ===== *)
theory Maglev_Shares
  imports Maglev_Ring
begin

text \<open>
  What the rings of \<^verbatim>\<open>src/core/maglev.cpp\<close> promise: the exact number of slots of every
  backend in a Maglev and in a modulo ring, the contents of a ring, independence of the
  order in which the backends are listed, and independence of the numbering of the reals
  (two load balancers that number their reals differently send a flow to the same address).
\<close>

section \<open>The share of every backend\<close>

definition total_weight :: "backend list \<Rightarrow> nat" where
  "total_weight srt = sum_list (map (\<lambda>b. unat (bk_weight b)) srt)"

lemma take_concat_replicate:
  assumes "0 < length R" "n \<le> k * length R"
  shows "take n (concat (replicate k R)) =
         concat (replicate (n div length R) R) @ take (n mod length R) R"
  using assms(2)
proof (induction k arbitrary: n)
  case (Suc k)
  show ?case
  proof (cases "n < length R")
    case False
    then have "take n (concat (replicate (Suc k) R)) = R @ take (n - length R) (concat (replicate k R))"
      by simp
    also have "\<dots> = R @ concat (replicate ((n - length R) div length R) R) @ take ((n - length R) mod length R) R"
      using Suc by simp
    also have "\<dots> = concat (replicate (Suc ((n - length R) div length R)) R) @ take ((n - length R) mod length R) R"
      by simp
    also have "Suc ((n - length R) div length R) = n div length R"
      using False assms(1) by (simp add: le_div_geq del: length_greater_0_conv)
    also have "(n - length R) mod length R = n mod length R"
      using False by (simp add: le_mod_geq)
    finally show ?thesis .
  qed simp
qed simp

lemma sum_list_less: "sum_list (map (\<lambda>p. if p < w then 1 else 0) [0..<n]) = min n (w :: nat)"
  by (induction n) auto

lemma count_list_filter: "count_list (filter P xs) x = (if P x then count_list xs x else 0)"
  by (induction xs) auto

lemma count_list_concat: "count_list (concat xss) x = sum_list (map (\<lambda>xs. count_list xs x) xss)"
  by (induction xss) auto

lemma count_list_upt: "count_list [0..<n] i = (if i < n then 1 else 0)"
  by (induction n) auto

lemma count_round_turns:
  assumes "i < length srt"
  shows "count_list (round_turns srt) i = unat (bk_weight (srt ! i))"
proof -
  have "count_list (round_turns srt) i =
      sum_list (map (\<lambda>p. if p < unat (bk_weight (srt ! i)) then 1 else 0) [0..<unat (w_max srt)])"
    using assms by (simp add: round_turns_def count_list_concat count_list_filter count_list_upt o_def cong: if_cong)
  then show ?thesis
    using w_max_ge [of "srt ! i" srt] assms by (simp only: sum_list_less) (simp add: word_le_nat_alt min_def)
qed

lemma set_round_turns: "set (round_turns srt) \<subseteq> {..<length srt}"
  by (auto simp: round_turns_def)

lemma length_round_turns: "length (round_turns srt) = total_weight srt"
proof -
  have "length (round_turns srt) = (\<Sum>i<length srt. count_list (round_turns srt) i)"
    using sum_count_set [OF set_round_turns] by simp
  also have "\<dots> = (\<Sum>i<length srt. unat (bk_weight (srt ! i)))"
    by (simp add: count_round_turns)
  also have "\<dots> = total_weight srt"
    by (simp add: total_weight_def sum_list_sum_nth atLeast0LessThan)
  finally show ?thesis .
qed

lemma total_weight_pos: "backends_ok srt \<Longrightarrow> srt \<noteq> [] \<Longrightarrow> 0 < total_weight srt"
  using round_turns_Nil_iff [of srt] length_round_turns [of srt] by (cases "round_turns srt") auto

lemma count_turn_sequence:
  assumes "backends_ok srt" "srt \<noteq> []" "i < length srt"
  shows "count_list (turn_sequence srt n) i =
         (n div total_weight srt) * unat (bk_weight (srt ! i)) +
         count_list (take (n mod total_weight srt) (round_turns srt)) i"
proof -
  have "n \<le> n * total_weight srt"
    using total_weight_pos [OF assms(1,2)] by simp
  then have "turn_sequence srt n = concat (replicate (n div total_weight srt) (round_turns srt)) @
      take (n mod total_weight srt) (round_turns srt)"
    using total_weight_pos [OF assms(1,2)] take_concat_replicate [of "round_turns srt" n n]
    by (simp add: turn_sequence_def length_round_turns del: length_greater_0_conv)
  then show ?thesis
    by (simp add: count_list_concat sum_list_replicate count_round_turns [OF assms(3)])
qed

lemma length_turn_sequence:
  assumes "backends_ok srt" "srt \<noteq> []"
  shows "length (turn_sequence srt n) = n"
  using total_weight_pos [OF assms] by (simp add: turn_sequence_def length_concat_replicate length_round_turns)

lemma set_turn_sequence: "set (turn_sequence srt n) \<subseteq> {..<length srt}"
proof -
  have "set (turn_sequence srt n) \<subseteq> set (concat (replicate n (round_turns srt)))"
    unfolding turn_sequence_def by (rule set_take_subset)
  also have "\<dots> \<subseteq> set (round_turns srt)"
    by auto
  finally show ?thesis
    using set_round_turns by (rule subset_trans)
qed

lemma maglev_ref_slots:
  assumes "ring_size_ok M" "backends_ok srt" "distinct (map bk_real_id srt)" "i < length srt"
  shows "count_list (maglev_ref srt M) (bk_real_id (srt ! i)) =
         (unat M div total_weight srt) * unat (bk_weight (srt ! i)) +
         count_list (take (unat M mod total_weight srt) (round_turns srt)) i"
proof -
  let ?T = "turn_sequence srt (unat M)"
  have ne: "srt \<noteq> []" and id: "bk_real_id (srt ! i) \<noteq> PB_REAL_NONE"
    using assms(2,4) by (auto simp: backends_ok_def)
  have "bk_real_id (srt ! k) = bk_real_id (srt ! i) \<longleftrightarrow> k = i" if "k \<in> set ?T" for k
    using that set_turn_sequence [of srt "unat M"] assms(3,4) nth_eq_iff_index_eq [OF assms(3), of k i]
    by (auto simp: subset_iff)
  then have "filter (\<lambda>k. bk_real_id (srt ! k) = bk_real_id (srt ! i)) ?T = filter (\<lambda>k. i = k) ?T"
    by (intro filter_cong) auto
  then have "count_list (maglev_ref srt M) (bk_real_id (srt ! i)) = count_list ?T i"
    using ref_fill_counts(2) [OF assms(1,2) set_turn_sequence, of "unat M" "bk_real_id (srt ! i)"] id
      length_turn_sequence [OF assms(2) ne]
    by (simp add: maglev_ref_def count_list_eq_length_filter)
  then show ?thesis
    by (simp add: count_turn_sequence [OF assms(2) ne assms(4)])
qed

lemma maglev_ref_full:
  assumes "ring_size_ok M" "backends_ok srt" "srt \<noteq> []"
  shows "PB_REAL_NONE \<notin> set (maglev_ref srt M)"
  using ref_fill_counts(1) [OF assms(1,2) set_turn_sequence, of "unat M"] length_turn_sequence [OF assms(2,3)]
  by (simp add: maglev_ref_def count_list_0_iff)

lemma set_maglev_ref:
  assumes "ring_size_ok M" "backends_ok srt" "srt \<noteq> []"
  shows "set (maglev_ref srt M) \<subseteq> bk_real_id ` set srt"
proof
  fix x assume x: "x \<in> set (maglev_ref srt M)"
  let ?T = "turn_sequence srt (unat M)"
  have "x \<noteq> PB_REAL_NONE"
    using x maglev_ref_full [OF assms] by auto
  moreover have "0 < count_list (maglev_ref srt M) x"
    using x by (simp add: count_list_pos_iff in_set_conv_nth)
  ultimately have "filter (\<lambda>i. bk_real_id (srt ! i) = x) ?T \<noteq> []"
    using ref_fill_counts(2) [OF assms(1,2) set_turn_sequence, of "unat M" x] length_turn_sequence [OF assms(2,3)]
    by (simp add: maglev_ref_def)
  then obtain i where "i \<in> set ?T" "bk_real_id (srt ! i) = x"
    by (auto simp: filter_empty_conv)
  then show "x \<in> bk_real_id ` set srt"
    using set_turn_sequence [of srt "unat M"] by force
qed

text \<open>Two backends of one weight take their turns in the same passes.\<close>

lemma count_le_one: "distinct xs \<Longrightarrow> count_list xs x \<le> 1"
  by (induction xs) (auto simp: count_list_0_iff)

lemma count_prefix_passes:
  assumes "\<And>xs. xs \<in> set xss \<Longrightarrow> distinct xs \<and> count_list xs i = count_list xs (j :: nat)"
  shows "count_list (take r (concat xss)) i \<le> count_list (take r (concat xss)) j + 1"
  using assms
proof (induction xss arbitrary: r)
  case (Cons xs xss)
  show ?case
  proof (cases "length xs \<le> r")
    case True
    then show ?thesis
      using Cons.IH [of "r - length xs"] Cons.prems by simp
  next
    case False
    then show ?thesis
      using count_le_one [of "take r xs" i] Cons.prems by simp
  qed
qed simp

lemma count_prefix_equal_weights:
  assumes "i < length srt" "j < length srt" "bk_weight (srt ! i) = bk_weight (srt ! j)"
  shows "count_list (take r (round_turns srt)) i \<le> count_list (take r (round_turns srt)) j + 1"
  unfolding round_turns_def using assms
  by (intro count_prefix_passes) (auto simp: count_list_filter count_list_upt)

section \<open>The ring size of the program\<close>

lemma no_small_divisor: "\<forall>d\<in>set [2..<257]. (65537 :: nat) mod d \<noteq> 0"
  by simp

lemma ring_size_ok_PB_RING_SIZE: "ring_size_ok PB_RING_SIZE"
proof -
  have "coprime s 65537" if s: "0 < s" "s < 65537" for s :: nat
  proof -
    let ?g = "gcd s 65537"
    obtain h where h: "65537 = ?g * h"
      using gcd_dvd2 [of s 65537] unfolding dvd_def by blast
    have small: "d \<le> 1" if "d dvd 65537" "d \<le> 256" for d :: nat
      using that bspec [OF no_small_divisor, of d]
      by (cases "d \<le> 1") (simp_all add: dvd_eq_mod_eq_0 del: upt_rec_numeral)
    have "?g \<le> s"
      using s by (intro dvd_imp_le) auto
    then have "1 < h"
      using h s(2) by (cases "h = 0 \<or> h = 1") auto
    moreover have "h dvd 65537"
      using h dvd_triv_right [of h ?g] by simp
    ultimately have "257 \<le> h"
      using small [of h] by (cases "h \<le> 256") auto
    then have "?g \<le> 256"
      using h mult_le_mono [of 257 ?g 257 h] by (cases "257 \<le> ?g") auto
    then have "?g \<le> 1"
      using small [of ?g] by simp
    moreover have "?g \<noteq> 0"
      using s by simp
    ultimately have "?g = 1"
      by linarith
    then show ?thesis
      by (simp only: coprime_iff_gcd_eq_1)
  qed
  then show ?thesis
    by (simp add: ring_size_ok_def word_less_nat_alt)
qed

section \<open>Sorting and duplicates\<close>

lemma adjacent_find_map: "map_option f (adjacent_find (\<lambda>x y. f x = f y) xs) = adjacent_find (=) (map f xs)"
  by (induction "\<lambda>x y. f x = f y" xs rule: adjacent_find.induct) auto

lemma adjacent_find_None_iff:
  fixes xs :: "'a :: linorder list"
  assumes "sorted xs"
  shows "adjacent_find (=) xs = None \<longleftrightarrow> distinct xs"
  using assms by (induction "(=) :: 'a \<Rightarrow> 'a \<Rightarrow> bool" xs rule: adjacent_find.induct) force+

definition active :: "backend list \<Rightarrow> backend list" where
  "active bs = filter (\<lambda>b. bk_weight b > 0) bs"

lemma active_sorted_cases:
  "active_sorted bs =
     (if distinct (map bk_addr (active bs)) then Inr (sort_key bk_addr (active bs))
      else Inl (InvalidArgument (''build_ring: duplicate backend address '' @
             ipv4_to_string (the (adjacent_find (=) (sort (map bk_addr (active bs))))))))"
proof -
  let ?out = "sort_key bk_addr (active bs)"
  have keys: "map bk_addr ?out = sort (map bk_addr (active bs))"
    by (rule properties_for_sort [symmetric]) simp_all
  have find: "map_option bk_addr (adjacent_find (\<lambda>x y. bk_addr x = bk_addr y) ?out) =
      adjacent_find (=) (sort (map bk_addr (active bs)))"
    by (simp only: adjacent_find_map keys)
  show ?thesis
  proof (cases "adjacent_find (\<lambda>x y. bk_addr x = bk_addr y) ?out")
    case None
    then have "distinct (map bk_addr (active bs))"
      using find adjacent_find_None_iff [of "sort (map bk_addr (active bs))"] by simp
    then show ?thesis
      using None by (simp add: active_sorted_def active_def Let_def)
  next
    case (Some b)
    then have f: "adjacent_find (=) (sort (map bk_addr (active bs))) = Some (bk_addr b)"
      using find by simp
    then have "\<not> distinct (map bk_addr (active bs))"
      using adjacent_find_None_iff [of "sort (map bk_addr (active bs))"] by simp
    then show ?thesis
      using Some f by (simp add: active_sorted_def active_def Let_def)
  qed
qed

text \<open>Everything the builders see is a function of the multiset of backends.\<close>

lemma active_sorted_mset:
  assumes "mset bs = mset bs'"
  shows "active_sorted bs = active_sorted bs'"
proof -
  have act: "mset (active bs) = mset (active bs')"
    using assms by (simp add: active_def)
  then have keys: "mset (map bk_addr (active bs)) = mset (map bk_addr (active bs'))"
    by simp
  have sorts: "sort (map bk_addr (active bs)) = sort (map bk_addr (active bs'))"
    by (rule properties_for_sort) (use keys in simp_all)
  have dist: "distinct (map bk_addr (active bs)) \<longleftrightarrow> distinct (map bk_addr (active bs'))"
    using keys by (rule mset_eq_imp_distinct_iff)
  have "sort_key bk_addr (active bs) = sort_key bk_addr (active bs')" if d: "distinct (map bk_addr (active bs))"
    using d dist mset_eq_setD [OF act]
    by (intro map_sorted_distinct_set_unique [of bk_addr]) (auto simp: distinct_map)
  then show ?thesis
    by (simp add: active_sorted_cases sorts dist)
qed

lemma active_sorted_Inr:
  assumes "active_sorted bs = Inr srt"
  shows "mset srt = mset (active bs)" "sorted (map bk_addr srt)" "distinct (map bk_addr srt)"
    "set srt = {b \<in> set bs. 0 < bk_weight b}" "srt = [] \<longleftrightarrow> (\<forall>b\<in>set bs. bk_weight b = 0)"
proof -
  have s: "srt = sort_key bk_addr (active bs)" and d: "distinct (map bk_addr (active bs))"
    using assms by (auto simp: active_sorted_cases split: if_splits)
  show "mset srt = mset (active bs)" "sorted (map bk_addr srt)" "set srt = {b \<in> set bs. 0 < bk_weight b}"
    by (simp_all add: s active_def)
  show "distinct (map bk_addr srt)"
    using d by (simp add: s distinct_map)
  show "srt = [] \<longleftrightarrow> (\<forall>b\<in>set bs. bk_weight b = 0)"
    unfolding set_empty [symmetric] using word_gt_0 by (auto simp: s active_def)
qed

lemma active_sorted_ok:
  assumes "active_sorted bs = Inr srt" "\<forall>b\<in>set bs. bk_real_id b \<noteq> PB_REAL_NONE"
  shows "backends_ok srt"
  using assms(2) active_sorted_Inr(4) [OF assms(1)] by (auto simp: backends_ok_def)

section \<open>Modulo rings\<close>

definition modulo_list :: "backend list \<Rightarrow> nat list" where
  "modulo_list srt = concat (map (\<lambda>i. replicate (unat (bk_weight (srt ! i))) i) [0..<length srt])"

lemma nth_concat_replicate:
  "i < k * length xs \<Longrightarrow> concat (replicate k xs) ! i = xs ! (i mod length xs)"
proof (induction k arbitrary: i)
  case (Suc k)
  show ?case
  proof (cases "i < length xs")
    case False
    then show ?thesis
      using Suc by (simp add: nth_append le_mod_geq)
  qed (simp add: nth_append)
qed simp

lemma count_list_map_at:
  "(\<And>x. x \<in> set xs \<Longrightarrow> f x = f i \<longleftrightarrow> x = i) \<Longrightarrow> count_list (map f xs) (f i) = count_list xs i"
  by (induction xs) auto

lemma modulo_list_ids:
  "concat (map (\<lambda>b. replicate (unat (bk_weight b)) (bk_real_id b)) srt) =
   map (\<lambda>i. bk_real_id (srt ! i)) (modulo_list srt)"
proof -
  have "map (\<lambda>b. replicate (unat (bk_weight b)) (bk_real_id b)) srt =
      map (\<lambda>i. replicate (unat (bk_weight (srt ! i))) (bk_real_id (srt ! i))) [0..<length srt]"
    by (rule nth_equalityI) simp_all
  then show ?thesis
    by (simp add: modulo_list_def map_concat o_def)
qed

lemma build_modulo_turns:
  assumes "modulo_list srt \<noteq> []"
  shows "build_modulo srt M =
         map (\<lambda>i. bk_real_id (srt ! i)) (take (unat M) (concat (replicate (unat M) (modulo_list srt))))"
proof (rule nth_equalityI)
  have L: "0 < length (modulo_list srt)"
    using assms by simp
  have len: "unat M \<le> unat M * length (modulo_list srt)"
    using L by (simp add: Suc_le_eq)
  then show "length (build_modulo srt M) =
      length (map (\<lambda>i. bk_real_id (srt ! i)) (take (unat M) (concat (replicate (unat M) (modulo_list srt)))))"
    using assms by (simp add: build_modulo_def modulo_list_ids length_concat_replicate)
  fix k assume "k < length (build_modulo srt M)"
  then have k: "k < unat M"
    using assms by (simp add: build_modulo_def modulo_list_ids Let_def)
  then show "build_modulo srt M ! k =
      map (\<lambda>i. bk_real_id (srt ! i)) (take (unat M) (concat (replicate (unat M) (modulo_list srt)))) ! k"
    using assms less_le_trans [OF k len]
    by (simp add: build_modulo_def modulo_list_ids length_concat_replicate nth_concat_replicate)
qed

lemma count_modulo_list:
  "count_list (modulo_list srt) i = (if i < length srt then unat (bk_weight (srt ! i)) else 0)"
proof -
  have rep: "count_list (replicate n x) y = (if x = y then n else 0)" for n x and y :: nat
    by (induction n) auto
  have "sum_list (map (\<lambda>x. if x = i then f x else 0) [0..<n]) = (if i < n then f i else 0)" for f :: "nat \<Rightarrow> nat" and n
    by (induction n) auto
  then show ?thesis
    by (simp add: modulo_list_def count_list_concat o_def rep)
qed

lemma set_modulo_list: "set (modulo_list srt) \<subseteq> {..<length srt}"
  by (auto simp: modulo_list_def)

lemma length_modulo_list: "length (modulo_list srt) = total_weight srt"
  using sum_count_set [OF set_modulo_list, of srt]
  by (simp add: count_modulo_list total_weight_def sum_list_sum_nth atLeast0LessThan)

lemma modulo_list_Nil_iff: "backends_ok srt \<Longrightarrow> modulo_list srt = [] \<longleftrightarrow> srt = []"
  using total_weight_pos [of srt] length_modulo_list [of srt]
  by (cases "srt = []"; cases "modulo_list srt") (auto simp: modulo_list_def [of "[]"])

lemma length_build_modulo [simp]: "length (build_modulo srt M) = unat M"
  by (simp add: build_modulo_def Let_def)

lemma set_build_modulo:
  assumes "backends_ok srt" "srt \<noteq> []"
  shows "set (build_modulo srt M) \<subseteq> bk_real_id ` set srt"
proof -
  have "set (take (unat M) (concat (replicate (unat M) (modulo_list srt)))) \<subseteq> set (modulo_list srt)"
    by (rule subset_trans [OF set_take_subset]) auto
  then have "set (take (unat M) (concat (replicate (unat M) (modulo_list srt)))) \<subseteq> {..<length srt}"
    using set_modulo_list by (rule subset_trans)
  then show ?thesis
    using assms by (auto simp: build_modulo_turns modulo_list_Nil_iff)
qed

lemma build_modulo_slots:
  assumes "backends_ok srt" "distinct (map bk_real_id srt)" "i < length srt"
  shows "count_list (build_modulo srt M) (bk_real_id (srt ! i)) =
         (unat M div total_weight srt) * unat (bk_weight (srt ! i)) +
         count_list (take (unat M mod total_weight srt) (modulo_list srt)) i"
proof -
  let ?T = "take (unat M) (concat (replicate (unat M) (modulo_list srt)))"
  have ne: "modulo_list srt \<noteq> []" and W: "0 < total_weight srt"
    using assms(1,3) modulo_list_Nil_iff [of srt] total_weight_pos [of srt] by auto
  have "unat M \<le> unat M * total_weight srt"
    using W by simp
  then have T: "?T = concat (replicate (unat M div total_weight srt) (modulo_list srt)) @
      take (unat M mod total_weight srt) (modulo_list srt)"
    using take_concat_replicate [of "modulo_list srt" "unat M" "unat M"] W
    by (simp add: length_modulo_list del: length_greater_0_conv)
  have "set ?T \<subseteq> set (modulo_list srt)"
    by (rule subset_trans [OF set_take_subset]) auto
  then have "set ?T \<subseteq> {..<length srt}"
    using set_modulo_list by (rule subset_trans)
  then have "count_list (map (\<lambda>i. bk_real_id (srt ! i)) ?T) (bk_real_id (srt ! i)) = count_list ?T i"
    using nth_eq_iff_index_eq [OF assms(2)] assms(3) by (intro count_list_map_at) (auto simp: subset_iff)
  then show ?thesis
    using assms(3) by (simp add: build_modulo_turns [OF ne] T count_list_concat sum_list_replicate count_modulo_list
        del: map_append)
qed

section \<open>Relabelling the reals\<close>

definition relabel :: "(u32 \<Rightarrow> u32) \<Rightarrow> backend \<Rightarrow> backend" where
  "relabel g b = b\<lparr>bk_real_id := g (bk_real_id b)\<rparr>"

lemma relabel_sel [simp]:
  "bk_addr (relabel g b) = bk_addr b" "bk_weight (relabel g b) = bk_weight b"
  "bk_real_id (relabel g b) = g (bk_real_id b)"
  by (simp_all add: relabel_def)

lemma insort_key_map: "insort_key f (h x) (map h xs) = map h (insort_key (\<lambda>x. f (h x)) x xs)"
  by (induction xs) simp_all

lemma sort_key_map: "sort_key f (map h xs) = map h (sort_key (\<lambda>x. f (h x)) xs)"
  by (induction xs) (simp_all add: insort_key_map)

lemma active_sorted_relabel:
  "active_sorted (map (relabel g) bs) = map_sum id (map (relabel g)) (active_sorted bs)"
proof -
  have "active (map (relabel g) bs) = map (relabel g) (active bs)"
    by (simp add: active_def filter_map o_def)
  then show ?thesis
    by (simp add: active_sorted_cases sort_key_map o_def)
qed

lemma w_max_relabel: "w_max (map (relabel g) srt) = w_max srt"
  by (simp add: w_max_def foldl_map)

lemma turn_sequence_relabel: "turn_sequence (map (relabel g) srt) n = turn_sequence srt n"
proof -
  have "filter (\<lambda>i. p < unat (bk_weight (map (relabel g) srt ! i))) [0..<length srt] =
        filter (\<lambda>i. p < unat (bk_weight (srt ! i))) [0..<length srt]" for p
    by (intro filter_cong) simp_all
  then show ?thesis
    by (simp add: turn_sequence_def round_turns_def w_max_relabel)
qed

lemma permutation_relabel [simp]: "permutation M (relabel g b) = permutation M b"
proof -
  have "slot_at M (relabel g b) = slot_at M b"
    by (rule ext) (simp add: slot_at_def maglev_offset_def maglev_skip_def)
  then show ?thesis
    by (simp add: permutation_def)
qed

lemma set_permutation: "ring_size_ok M \<Longrightarrow> set (permutation M b) \<subseteq> {..<unat M}"
  using slot_at_less by (auto simp: permutation_def)

lemma set_claim: "set (claim M e b) \<subseteq> insert (bk_real_id b) (set e)"
  using set_update_subset_insert [of e _ "bk_real_id b"]
  by (simp add: claim_def subset_insertI split: option.split)

lemma find_cong_set: "(\<And>x. x \<in> set xs \<Longrightarrow> P x = Q x) \<Longrightarrow> find P xs = find Q xs"
  by (induction xs) auto

lemma claim_relabel:
  assumes "ring_size_ok M" "length e = unat M" "\<And>x. x \<in> set e \<Longrightarrow> g x = PB_REAL_NONE \<longleftrightarrow> x = PB_REAL_NONE"
  shows "claim M (map g e) (relabel g b) = map g (claim M e b)"
proof -
  have "find (\<lambda>k. map g e ! k = PB_REAL_NONE) (permutation M b) =
        find (\<lambda>k. e ! k = PB_REAL_NONE) (permutation M b)"
    using set_permutation [OF assms(1), of b] assms(2,3) by (intro find_cong_set) (auto simp: subset_iff)
  then show ?thesis
    by (simp add: claim_def map_update split: option.split)
qed

lemma ref_fill_relabel:
  assumes "ring_size_ok M" "set T \<subseteq> {..<length srt}" "g PB_REAL_NONE = PB_REAL_NONE"
    "\<And>b. b \<in> set srt \<Longrightarrow> bk_real_id b \<noteq> PB_REAL_NONE \<and> g (bk_real_id b) \<noteq> PB_REAL_NONE"
  shows "ref_fill (map (relabel g) srt) M T = map g (ref_fill srt M T)"
    and "set (ref_fill srt M T) \<subseteq> insert PB_REAL_NONE (bk_real_id ` set srt)"
  using assms(2)
proof (induction T rule: rev_induct)
  case Nil
  case 1 show ?case using assms(3) by (simp add: ref_fill_def)
  case 2 show ?case by (auto simp: ref_fill_def)
next
  case (snoc i T)
  have i: "i < length srt" "set T \<subseteq> {..<length srt}" if "set (T @ [i]) \<subseteq> {..<length srt}"
    using that by auto
  {
    case 1
    have "g x = PB_REAL_NONE \<longleftrightarrow> x = PB_REAL_NONE" if "x \<in> set (ref_fill srt M T)" for x
      using that snoc(2) [OF i(2) [OF 1]] assms(3,4) by auto
    then show ?case
      using snoc(1) [OF i(2) [OF 1]] i(1) [OF 1] claim_relabel [OF assms(1), of "ref_fill srt M T" g "srt ! i"]
      by simp
  next
    case 2
    show ?case
      using snoc(2) [OF i(2) [OF 2]] i(1) [OF 2] set_claim [of M "ref_fill srt M T" "srt ! i"] by fastforce
  }
qed

lemma maglev_ref_relabel:
  assumes "ring_size_ok M" "g PB_REAL_NONE = PB_REAL_NONE"
    "\<And>b. b \<in> set srt \<Longrightarrow> bk_real_id b \<noteq> PB_REAL_NONE \<and> g (bk_real_id b) \<noteq> PB_REAL_NONE"
  shows "maglev_ref (map (relabel g) srt) M = map g (maglev_ref srt M)"
  using ref_fill_relabel(1) [OF assms(1) set_turn_sequence assms(2,3)]
  by (simp add: maglev_ref_def turn_sequence_relabel)

lemma build_modulo_relabel:
  assumes "g PB_REAL_NONE = PB_REAL_NONE"
  shows "build_modulo (map (relabel g) srt) M = map g (build_modulo srt M)"
proof -
  let ?l = "concat (map (\<lambda>b. replicate (unat (bk_weight b)) (bk_real_id b)) srt)"
  have "concat (map (\<lambda>b. replicate (unat (bk_weight b)) (bk_real_id b)) (map (relabel g) srt)) = map g ?l"
    by (simp add: map_concat o_def)
  then show ?thesis
    using assms by (simp add: build_modulo_def Let_def o_def)
qed

section \<open>What the ring promises\<close>

definition ids_ok :: "backend list \<Rightarrow> bool" where
  "ids_ok bs \<longleftrightarrow> (\<forall>b\<in>set bs. bk_real_id b \<noteq> PB_REAL_NONE)"

lemma ids_okD: "ids_ok bs \<Longrightarrow> active_sorted bs = Inr srt \<Longrightarrow> backends_ok srt"
  using active_sorted_ok [of bs srt] by (auto simp: ids_ok_def)

lemma build_ring_Maglev:
  assumes "ring_size_ok M" "ids_ok bs"
  shows "build_ring bs Maglev M = Some (map_sum id (\<lambda>srt. maglev_ref srt M) (active_sorted bs))"
  using build_maglev_ref [OF assms(1)] ids_okD [OF assms(2)]
  by (cases "active_sorted bs") (simp_all add: build_ring_def)

lemma build_ring_Modulo:
  "build_ring bs Modulo M = Some (map_sum id (\<lambda>srt. build_modulo srt M) (active_sorted bs))"
  by (cases "active_sorted bs") (simp_all add: build_ring_def)

lemma total_weight_mset: "total_weight bs = sum_mset (image_mset (\<lambda>b. unat (bk_weight b)) (mset bs))"
  by (simp add: total_weight_def sum_mset_sum_list [symmetric])

lemma total_weight_active_sorted:
  assumes "active_sorted bs = Inr srt"
  shows "total_weight srt = total_weight bs"
proof -
  have "total_weight srt = total_weight (active bs)"
    using active_sorted_Inr(1) [OF assms] by (simp add: total_weight_mset)
  also have "total_weight (active bs) = total_weight bs"
    by (induction bs) (simp_all add: active_def total_weight_def word_gt_0)
  finally show ?thesis .
qed

lemma active_index:
  assumes "active_sorted bs = Inr srt" "b \<in> set bs" "0 < bk_weight b"
  obtains i where "i < length srt" "srt ! i = b"
proof -
  have "b \<in> set srt"
    using assms active_sorted_Inr(4) [OF assms(1)] by simp
  then show thesis
    using that by (auto simp: in_set_conv_nth)
qed

lemma active_ids_distinct:
  assumes "active_sorted bs = Inr srt" "distinct (map bk_real_id bs)"
  shows "distinct (map bk_real_id srt)"
proof -
  have "distinct (map bk_real_id (active bs))"
    using assms(2) by (simp add: active_def distinct_map_filter)
  moreover have "mset (map bk_real_id srt) = mset (map bk_real_id (active bs))"
    using active_sorted_Inr(1) [OF assms(1)] by simp
  ultimately show ?thesis
    using mset_eq_imp_distinct_iff by blast
qed

lemma build_ring_share:
  assumes "ring_size_ok M" "ids_ok bs" "distinct (map bk_real_id bs)"
    "build_ring bs mode M = Some (Inr ring)" "b \<in> set bs" "0 < bk_weight b"
  shows "unat M div total_weight bs * unat (bk_weight b) \<le> count_list ring (bk_real_id b)"
    and "count_list ring (bk_real_id b) \<le> (unat M div total_weight bs + 1) * unat (bk_weight b)"
proof -
  obtain srt where srt: "active_sorted bs = Inr srt"
    using assms(4) by (auto simp: build_ring_def split: sum.splits)
  obtain i where i: "i < length srt" "srt ! i = b"
    using active_index [OF srt assms(5,6)] .
  note ok = ids_okD [OF assms(2) srt] and d = active_ids_distinct [OF srt assms(3)]
  note W = total_weight_active_sorted [OF srt]
  have le: "count_list (take n xs) i \<le> count_list xs i" for n xs
    using count_list_append [of "take n xs" "drop n xs" i] by simp
  have "\<exists>n xs. count_list xs i = unat (bk_weight b) \<and>
      count_list ring (bk_real_id b) = unat M div total_weight bs * unat (bk_weight b) + count_list (take n xs) i"
  proof (cases mode)
    case Maglev
    then show ?thesis
      using assms(4) build_ring_Maglev [OF assms(1,2)] srt maglev_ref_slots [OF assms(1) ok d i(1)]
        count_round_turns [OF i(1)] by (auto simp: i(2) W)
  next
    case Modulo
    then show ?thesis
      using assms(4) build_ring_Modulo [of bs M] srt build_modulo_slots [OF ok d i(1), of M]
        count_modulo_list [of srt i] i(1) by (auto simp: i(2) W)
  qed
  then show "unat M div total_weight bs * unat (bk_weight b) \<le> count_list ring (bk_real_id b)"
    and "count_list ring (bk_real_id b) \<le> (unat M div total_weight bs + 1) * unat (bk_weight b)"
    using le by (auto simp: algebra_simps) (metis add_le_mono1 le)
qed

lemma build_ring_equal_shares:
  assumes "ring_size_ok M" "ids_ok bs" "distinct (map bk_real_id bs)"
    "build_ring bs Maglev M = Some (Inr ring)"
    "b \<in> set bs" "b' \<in> set bs" "0 < bk_weight b" "bk_weight b = bk_weight b'"
  shows "count_list ring (bk_real_id b) \<le> count_list ring (bk_real_id b') + 1"
proof -
  obtain srt where srt: "active_sorted bs = Inr srt"
    using assms(4) by (auto simp: build_ring_def split: sum.splits)
  obtain i where i: "i < length srt" "srt ! i = b"
    using active_index [OF srt assms(5,7)] .
  obtain j where j: "j < length srt" "srt ! j = b'"
    using active_index [OF srt assms(6)] assms(7,8) by metis
  note ok = ids_okD [OF assms(2) srt] and d = active_ids_distinct [OF srt assms(3)]
  show ?thesis
    using assms(4) build_ring_Maglev [OF assms(1,2)] srt
      maglev_ref_slots [OF assms(1) ok d i(1)] maglev_ref_slots [OF assms(1) ok d j(1)]
      count_prefix_equal_weights [OF i(1) j(1)] assms(8)
    by (auto simp: i(2) j(2))
qed

lemma build_ring_contents:
  assumes "ring_size_ok M" "ids_ok bs" "build_ring bs mode M = Some (Inr ring)"
  shows "length ring = unat M"
    and "\<exists>b\<in>set bs. 0 < bk_weight b \<Longrightarrow> set ring \<subseteq> bk_real_id ` {b \<in> set bs. 0 < bk_weight b}"
    and "\<forall>b\<in>set bs. bk_weight b = 0 \<Longrightarrow> ring = replicate (unat M) PB_REAL_NONE"
proof -
  obtain srt where srt: "active_sorted bs = Inr srt"
    using assms(3) by (auto simp: build_ring_def split: sum.splits)
  note ok = ids_okD [OF assms(2) srt] and act = active_sorted_Inr [OF srt]
  have ring: "ring = (if mode = Maglev then maglev_ref srt M else build_modulo srt M)"
    using assms(3) build_ring_Maglev [OF assms(1,2)] build_ring_Modulo [of bs M] srt
    by (cases mode) auto
  show "length ring = unat M"
    by (simp add: ring maglev_ref_def)
  show "set ring \<subseteq> bk_real_id ` {b \<in> set bs. 0 < bk_weight b}" if "\<exists>b\<in>set bs. 0 < bk_weight b"
  proof -
    have "srt \<noteq> []"
      using that act(5) word_gt_0 by auto
    then show ?thesis
      using set_maglev_ref [OF assms(1) ok] set_build_modulo [OF ok] by (simp add: ring act(4) [symmetric])
  qed
  show "ring = replicate (unat M) PB_REAL_NONE" if "\<forall>b\<in>set bs. bk_weight b = 0"
    using that act(5) by (simp add: ring build_modulo_def)
qed

lemma build_ring_relabel:
  assumes "ring_size_ok M" "ids_ok bs" "g PB_REAL_NONE = PB_REAL_NONE" "\<forall>b\<in>set bs. g (bk_real_id b) \<noteq> PB_REAL_NONE"
  shows "build_ring (map (relabel g) bs) mode M = map_option (map_sum id (map g)) (build_ring bs mode M)"
proof (cases mode)
  case Maglev
  have ok': "ids_ok (map (relabel g) bs)"
    using assms(4) by (auto simp: ids_ok_def)
  show ?thesis
  proof (cases "active_sorted bs")
    case (Inr srt)
    have "bk_real_id b \<noteq> PB_REAL_NONE \<and> g (bk_real_id b) \<noteq> PB_REAL_NONE" if "b \<in> set srt" for b
      using that active_sorted_Inr(4) [OF Inr] assms(2,4) by (auto simp: ids_ok_def)
    then have "maglev_ref (map (relabel g) srt) M = map g (maglev_ref srt M)"
      using maglev_ref_relabel [of M g srt] assms(1,3) by blast
    then show ?thesis
      by (simp add: Maglev build_ring_Maglev [OF assms(1,2)] build_ring_Maglev [OF assms(1) ok'] active_sorted_relabel Inr)
  qed (simp add: Maglev build_ring_Maglev [OF assms(1,2)] build_ring_Maglev [OF assms(1) ok'] active_sorted_relabel)
next
  case Modulo
  then show ?thesis
    by (cases "active_sorted bs")
      (simp_all add: build_ring_Modulo active_sorted_relabel build_modulo_relabel [of g] assms(3))
qed

section \<open>Claims\<close>

text \<open>The backends of the test \<^verbatim>\<open>SmallPrimeRingIsComplete\<close>, and its ring size.\<close>

definition three_backends :: "backend list" where
  "three_backends =
     [\<lparr>bk_real_id = 0, bk_addr = le32 10 1 0 0, bk_weight = 1\<rparr>,
      \<lparr>bk_real_id = 1, bk_addr = le32 10 1 0 1, bk_weight = 2\<rparr>,
      \<lparr>bk_real_id = 2, bk_addr = le32 10 1 0 2, bk_weight = 3\<rparr>]"

lemma ring_size_ok_13: "ring_size_ok 13"
proof -
  have "\<forall>s\<in>{1..12}. coprime s (13 :: nat)"
    by code_simp
  then show ?thesis
    by (simp add: ring_size_ok_def Ball_def)
qed

lemma three_backends_simps:
  "ids_ok three_backends" "distinct (map bk_real_id three_backends)" "total_weight three_backends = 6"
  by (simp_all add: three_backends_def ids_ok_def total_weight_def PB_REAL_NONE_def)

lemma three_backends_sorted: "active_sorted three_backends = Inr three_backends"
  by (simp add: active_sorted_def three_backends_def le32_def le16_def)

text \<open>
  C25.  The Maglev builder is correct and always returns: for a ring size whose step widths
  are coprime to it (every prime) and usable real ids, the incremental fill with one cursor
  per backend produces exactly the ring of the published algorithm, which searches the
  materialised permutation of the backend from its start on every turn; a duplicate
  address is the only error.
\<close>

theorem build_ring_refines_maglev:
  assumes "ring_size_ok M" "ids_ok bs"
  shows "build_ring bs Maglev M = Some (map_sum id (\<lambda>srt. maglev_ref srt M) (active_sorted bs))"
  using assms by (rule build_ring_Maglev)

theorem build_ring_refines_maglev_witness:
  "build_ring three_backends Maglev 13 = Some (Inr (maglev_ref three_backends 13))"
  using build_ring_refines_maglev [OF ring_size_ok_13 three_backends_simps(1)] three_backends_sorted by simp

text \<open>
  C26.  With the ring size of the program (65537 slots) a build of usable backends always
  returns.  It reports an error exactly when two backends of positive weight share an
  address; otherwise the ring has 65537 slots, holds only ids of backends with positive
  weight when there is one (so no slot is empty), and only empty slots when there is none.
\<close>

theorem build_ring_total:
  assumes "ids_ok bs"
  shows "\<exists>r. build_ring bs mode PB_RING_SIZE = Some r \<and>
    (case r of
       Inl e \<Rightarrow> \<not> distinct (map bk_addr (filter (\<lambda>b. 0 < bk_weight b) bs))
     | Inr ring \<Rightarrow>
         distinct (map bk_addr (filter (\<lambda>b. 0 < bk_weight b) bs)) \<and> length ring = 65537 \<and>
         (if \<exists>b\<in>set bs. 0 < bk_weight b
          then set ring \<subseteq> bk_real_id ` {b \<in> set bs. 0 < bk_weight b} \<and> PB_REAL_NONE \<notin> set ring
          else set ring \<subseteq> {PB_REAL_NONE}))"
proof -
  note ok = ring_size_ok_PB_RING_SIZE
  obtain r where r: "build_ring bs mode PB_RING_SIZE = Some r"
    "isl r \<longleftrightarrow> isl (active_sorted bs)"
    using build_ring_Maglev [OF ok assms] build_ring_Modulo [of bs PB_RING_SIZE]
    by (cases mode; cases "active_sorted bs") auto
  then have dup: "isl r \<longleftrightarrow> \<not> distinct (map bk_addr (filter (\<lambda>b. 0 < bk_weight b) bs))"
    by (simp add: active_sorted_cases active_def)
  show ?thesis
  proof (cases r)
    case (Inr ring)
    note c = build_ring_contents [OF ok assms r(1) [unfolded Inr]]
    have "PB_REAL_NONE \<notin> set ring" if "\<exists>b\<in>set bs. 0 < bk_weight b"
      using c(2) [OF that] assms unfolding ids_ok_def by fastforce
    moreover have "set ring \<subseteq> {PB_REAL_NONE}" if "\<not> (\<exists>b\<in>set bs. 0 < bk_weight b)"
    proof -
      have "\<forall>b\<in>set bs. bk_weight b = 0"
        using that word_gt_0 by auto
      from c(3) [OF this] show ?thesis
        by (simp only: set_replicate_conv_if) simp
    qed
    ultimately show ?thesis
      using r(1) Inr dup c(1) c(2) by simp
  qed (use r dup in simp)
qed

theorem build_ring_total_witness:
  "\<exists>ring. build_ring three_backends Modulo PB_RING_SIZE = Some (Inr ring) \<and> length ring = 65537 \<and>
          PB_REAL_NONE \<notin> set ring"
  using build_ring_total [OF three_backends_simps(1), of Modulo] three_backends_sorted build_ring_Modulo [of three_backends PB_RING_SIZE]
  by (auto simp: three_backends_def)

text \<open>
  C27.  The share of a backend in either kind of ring: with total weight \<open>W\<close> and \<open>M\<close> slots, a
  backend of weight \<open>w\<close> holds between \<open>\<lfloor>M / W\<rfloor> * w\<close> and \<open>(\<lfloor>M / W\<rfloor> + 1) * w\<close> slots (whole
  rounds, and at most one partial round).
\<close>

theorem ring_share_bounds:
  assumes "ring_size_ok M" "ids_ok bs" "distinct (map bk_real_id bs)"
    "build_ring bs mode M = Some (Inr ring)" "b \<in> set bs" "0 < bk_weight b"
  shows "unat M div total_weight bs * unat (bk_weight b) \<le> count_list ring (bk_real_id b) \<and>
         count_list ring (bk_real_id b) \<le> (unat M div total_weight bs + 1) * unat (bk_weight b)"
  using build_ring_share [OF assms] by simp

theorem ring_share_bounds_witness:
  "count_list (maglev_ref three_backends 13) 2 \<in> {6..9}"
  using ring_share_bounds [OF ring_size_ok_13 three_backends_simps(1,2), of Maglev
      "maglev_ref three_backends 13" "three_backends ! 2"]
    build_ring_Maglev [OF ring_size_ok_13 three_backends_simps(1)] three_backends_sorted
  by (simp add: three_backends_simps(3)) (simp add: three_backends_def)

text \<open>
  C30.  Backends of equal weight never differ by more than one slot in a Maglev ring.
\<close>

theorem maglev_equal_weights_fair:
  assumes "ring_size_ok M" "ids_ok bs" "distinct (map bk_real_id bs)"
    "build_ring bs Maglev M = Some (Inr ring)"
    "b \<in> set bs" "b' \<in> set bs" "0 < bk_weight b" "bk_weight b = bk_weight b'"
  shows "\<bar>int (count_list ring (bk_real_id b)) - int (count_list ring (bk_real_id b'))\<bar> \<le> 1"
proof -
  have "0 < bk_weight b'"
    using assms(7) by (simp only: assms(8))
  then have "count_list ring (bk_real_id b') \<le> count_list ring (bk_real_id b) + 1"
    by (rule build_ring_equal_shares [OF assms(1-4,6,5) _ assms(8) [symmetric]])
  then show ?thesis
    using build_ring_equal_shares [OF assms] by linarith
qed

definition four_equal :: "backend list" where
  "four_equal = map (\<lambda>i. \<lparr>bk_real_id = of_nat i, bk_addr = le32 10 1 0 (of_nat i), bk_weight = 1\<rparr>) [0, 1, 2, 3]"

lemma four_equal_simps: "ids_ok four_equal" "distinct (map bk_real_id four_equal)"
  "active_sorted four_equal = Inr four_equal"
  by (simp_all add: four_equal_def ids_ok_def PB_REAL_NONE_def active_sorted_def le32_def le16_def)

theorem maglev_equal_weights_fair_witness:
  "\<bar>int (count_list (maglev_ref four_equal 13) 3) - int (count_list (maglev_ref four_equal 13) 0)\<bar> \<le> 1"
  using maglev_equal_weights_fair [OF ring_size_ok_13 four_equal_simps(1,2),
      of "maglev_ref four_equal 13" "four_equal ! 3" "four_equal ! 0"]
    build_ring_Maglev [OF ring_size_ok_13 four_equal_simps(1)] four_equal_simps(3)
  by simp (simp add: four_equal_def)

text \<open>
  C31.  The share of a backend is within one percent of \<open>w / W\<close>, as the header of the ring
  builder says, whenever the total weight is at most a hundredth of the ring size.
\<close>

theorem ring_share_one_percent:
  assumes "ring_size_ok M" "ids_ok bs" "distinct (map bk_real_id bs)"
    "build_ring bs mode M = Some (Inr ring)" "b \<in> set bs" "0 < bk_weight b"
    "100 * total_weight bs \<le> unat M"
  shows "99 * (unat M * unat (bk_weight b)) \<le> 100 * (count_list ring (bk_real_id b) * total_weight bs) \<and>
         100 * (count_list ring (bk_real_id b) * total_weight bs) \<le> 101 * (unat M * unat (bk_weight b))"
proof -
  define k W w c m where "k = unat M div total_weight bs" and "W = total_weight bs"
    and "w = unat (bk_weight b)" and "c = count_list ring (bk_real_id b)" and "m = unat M"
  have b: "k * w \<le> c" "c \<le> (k + 1) * w"
    using build_ring_share [OF assms(1-6)] by (simp_all add: k_def w_def c_def)
  have "unat (bk_weight b) \<le> total_weight bs"
    unfolding total_weight_def using assms(5) by (intro member_le_sum_list) auto
  then have "0 < W"
    using assms(6) by (simp add: W_def word_less_nat_alt)
  then have m: "k * W \<le> m" "m < (k + 1) * W"
    using dividend_less_div_times [of W m] by (simp_all add: k_def W_def m_def)
  have W: "100 * W \<le> m"
    using assms(7) by (simp add: W_def m_def)
  define y where "y = W * w"
  have "m * w \<le> k * y + y" "k * y \<le> m * w" "100 * y \<le> m * w"
    using mult_right_mono [of m "(k + 1) * W" w] mult_right_mono [OF m(1), of w] mult_right_mono [OF W, of w] m(2)
    unfolding y_def by (simp_all only: algebra_simps) simp_all
  moreover have "k * y \<le> c * W" "c * W \<le> k * y + y"
    using mult_right_mono [OF b(1), of W] mult_right_mono [OF b(2), of W]
    unfolding y_def by (simp_all only: algebra_simps) simp_all
  ultimately have "99 * (m * w) \<le> 100 * (c * W)" "100 * (c * W) \<le> 101 * (m * w)"
    by linarith+
  then show ?thesis
    by (simp add: m_def w_def c_def W_def)
qed

theorem ring_share_one_percent_witness:
  "\<exists>ring. build_ring three_backends Maglev PB_RING_SIZE = Some (Inr ring) \<and>
          99 * (65537 * 3) \<le> 100 * (count_list ring 2 * 6) \<and> 100 * (count_list ring 2 * 6) \<le> 101 * (65537 * 3 :: nat)"
proof -
  have ring: "build_ring three_backends Maglev PB_RING_SIZE = Some (Inr (maglev_ref three_backends PB_RING_SIZE))"
    using build_ring_Maglev [OF ring_size_ok_PB_RING_SIZE three_backends_simps(1)] three_backends_sorted by simp
  have b: "\<lparr>bk_real_id = 2, bk_addr = le32 10 1 0 2, bk_weight = 3\<rparr> \<in> set three_backends"
    by (simp add: three_backends_def)
  show ?thesis
    using ring_share_one_percent [OF ring_size_ok_PB_RING_SIZE three_backends_simps(1,2) ring b] ring
    by (simp add: three_backends_simps(3))
qed

definition two_heavy :: "backend list" where
  "two_heavy = [\<lparr>bk_real_id = 1, bk_addr = le32 10 1 0 0, bk_weight = 131074\<rparr>,
                \<lparr>bk_real_id = 2, bk_addr = le32 10 1 0 1, bk_weight = 65537\<rparr>]"

lemma two_heavy_simps:
  "ids_ok two_heavy" "distinct (map bk_real_id two_heavy)" "total_weight two_heavy = 196611"
  "active_sorted two_heavy = Inr two_heavy" "length two_heavy = 2" "unat (w_max two_heavy) = 131074"
  "unat (bk_weight (two_heavy ! 0)) = 131074" "unat (bk_weight (two_heavy ! 1)) = 65537"
  "bk_real_id (two_heavy ! 0) = 1"
  by (simp_all add: two_heavy_def ids_ok_def total_weight_def PB_REAL_NONE_def active_sorted_def le32_def le16_def
      w_max_def)

lemma two_backends_turns:
  assumes "length srt = 2" "n \<le> unat (bk_weight (srt ! 0))" "n \<le> unat (bk_weight (srt ! 1))" "n \<le> unat (w_max srt)"
  shows "take n (round_turns srt) = take n (concat (replicate n [0, 1]))"
proof -
  let ?f = "\<lambda>p. filter (\<lambda>i. p < unat (bk_weight (srt ! i))) [0..<length srt]"
  have up: "[0..<unat (w_max srt)] = [0..<n] @ [n..<unat (w_max srt)]"
    using upt_add_eq_append [of 0 n "unat (w_max srt) - n"] assms(4) by simp
  have "map ?f [0..<n] = replicate n [0, 1]"
    using assms by (intro nth_equalityI) (auto simp: numeral_2_eq_2)
  then have "round_turns srt = concat (replicate n [0, 1]) @ concat (map ?f [n..<unat (w_max srt)])"
    by (simp only: round_turns_def up map_append concat_append)
  then show ?thesis
    by (simp add: length_concat_replicate)
qed

lemma count_alternating: "count_list (take n (concat (replicate n [0, 1]))) (0 :: nat) = n div 2 + n mod 2"
proof -
  have "take n (concat (replicate n [0, 1])) = concat (replicate (n div 2) [0, 1]) @ take (n mod 2) [0, 1 :: nat]"
    using take_concat_replicate [of "[0, 1 :: nat]" n n] by (simp add: numeral_2_eq_2)
  moreover have "count_list (take (n mod 2) [0, 1]) (0 :: nat) = n mod 2"
    using mod_less_divisor [of 2 n] by (cases "n mod 2") (auto simp: take_Cons')
  ultimately show ?thesis
    by (simp add: count_list_concat sum_list_replicate)
qed

text \<open>
  C32.  Without that restriction on the weights the one-percent promise of the header fails:
  of two backends with weights 131074 and 65537 the first holds 32769 of the 65537 slots,
  one half, although two thirds of the weight are its own.
\<close>

theorem maglev_share_off_by_a_third:
  "\<exists>ring. build_ring two_heavy Maglev PB_RING_SIZE = Some (Inr ring) \<and> count_list ring 1 = 32769"
proof -
  let ?ring = "maglev_ref two_heavy PB_RING_SIZE"
  note ok = ring_size_ok_PB_RING_SIZE two_heavy_simps(1)
  have "build_ring two_heavy Maglev PB_RING_SIZE = Some (Inr ?ring)"
    using build_ring_Maglev [OF ok] two_heavy_simps(4) by simp
  moreover have "count_list ?ring (bk_real_id (two_heavy ! 0)) =
      count_list (take 65537 (round_turns two_heavy)) 0"
    using maglev_ref_slots [OF ok(1) ids_okD [OF ok(2) two_heavy_simps(4)] two_heavy_simps(2), of 0]
    by (simp add: two_heavy_simps(3,5))
  moreover have "count_list (take 65537 (round_turns two_heavy)) 0 = 65537 div 2 + 65537 mod 2"
  proof -
    have "take 65537 (round_turns two_heavy) = take 65537 (concat (replicate 65537 [0, 1]))"
      by (rule two_backends_turns) (use two_heavy_simps(5-8) in simp_all)
    then show ?thesis
      by (simp only: count_alternating)
  qed
  ultimately show ?thesis
    by (simp add: two_heavy_simps(9))
qed

text \<open>
  C28.  A ring is a function of the set of backends: listing them in another order gives the
  same ring, and the same error, in both modes and for every ring size.
\<close>

theorem build_ring_order_independent:
  assumes "mset bs = mset bs'"
  shows "build_ring bs mode M = build_ring bs' mode M"
  using active_sorted_mset [OF assms] by (simp add: build_ring_def)

theorem build_ring_order_independent_witness:
  "build_ring (rev three_backends) Maglev 13 = build_ring three_backends Maglev 13"
  by (rule build_ring_order_independent) simp

text \<open>
  C29.  The numbering of the reals does not influence the ring: renaming every real id with
  \<open>g\<close> renames the slots and changes nothing else, so two load balancers that gave their
  reals different ids map every flow hash to the same address.
\<close>

theorem build_ring_id_independent:
  assumes "ring_size_ok M" "ids_ok bs" "g PB_REAL_NONE = PB_REAL_NONE" "\<forall>b\<in>set bs. g (bk_real_id b) \<noteq> PB_REAL_NONE"
  shows "build_ring (map (relabel g) bs) mode M = map_option (map_sum id (map g)) (build_ring bs mode M)"
  using assms by (rule build_ring_relabel)

theorem build_ring_id_independent_witness:
  "build_ring (map (relabel (\<lambda>x. if x < 3 then x + 7 else x)) three_backends) Maglev 13 =
   Some (Inr (map (\<lambda>x. if x < 3 then x + 7 else x) (maglev_ref three_backends 13)))"
  using build_ring_id_independent [OF ring_size_ok_13 three_backends_simps(1), of "\<lambda>x. if x < 3 then x + 7 else x" Maglev]
    build_ring_Maglev [OF ring_size_ok_13 three_backends_simps(1)] three_backends_sorted
  by (simp add: PB_REAL_NONE_def) (simp add: three_backends_def)

end
