(* ===== verification/Bpf_Maps.thy ===== *)
theory Bpf_Maps
  imports PB_Abi
begin

text \<open>
  The maps of \<^verbatim>\<open>bpf/packetbalance.bpf.c\<close> as one record, with the lookups the kernel gives
  the program (an array lookup fails out of range, a hash lookup on an absent key), and the
  kernel helpers the program calls as a record of parameters.

  The kernel is not part of the repository.  What the program relies on is stated as named
  predicates: \<open>ktime_ok\<close> (the clock is not 0 after boot), \<open>adjust_head_ok\<close> (the helper
  fails or prepends 20 bytes of unspecified contents) and \<open>ct_update_ok\<close> (an update of the
  LRU per-CPU hash may fail and may evict any key; when it stores the key, the writing
  CPU's value is the new one and the values of the other CPUs are kept, or zero for a key
  that was absent).
\<close>

section \<open>The maps\<close>

type_synonym cpu_id = nat

type_synonym ct_table = "pb_ct_key \<Rightarrow> (cpu_id \<Rightarrow> pb_ct_value) option"

record maps =
  vip_map :: "pb_vip_key \<Rightarrow> pb_vip_value option"
  rings :: "u32 \<Rightarrow> u32 list option"
  reals :: "u32 \<Rightarrow> pb_real"
  neigh :: "u32 \<Rightarrow> pb_mac"
  conntrack :: ct_table
  stats :: "cpu_id \<Rightarrow> u32 \<Rightarrow> pb_stats"
  real_stats :: "cpu_id \<Rightarrow> u32 \<Rightarrow> pb_real_stats"
  config :: pb_config

definition vip_map_lookup :: "maps \<Rightarrow> pb_vip_key \<Rightarrow> pb_vip_value option" where
  "vip_map_lookup m key = vip_map m key"

definition rings_lookup :: "maps \<Rightarrow> u32 \<Rightarrow> u32 list option" where
  "rings_lookup m i = (if i < PB_MAX_VIPS then rings m i else None)"

definition ring_slot_lookup :: "u32 list \<Rightarrow> u32 \<Rightarrow> u32 option" where
  "ring_slot_lookup ring slot = (if unat slot < length ring then Some (ring ! unat slot) else None)"

definition reals_lookup :: "maps \<Rightarrow> u32 \<Rightarrow> pb_real option" where
  "reals_lookup m i = (if i < PB_MAX_REALS then Some (reals m i) else None)"

definition neigh_lookup :: "maps \<Rightarrow> u32 \<Rightarrow> pb_mac option" where
  "neigh_lookup m i = (if i < PB_MAX_REALS then Some (neigh m i) else None)"

definition conntrack_lookup :: "maps \<Rightarrow> cpu_id \<Rightarrow> pb_ct_key \<Rightarrow> pb_ct_value option" where
  "conntrack_lookup m cpu key = map_option (\<lambda>vals. vals cpu) (conntrack m key)"

definition config_lookup :: "maps \<Rightarrow> u32 \<Rightarrow> pb_config option" where
  "config_lookup m i = (if i < 1 then Some (config m) else None)"

text \<open>A store through the pointer a conntrack lookup returned.\<close>

definition conntrack_store :: "cpu_id \<Rightarrow> pb_ct_key \<Rightarrow> pb_ct_value \<Rightarrow> maps \<Rightarrow> maps" where
  "conntrack_store cpu key v m =
     m\<lparr>conntrack := (conntrack m)(key := map_option (\<lambda>vals. vals(cpu := v)) (conntrack m key))\<rparr>"

section \<open>The kernel\<close>

record kernel =
  cpu :: cpu_id
  ktime :: u64
  adjust_head :: "u8 list \<Rightarrow> u8 list option"
  ct_update :: "cpu_id \<Rightarrow> pb_ct_key \<Rightarrow> pb_ct_value \<Rightarrow> ct_table \<Rightarrow> ct_table"

definition ktime_ok :: "kernel \<Rightarrow> bool" where
  "ktime_ok k \<longleftrightarrow> ktime k \<noteq> 0"

definition adjust_head_ok :: "kernel \<Rightarrow> bool" where
  "adjust_head_ok k \<longleftrightarrow>
     (\<forall>frame frame'. adjust_head k frame = Some frame' \<longrightarrow>
        (\<exists>room. length room = 20 \<and> frame' = room @ frame))"

definition ct_inserted :: "cpu_id \<Rightarrow> pb_ct_key \<Rightarrow> pb_ct_value \<Rightarrow> ct_table \<Rightarrow> cpu_id \<Rightarrow> pb_ct_value" where
  "ct_inserted c key v t =
     (case t key of None \<Rightarrow> (\<lambda>_. zero_ct_value)(c := v) | Some vals \<Rightarrow> vals(c := v))"

definition ct_update_ok :: "kernel \<Rightarrow> bool" where
  "ct_update_ok k \<longleftrightarrow>
     (\<forall>c key v t.
        ct_update k c key v t key \<in> {Some (ct_inserted c key v t), t key, None} \<and>
        (\<forall>key'. key' \<noteq> key \<longrightarrow> ct_update k c key v t key' \<in> {t key', None}))"

definition kernel_ok :: "kernel \<Rightarrow> bool" where
  "kernel_ok k \<longleftrightarrow> ktime_ok k \<and> adjust_head_ok k \<and> ct_update_ok k"

text \<open>
  A kernel with headroom in which no update fails and nothing is evicted: the laws can be
  met, and concrete runs are evaluated on it.
\<close>

definition plain_kernel :: "cpu_id \<Rightarrow> u64 \<Rightarrow> kernel" where
  "plain_kernel c t =
     \<lparr>cpu = c, ktime = t,
      adjust_head = (\<lambda>frame. Some (replicate 20 0 @ frame)),
      ct_update = (\<lambda>c key v t. t(key \<mapsto> ct_inserted c key v t))\<rparr>"

lemma plain_kernel_ok: "t \<noteq> 0 \<Longrightarrow> kernel_ok (plain_kernel c t)"
  by (auto simp: kernel_ok_def plain_kernel_def ktime_ok_def adjust_head_ok_def ct_update_ok_def)

lemma adjust_headE:
  assumes "kernel_ok k" "adjust_head k frame = Some frame'"
  obtains room where "length room = 20" "frame' = room @ frame"
  using assms by (auto simp: kernel_ok_def adjust_head_ok_def)

lemma ct_update_other:
  assumes "kernel_ok k" "key' \<noteq> key"
  shows "ct_update k c key v t key' = t key' \<or> ct_update k c key v t key' = None"
  using assms by (auto simp: kernel_ok_def ct_update_ok_def)

lemma ct_update_same:
  assumes "kernel_ok k"
  shows "ct_update k c key v t key = Some (ct_inserted c key v t) \<or>
         ct_update k c key v t key = t key \<or> ct_update k c key v t key = None"
  using assms by (auto simp: kernel_ok_def ct_update_ok_def)

lemma lookup_simps [simp]:
  "i < PB_MAX_REALS \<Longrightarrow> reals_lookup m i = Some (reals m i)"
  "i < PB_MAX_REALS \<Longrightarrow> neigh_lookup m i = Some (neigh m i)"
  "i < PB_MAX_VIPS \<Longrightarrow> rings_lookup m i = rings m i"
  "config_lookup m 0 = Some (config m)"
  by (simp_all add: reals_lookup_def neigh_lookup_def rings_lookup_def config_lookup_def)

lemma lookup_update_simps [simp]:
  "reals_lookup (m\<lparr>stats := s\<rparr>) i = reals_lookup m i" "reals_lookup (m\<lparr>conntrack := t\<rparr>) i = reals_lookup m i"
  "neigh_lookup (m\<lparr>stats := s\<rparr>) i = neigh_lookup m i" "neigh_lookup (m\<lparr>conntrack := t\<rparr>) i = neigh_lookup m i"
  "rings_lookup (m\<lparr>stats := s\<rparr>) i = rings_lookup m i" "rings_lookup (m\<lparr>conntrack := t\<rparr>) i = rings_lookup m i"
  "conntrack_lookup (m\<lparr>stats := s\<rparr>) c key = conntrack_lookup m c key"
  by (simp_all add: reals_lookup_def neigh_lookup_def rings_lookup_def conntrack_lookup_def)

end
