(* ===== verification/Dataplane.thy ===== *)
theory Dataplane
  imports Bpf_Maps PB_Hash
begin

text \<open>
  \<^verbatim>\<open>bpf/packetbalance.bpf.c\<close>: the XDP program, function by function.

  A frame is the list of bytes from \<^verbatim>\<open>ctx->data\<close> to \<^verbatim>\<open>ctx->data_end\<close>; a pointer into it is
  an offset, a bounds check compares an offset with the length, and a load or store of a
  multi-byte field is little-endian, as on the hosts the program runs on.  A function that
  writes maps or the frame returns them.  A \<^verbatim>\<open>struct pb_stats *\<close> is the index of the slot
  it points to, \<open>None\<close> for the null pointer.
\<close>

section \<open>Frames\<close>

definition ld8 :: "u8 list \<Rightarrow> nat \<Rightarrow> u8" where
  "ld8 frame i = frame ! i"

definition ld16 :: "u8 list \<Rightarrow> nat \<Rightarrow> u16" where
  "ld16 frame i = le16 (frame ! i) (frame ! (i + 1))"

definition ld32 :: "u8 list \<Rightarrow> nat \<Rightarrow> u32" where
  "ld32 frame i = le32 (frame ! i) (frame ! (i + 1)) (frame ! (i + 2)) (frame ! (i + 3))"

fun store_bytes :: "nat \<Rightarrow> u8 list \<Rightarrow> u8 list \<Rightarrow> u8 list" where
  "store_bytes i [] frame = frame"
| "store_bytes i (b # bs) frame = store_bytes (i + 1) bs (frame[i := b])"

definition bytes16 :: "u16 \<Rightarrow> u8 list" where
  "bytes16 w = [byte16 0 w, byte16 1 w]"

definition bytes32 :: "u32 \<Rightarrow> u8 list" where
  "bytes32 w = [byte32 0 w, byte32 1 w, byte32 2 w, byte32 3 w]"

text \<open>Sizes of \<^verbatim>\<open>struct ethhdr\<close>, \<^verbatim>\<open>iphdr\<close>, \<^verbatim>\<open>tcphdr\<close>, \<^verbatim>\<open>udphdr\<close> and \<^verbatim>\<open>icmphdr\<close>.\<close>

abbreviation (input) "ETH_LEN \<equiv> 14 :: nat"
abbreviation (input) "IP_LEN \<equiv> 20 :: nat"
abbreviation (input) "TCP_LEN \<equiv> 20 :: nat"
abbreviation (input) "UDP_LEN \<equiv> 8 :: nat"
abbreviation (input) "ICMP_LEN \<equiv> 8 :: nat"

text \<open>Fields of an IPv4 header at offset \<open>i\<close>.\<close>

definition ip_version :: "u8 list \<Rightarrow> nat \<Rightarrow> u8" where "ip_version frame i = drop_bit 4 (ld8 frame i)"
definition ip_ihl :: "u8 list \<Rightarrow> nat \<Rightarrow> u8" where "ip_ihl frame i = ld8 frame i AND 0xF"
definition ip_tos :: "u8 list \<Rightarrow> nat \<Rightarrow> u8" where "ip_tos frame i = ld8 frame (i + 1)"
definition ip_tot_len :: "u8 list \<Rightarrow> nat \<Rightarrow> u16" where "ip_tot_len frame i = ld16 frame (i + 2)"
definition ip_frag_off :: "u8 list \<Rightarrow> nat \<Rightarrow> u16" where "ip_frag_off frame i = ld16 frame (i + 6)"
definition ip_protocol :: "u8 list \<Rightarrow> nat \<Rightarrow> u8" where "ip_protocol frame i = ld8 frame (i + 9)"
definition ip_saddr :: "u8 list \<Rightarrow> nat \<Rightarrow> u32" where "ip_saddr frame i = ld32 frame (i + 12)"
definition ip_daddr :: "u8 list \<Rightarrow> nat \<Rightarrow> u32" where "ip_daddr frame i = ld32 frame (i + 16)"

text \<open>Flags of a TCP header at offset \<open>i\<close>.\<close>

definition tcp_syn :: "u8 list \<Rightarrow> nat \<Rightarrow> bool" where "tcp_syn frame i = bit (ld8 frame (i + 13)) 1"
definition tcp_rst :: "u8 list \<Rightarrow> nat \<Rightarrow> bool" where "tcp_rst frame i = bit (ld8 frame (i + 13)) 2"
definition tcp_ack :: "u8 list \<Rightarrow> nat \<Rightarrow> bool" where "tcp_ack frame i = bit (ld8 frame (i + 13)) 4"

abbreviation (input) "IPPROTO_ICMP \<equiv> 1 :: u8"
abbreviation (input) "IPPROTO_IPIP \<equiv> 4 :: u8"
abbreviation (input) "IPPROTO_TCP \<equiv> 6 :: u8"
abbreviation (input) "IPPROTO_UDP \<equiv> 17 :: u8"
abbreviation (input) "ETH_P_IP \<equiv> 0x0800 :: u16"
abbreviation (input) "ICMP_DEST_UNREACH \<equiv> 3 :: u8"
abbreviation (input) "ICMP_FRAG_NEEDED \<equiv> 4 :: u8"

definition PB_OUTER_LEN :: u32 where "PB_OUTER_LEN = 20"
definition PB_IP_MF :: u16 where "PB_IP_MF = 0x2000"
definition PB_IP_OFFSET :: u16 where "PB_IP_OFFSET = 0x1FFF"
definition PB_OUTER_TTL :: u8 where "PB_OUTER_TTL = 64"

datatype xdp_action = XDP_DROP | XDP_PASS | XDP_TX

record pb_flow =
  f_saddr :: u32
  f_daddr :: u32
  f_sport :: u16
  f_dport :: u16
  f_proto :: u8

section \<open>Counters\<close>

definition stats_slot :: "u32 \<Rightarrow> u32 option" where
  "stats_slot idx = (if idx < PB_MAX_VIPS + 1 then Some idx else None)"

definition add_stat :: "kernel \<Rightarrow> u32 option \<Rightarrow> pb_counter \<Rightarrow> u64 \<Rightarrow> maps \<Rightarrow> maps" where
  "add_stat k st cnt n m =
     (case st of
        None \<Rightarrow> m
      | Some idx \<Rightarrow> m\<lparr>stats := (\<lambda>c i x.
          if c = cpu k \<and> i = idx \<and> x = cnt then stats m c i x + n else stats m c i x)\<rparr>)"

definition count_global :: "kernel \<Rightarrow> pb_counter \<Rightarrow> maps \<Rightarrow> maps" where
  "count_global k cnt m = add_stat k (stats_slot PB_STATS_GLOBAL) cnt 1 m"

definition drop_global :: "kernel \<Rightarrow> pb_counter \<Rightarrow> maps \<Rightarrow> xdp_action \<times> maps" where
  "drop_global k cnt m = (XDP_DROP, count_global k cnt m)"

definition pass_global :: "kernel \<Rightarrow> maps \<Rightarrow> xdp_action \<times> maps" where
  "pass_global k m = (XDP_PASS, count_global k PB_CNT_PASS m)"

definition drop_vip :: "kernel \<Rightarrow> u32 option \<Rightarrow> pb_counter \<Rightarrow> maps \<Rightarrow> xdp_action \<times> maps" where
  "drop_vip k st cnt m = (XDP_DROP, add_stat k st cnt 1 m)"

section \<open>Real selection\<close>

definition ring_lookup :: "maps \<Rightarrow> u32 \<Rightarrow> u32 \<Rightarrow> u32" where
  "ring_lookup m vid hash =
     (case rings_lookup m vid of
        None \<Rightarrow> PB_REAL_NONE
      | Some ring \<Rightarrow>
          (let slot = hash mod PB_RING_SIZE
           in case ring_slot_lookup ring slot of
                None \<Rightarrow> PB_REAL_NONE
              | Some rid \<Rightarrow> rid))"

definition real_alive :: "maps \<Rightarrow> u32 \<Rightarrow> bool" where
  "real_alive m real_id =
     (if real_id \<ge> PB_MAX_REALS then False
      else (case reals_lookup m real_id of None \<Rightarrow> False | Some r \<Rightarrow> real_addr r \<noteq> 0))"

definition flow_key :: "pb_flow \<Rightarrow> pb_ct_key" where
  "flow_key f = \<lparr>ck_saddr = f_saddr f, ck_daddr = f_daddr f, ck_sport = f_sport f, ck_dport = f_dport f,
                 ck_proto = f_proto f, ck_pad = (0, 0, 0)\<rparr>"

text \<open>The tail of \<^verbatim>\<open>pick_real\<close>: choose by hash, insert if allowed.\<close>

definition pick_by_hash :: "kernel \<Rightarrow> pb_ct_key \<Rightarrow> u32 \<Rightarrow> u32 \<Rightarrow> bool \<Rightarrow> u32 option \<Rightarrow> maps \<Rightarrow> u32 \<times> maps" where
  "pick_by_hash k key vid hash may_insert st m =
     (let m = add_stat k st PB_CNT_HASH 1 m;
          real_id = ring_lookup m vid hash
      in if real_id = PB_REAL_NONE \<or> \<not> may_insert then (real_id, m)
         else (let val = \<lparr>ct_real_id = real_id, ct_vip_id = vid, last_seen_ns = ktime k\<rparr>
               in (real_id, m\<lparr>conntrack := ct_update k (cpu k) key val (conntrack m)\<rparr>)))"

definition pick_real ::
  "kernel \<Rightarrow> pb_flow \<Rightarrow> u32 \<Rightarrow> u32 \<Rightarrow> bool \<Rightarrow> bool \<Rightarrow> bool \<Rightarrow> u32 option \<Rightarrow> maps \<Rightarrow> u32 \<times> maps" where
  "pick_real k f vid hash use_ct bare_syn may_insert st m =
     (if \<not> use_ct then
        (let m = add_stat k st PB_CNT_HASH 1 m in (ring_lookup m vid hash, m))
      else
        (let key = flow_key f
         in if \<not> bare_syn then
              (case conntrack_lookup m (cpu k) key of
                 Some ct \<Rightarrow>
                   (if last_seen_ns ct \<noteq> 0 \<and> real_alive m (ct_real_id ct) then
                      (let m = conntrack_store (cpu k) key (ct\<lparr>last_seen_ns := ktime k\<rparr>) m;
                           m = add_stat k st PB_CNT_CT_HIT 1 m
                       in (ct_real_id ct, m))
                    else pick_by_hash k key vid hash may_insert st (add_stat k st PB_CNT_CT_MISS 1 m))
               | None \<Rightarrow> pick_by_hash k key vid hash may_insert st (add_stat k st PB_CNT_CT_MISS 1 m))
            else pick_by_hash k key vid hash may_insert st m))"

section \<open>Encapsulation\<close>

fun csum_loop :: "nat \<Rightarrow> u8 list \<Rightarrow> nat \<Rightarrow> u32 \<Rightarrow> u32" where
  "csum_loop 0 frame i acc = acc"
| "csum_loop (Suc n) frame i acc = csum_loop n frame (i + 2) (acc + ucast (ld16 frame i))"

definition csum_fold :: "u32 \<Rightarrow> u32" where
  "csum_fold acc = (acc AND 0xffff) + drop_bit 16 acc"

definition ipv4_csum :: "u8 list \<Rightarrow> nat \<Rightarrow> u16" where
  "ipv4_csum frame i = ucast (NOT (csum_fold (csum_fold (csum_loop 10 frame i 0))))"

definition encap_ipip ::
  "kernel \<Rightarrow> u8 list \<Rightarrow> u32 \<Rightarrow> pb_mac \<Rightarrow> pb_config \<Rightarrow> u32 \<Rightarrow> u32 \<Rightarrow> u8 \<Rightarrow> u8 list option" where
  "encap_ipip k frame raddr dmac cfg hash inner_len tos =
     (case adjust_head k frame of
        None \<Rightarrow> None
      | Some frame \<Rightarrow>
        (if ETH_LEN + IP_LEN > length frame then None
         else
           (let outer = ETH_LEN;
                frame = store_bytes 0 (mac_bytes (mac dmac)) frame;
                frame = store_bytes 6 (mac_bytes (lb_mac cfg)) frame;
                frame = store_bytes 12 (bytes16 (bswap16 ETH_P_IP)) frame;
                src = (encap_src_prefix cfg AND encap_src_mask cfg) OR (hash AND NOT (encap_src_mask cfg));
                frame = store_bytes outer [0x45] frame;
                frame = store_bytes (outer + 1) [tos] frame;
                frame = store_bytes (outer + 2) (bytes16 (bswap16 (ucast (inner_len + PB_OUTER_LEN)))) frame;
                frame = store_bytes (outer + 4) (bytes16 0) frame;
                frame = store_bytes (outer + 6) (bytes16 0) frame;
                frame = store_bytes (outer + 8) [PB_OUTER_TTL] frame;
                frame = store_bytes (outer + 9) [IPPROTO_IPIP] frame;
                frame = store_bytes (outer + 10) (bytes16 0) frame;
                frame = store_bytes (outer + 12) (bytes32 src) frame;
                frame = store_bytes (outer + 16) (bytes32 raddr) frame;
                frame = store_bytes (outer + 10) (bytes16 (ipv4_csum frame outer)) frame
            in Some frame)))"

section \<open>The program\<close>

definition add_real_stats :: "kernel \<Rightarrow> u32 \<Rightarrow> u32 \<Rightarrow> maps \<Rightarrow> maps" where
  "add_real_stats k real_id inner_len m =
     (if real_id < PB_MAX_REALS then
        m\<lparr>real_stats := (\<lambda>c i. if c = cpu k \<and> i = real_id
            then (real_stats m c i)\<lparr>rs_packets := rs_packets (real_stats m c i) + 1,
                                    rs_bytes := rs_bytes (real_stats m c i) + ucast inner_len\<rparr>
            else real_stats m c i)\<rparr>
      else m)"

definition forward ::
  "kernel \<Rightarrow> u8 list \<Rightarrow> pb_flow \<Rightarrow> pb_vip_value \<Rightarrow> pb_config \<Rightarrow> bool \<Rightarrow> bool \<Rightarrow> bool \<Rightarrow> u32 \<Rightarrow> u8 \<Rightarrow> maps \<Rightarrow>
   (xdp_action \<times> maps) \<times> u8 list" where
  "forward k frame f vip cfg bare_syn may_insert is_icmp inner_len tos m =
     (let st = stats_slot (vip_id vip);
          use_ct = (cfg_flags cfg AND PB_CFG_F_NO_CONNTRACK = 0 \<and> vip_flags vip AND PB_VIP_F_NO_CONNTRACK = 0);
          hash = pb_flow_hash (f_saddr f) (f_daddr f) (f_sport f) (f_dport f) (f_proto f);
          m = add_stat k st PB_CNT_PACKETS 1 m;
          m = add_stat k st PB_CNT_BYTES (ucast inner_len) m;
          m = (if bare_syn then add_stat k st PB_CNT_SYN 1 m else m)
      in if inner_len + PB_OUTER_LEN > PB_MAX_PACKET_LEN then (drop_vip k st PB_CNT_DROP_MTU m, frame)
      else
        (let (real_id, m) = pick_real k f (vip_id vip) hash use_ct bare_syn may_insert st m
         in if real_id \<ge> PB_MAX_REALS then (drop_vip k st PB_CNT_DROP_NO_REAL m, frame)
         else (case reals_lookup m real_id of
             None \<Rightarrow> (drop_vip k st PB_CNT_DROP_NO_REAL m, frame)
           | Some rl \<Rightarrow>
             (if real_addr rl = 0 then (drop_vip k st PB_CNT_DROP_NO_REAL m, frame)
              else (case neigh_lookup m real_id of
                  None \<Rightarrow> (drop_vip k st PB_CNT_DROP_NO_REAL m, frame)
                | Some dmac \<Rightarrow>
                  (if fold (OR) (mac_bytes (mac dmac)) 0 = 0
                   then (drop_vip k st PB_CNT_DROP_NO_REAL m, frame)
                   else (case encap_ipip k frame (real_addr rl) dmac cfg hash inner_len tos of
                       None \<Rightarrow> (drop_vip k st PB_CNT_DROP_ADJ_HEAD m, frame)
                     | Some frame' \<Rightarrow>
                       (let m = add_stat k st PB_CNT_TX 1 m;
                            m = (if is_icmp then add_stat k st PB_CNT_ICMP_PMTU_FWD 1 m else m);
                            m = add_real_stats k real_id inner_len m
                        in ((XDP_TX, m), frame')))))))))"

definition handle_icmp ::
  "kernel \<Rightarrow> u8 list \<Rightarrow> nat \<Rightarrow> pb_config \<Rightarrow> maps \<Rightarrow> (xdp_action \<times> maps) \<times> u8 list" where
  "handle_icmp k frame iph cfg m =
     (let icmp = iph + IP_LEN
      in if icmp + ICMP_LEN > length frame then (drop_global k PB_CNT_DROP_SHORT m, frame)
      else if cfg_flags cfg AND PB_CFG_F_ICMP_PMTU = 0 \<or> ld8 frame icmp \<noteq> ICMP_DEST_UNREACH \<or>
              ld8 frame (icmp + 1) \<noteq> ICMP_FRAG_NEEDED then (pass_global k m, frame)
      else
        (let inner = icmp + ICMP_LEN
         in if inner + IP_LEN > length frame then (drop_global k PB_CNT_DROP_SHORT m, frame)
         else if ip_ihl frame inner \<noteq> 5 \<or>
                 (ip_protocol frame inner \<noteq> IPPROTO_TCP \<and> ip_protocol frame inner \<noteq> IPPROTO_UDP)
              then (pass_global k m, frame)
         else
           (let ports = inner + IP_LEN
            in if ports + 4 > length frame then (drop_global k PB_CNT_DROP_SHORT m, frame)
            else (case vip_map_lookup m \<lparr>vk_addr = ip_saddr frame inner, vk_port = ld16 frame ports,
                                           vk_proto = ip_protocol frame inner, vk_pad = 0\<rparr> of
                None \<Rightarrow> (pass_global k m, frame)
              | Some vip \<Rightarrow>
                (let f = \<lparr>f_saddr = ip_daddr frame inner, f_daddr = ip_saddr frame inner,
                          f_sport = ld16 frame (ports + 2), f_dport = ld16 frame ports,
                          f_proto = ip_protocol frame inner\<rparr>;
                     len = ucast (bswap16 (ip_tot_len frame iph))
                 in forward k frame f vip cfg False False True len (ip_tos frame iph) m)))))"

text \<open>The common end of the TCP and UDP paths: look the VIP up and forward.\<close>

definition vip_forward ::
  "kernel \<Rightarrow> u8 list \<Rightarrow> pb_flow \<Rightarrow> pb_config \<Rightarrow> bool \<Rightarrow> bool \<Rightarrow> u32 \<Rightarrow> u8 \<Rightarrow> maps \<Rightarrow>
   (xdp_action \<times> maps) \<times> u8 list" where
  "vip_forward k frame f cfg bare_syn may_insert tot_len tos m =
     (case vip_map_lookup m \<lparr>vk_addr = f_daddr f, vk_port = f_dport f, vk_proto = f_proto f, vk_pad = 0\<rparr> of
        None \<Rightarrow> (pass_global k m, frame)
      | Some vip \<Rightarrow> forward k frame f vip cfg bare_syn may_insert False tot_len tos m)"

definition xdp_packetbalance :: "kernel \<Rightarrow> u8 list \<Rightarrow> maps \<Rightarrow> (xdp_action \<times> maps) \<times> u8 list" where
  "xdp_packetbalance k frame m =
     (if ETH_LEN > length frame then (drop_global k PB_CNT_DROP_SHORT m, frame)
      else if ld16 frame 12 \<noteq> bswap16 ETH_P_IP then (pass_global k m, frame)
      else
        (let iph = ETH_LEN
         in if iph + IP_LEN > length frame then (drop_global k PB_CNT_DROP_SHORT m, frame)
         else if ip_version frame iph \<noteq> 4 then (drop_global k PB_CNT_DROP_OTHER m, frame)
         else if ip_ihl frame iph \<noteq> 5 then (drop_global k PB_CNT_DROP_OPTS m, frame)
         else if ip_frag_off frame iph AND bswap16 (PB_IP_MF OR PB_IP_OFFSET) \<noteq> 0
              then (drop_global k PB_CNT_DROP_FRAG m, frame)
         else
           (let tot_len = ucast (bswap16 (ip_tot_len frame iph)) :: u32
            in if tot_len > 0xffff then (drop_global k PB_CNT_DROP_OTHER m, frame)
            else if unat tot_len < IP_LEN \<or> iph + unat tot_len > length frame
                 then (drop_global k PB_CNT_DROP_SHORT m, frame)
            else (case config_lookup m 0 of
                None \<Rightarrow> (drop_global k PB_CNT_DROP_OTHER m, frame)
              | Some cfg \<Rightarrow>
                (let f = \<lparr>f_saddr = ip_saddr frame iph, f_daddr = ip_daddr frame iph, f_sport = 0, f_dport = 0,
                          f_proto = ip_protocol frame iph\<rparr>;
                     l4 = iph + IP_LEN
                 in if ip_protocol frame iph = IPPROTO_TCP then
                      (if l4 + TCP_LEN > length frame then (drop_global k PB_CNT_DROP_SHORT m, frame)
                       else vip_forward k frame
                              (f\<lparr>f_sport := ld16 frame l4, f_dport := ld16 frame (l4 + 2)\<rparr>) cfg
                              (tcp_syn frame l4 \<and> \<not> tcp_ack frame l4) (\<not> tcp_rst frame l4)
                              tot_len (ip_tos frame iph) m)
                    else if ip_protocol frame iph = IPPROTO_UDP then
                      (if l4 + UDP_LEN > length frame then (drop_global k PB_CNT_DROP_SHORT m, frame)
                       else vip_forward k frame
                              (f\<lparr>f_sport := ld16 frame l4, f_dport := ld16 frame (l4 + 2)\<rparr>) cfg
                              False True tot_len (ip_tos frame iph) m)
                    else if ip_protocol frame iph = IPPROTO_ICMP then handle_icmp k frame iph cfg m
                    else (pass_global k m, frame))))))"

end
