(* ===== verification/Dataplane_Frames.thy ===== *)
theory Dataplane_Frames
  imports Dataplane
begin

text \<open>
  The bytes the program sends: what \<^verbatim>\<open>encap_ipip\<close> leaves in the frame, and the checksum of
  the outer header, verified against the rule of RFC 791 (the ones' complement sum of the
  big-endian 16-bit words of a correct header is all ones, that is, a positive multiple of
  65535).
\<close>

section \<open>Specification\<close>

fun be_words :: "u8 list \<Rightarrow> nat list" where
  "be_words (a # b # bs) = (256 * unat a + unat b) # be_words bs"
| "be_words _ = []"

definition header_checksum_ok :: "u8 list \<Rightarrow> bool" where
  "header_checksum_ok hdr \<longleftrightarrow> sum_list (be_words hdr) mod 65535 = 0 \<and> 0 < sum_list (be_words hdr)"

text \<open>The outer header of the tunnel: source, destination, length, type of service, checksum.\<close>

definition outer_header :: "u32 \<Rightarrow> u32 \<Rightarrow> u16 \<Rightarrow> u8 \<Rightarrow> u16 \<Rightarrow> u8 list" where
  "outer_header src dst len tos check =
     [0x45, tos] @ [byte16 1 len, byte16 0 len] @ [0, 0] @ [0, 0] @ [64, 4] @
     bytes16 check @ bytes32 src @ bytes32 dst"

definition outer_source :: "pb_config \<Rightarrow> u32 \<Rightarrow> u32" where
  "outer_source cfg hash =
     (encap_src_prefix cfg AND encap_src_mask cfg) OR (hash AND NOT (encap_src_mask cfg))"

definition tunnel_frame :: "mac_addr \<Rightarrow> mac_addr \<Rightarrow> u8 list \<Rightarrow> u8 list \<Rightarrow> u8 list" where
  "tunnel_frame dst src hdr packet = mac_bytes dst @ mac_bytes src @ [0x08, 0x00] @ hdr @ packet"

section \<open>Checksum arithmetic\<close>

lemma unat_csum_fold:
  "unat (csum_fold x) = (unat x mod 65536 + unat x div 65536) mod 2 ^ 32"
proof -
  have "x AND 0xffff = take_bit 16 x"
    by (simp add: take_bit_eq_mask mask_eq_exp_minus_1)
  then have "unat (x AND 0xffff) = unat x mod 65536"
    by (simp add: take_bit_eq_mod unat_mod)
  moreover have "unat (drop_bit 16 x) = unat x div 65536"
    by (simp add: drop_bit_eq_div unat_div)
  ultimately show ?thesis
    by (simp add: csum_fold_def unat_word_ariths)
qed

lemma fold_mod: "(s mod 65536 + s div 65536) mod 65535 = s mod (65535 :: nat)"
proof -
  have "s = 65535 * (s div 65536) + (s mod 65536 + s div 65536)"
    using div_mult_mod_eq [of s 65536] by simp
  then show ?thesis
    by (metis mod_mult_self4)
qed

lemma carry_out: "65536 \<le> f \<Longrightarrow> f < 65545 \<Longrightarrow> f div 65536 = 1 \<and> f mod 65536 = f - (65536 :: nat)"
  by (simp add: le_mod_geq le_div_geq)

lemma two_folds:
  assumes "unat s < 0xa0000"
  shows "unat (csum_fold (csum_fold s)) < 65536"
    "unat (csum_fold (csum_fold s)) mod 65535 = unat s mod 65535"
    "0 < unat s \<Longrightarrow> 0 < unat (csum_fold (csum_fold s))"
proof -
  let ?s = "unat s" and ?f = "unat s mod 65536 + unat s div 65536"
  have d: "?s div 65536 \<le> 9"
    using assms by (simp add: div_le_dividend less_mult_imp_div_less [of _ 10, simplified] flip: less_Suc_eq_le)
  have "?s mod 65536 < 65536"
    by simp
  then have f: "unat (csum_fold s) = ?f" "?f < 65545"
    using d by (simp_all add: unat_csum_fold)
  then have g: "unat (csum_fold (csum_fold s)) = ?f mod 65536 + ?f div 65536"
    by (simp add: unat_csum_fold)
  show lt: "unat (csum_fold (csum_fold s)) < 65536"
  proof (cases "?f < 65536")
    case False
    then show ?thesis
      using carry_out [of ?f] f(2) g by linarith
  qed (simp add: g)
  show "unat (csum_fold (csum_fold s)) mod 65535 = ?s mod 65535"
    using fold_mod [of ?f] fold_mod [of ?s] by (simp only: g)
  show "0 < unat (csum_fold (csum_fold s))" if "0 < ?s"
  proof (rule ccontr)
    assume "\<not> 0 < unat (csum_fold (csum_fold s))"
    then have "?f mod 65536 = 0" "?f div 65536 = 0"
      using g by simp_all
    then have "?f = 0"
      by (metis div_mult_mod_eq mult_zero_left add_0)
    then have "?s mod 65536 = 0" "?s div 65536 = 0"
      by simp_all
    then show False
      using that by (metis div_mult_mod_eq mult_zero_left add_0 less_not_refl)
  qed
qed

lemma unat_ucast_not:
  assumes "unat (x :: u32) < 65536"
  shows "unat (ucast (NOT x) :: u16) = 65535 - unat x"
proof -
  have "ucast (NOT x) = NOT (ucast x :: u16)"
    by (rule bit_word_eqI) (simp add: bit_simps)
  moreover have "unat (ucast x :: u16) = unat x"
    using assms by (simp add: unsigned_ucast_eq take_bit_eq_mod)
  moreover have "NOT y = 0xffff - y" for y :: u16
    by (simp add: not_eq_complement)
  moreover have "unat (0xffff - y) = 65535 - unat y" for y :: u16
    using unat_bounds(2) [of y] by (subst unat_sub) (simp_all add: word_le_nat_alt)
  ultimately show ?thesis
    by simp
qed

fun le_words :: "u8 list \<Rightarrow> nat list" where
  "le_words (a # b # bs) = (unat a + 256 * unat b) # le_words bs"
| "le_words _ = []"

lemma be_le_words: "\<exists>q. 256 * sum_list (le_words bs) = sum_list (be_words bs) + 65535 * q"
proof (induction bs rule: le_words.induct)
  case (1 a b bs)
  then obtain q where "256 * sum_list (le_words bs) = sum_list (be_words bs) + 65535 * q" ..
  then show ?case
    by (intro exI [of _ "q + unat b"]) simp
qed auto

lemma be_words_mod:
  assumes "sum_list (le_words bs) mod 65535 = 0"
  shows "sum_list (be_words bs) mod 65535 = 0"
proof -
  obtain q where q: "256 * sum_list (le_words bs) = sum_list (be_words bs) + 65535 * q"
    using be_le_words by blast
  have "(256 * sum_list (le_words bs)) mod 65535 = 0"
    using assms by (metis mod_mult_right_eq mult_zero_right mod_0)
  then show ?thesis
    by (simp add: q)
qed

lemma unat_csum_loop:
  assumes "i + 2 * n \<le> length frame" "unat acc + 65535 * n < 2 ^ 32"
  shows "unat (csum_loop n frame i acc) = unat acc + sum_list (le_words (take (2 * n) (drop i frame)))"
  using assms
proof (induction n arbitrary: i acc)
  case (Suc n)
  have d: "drop i frame = frame ! i # frame ! (i + 1) # drop (i + 2) frame"
    using Suc.prems(1) by (simp add: Cons_nth_drop_Suc)
  have w: "unat (ld16 frame i) < 65536"
    using unat_bounds(2) .
  then have u: "unat (ucast (ld16 frame i) :: u32) = unat (ld16 frame i)"
    by (simp add: unsigned_ucast_eq take_bit_eq_mod)
  then have a: "unat (acc + ucast (ld16 frame i)) = unat acc + unat (ld16 frame i)"
    using w Suc.prems(2) by (simp add: unat_word_ariths)
  have "unat (csum_loop n frame (i + 2) (acc + ucast (ld16 frame i))) =
      unat (acc + ucast (ld16 frame i)) + sum_list (le_words (take (2 * n) (drop (i + 2) frame)))"
    using Suc.prems w a by (intro Suc.IH) simp_all
  then show ?case
    by (simp add: d a) (simp add: ld16_def unat_le16)
qed simp

lemma sum_le_words_bound: "length bs = 2 * n \<Longrightarrow> sum_list (le_words bs) \<le> 65535 * n"
proof (induction bs arbitrary: n rule: le_words.induct)
  case (1 a b bs)
  then obtain n' where "n = Suc n'" "length bs = 2 * n'"
    by (cases n) auto
  then show ?case
    using "1.IH" [of n'] unat_bounds(1) [of a] unat_bounds(1) [of b] by simp
qed auto

lemma unat_bytes16: "unat (byte16 0 w) + 256 * unat (byte16 (Suc 0) w) = unat w"
  using unat_le16 [of "byte16 0 w" "byte16 (Suc 0) w"] by simp

lemma length_outer_header [simp]: "length (outer_header src dst len tos c) = 20"
  by (simp add: outer_header_def bytes16_def bytes32_def)

lemma le_words_outer_header:
  "sum_list (le_words (outer_header src dst len tos c)) =
   sum_list (le_words (outer_header src dst len tos 0)) + unat c"
  using unat_bytes16 [of c] unat_bytes16 [of 0]
  by (simp add: outer_header_def bytes16_def bytes32_def)

lemma be_words_outer_header_pos: "0 < sum_list (be_words (outer_header src dst len tos c))"
  by (simp add: outer_header_def)

lemma ipv4_csum_outer_header:
  assumes "take 20 (drop i frame) = outer_header src dst len tos 0" "i + 20 \<le> length frame"
  shows "header_checksum_ok (outer_header src dst len tos (ipv4_csum frame i))"
proof -
  let ?h = "outer_header src dst len tos 0"
  define s where "s = csum_loop 10 frame i 0"
  define f where "f = unat (csum_fold (csum_fold s))"
  have s: "unat s = sum_list (le_words ?h)"
    using unat_csum_loop [of i 10 frame 0] assms by (simp add: s_def)
  moreover have "sum_list (le_words ?h) \<le> 65535 * 10"
    by (rule sum_le_words_bound) simp
  ultimately have f: "f < 65536" "f mod 65535 = sum_list (le_words ?h) mod 65535"
    using two_folds [of s] by (simp_all add: f_def)
  have c: "unat (ipv4_csum frame i) = 65535 - f"
    using unat_ucast_not [of "csum_fold (csum_fold s)"] f(1) by (simp add: ipv4_csum_def f_def s_def)
  have "(sum_list (le_words ?h) + (65535 - f)) mod 65535 = (f + (65535 - f)) mod 65535"
    using f(2) by (metis mod_add_left_eq)
  also have "\<dots> = 0"
    using f(1) by simp
  finally have "sum_list (le_words (outer_header src dst len tos (ipv4_csum frame i))) mod 65535 = 0"
    by (simp only: le_words_outer_header [of _ _ _ _ "ipv4_csum frame i"] c)
  then show ?thesis
    using be_words_mod be_words_outer_header_pos by (simp add: header_checksum_ok_def)
qed

section \<open>Stores\<close>

lemma length_store_bytes [simp]: "length (store_bytes i bs frame) = length frame"
  by (induction i bs frame rule: store_bytes.induct) simp_all

lemma store_bytes_append:
  "length xs = i \<Longrightarrow> length ys = length bs \<Longrightarrow> store_bytes i bs (xs @ ys @ zs) = xs @ bs @ zs"
proof (induction bs arbitrary: i xs ys)
  case (Cons b bs)
  then obtain y ys' where ys: "ys = y # ys'" "length ys' = length bs"
    by (cases ys) auto
  then have "store_bytes i (b # bs) (xs @ ys @ zs) = store_bytes (Suc i) bs ((xs @ [b]) @ ys' @ zs)"
    using Cons.prems(1) by (simp add: list_update_append)
  also have "\<dots> = (xs @ [b]) @ bs @ zs"
    using Cons.prems(1) ys(2) by (intro Cons.IH) simp_all
  finally show ?case
    by simp
qed simp

lemma store_bytes_app:
  "store_bytes i (bs @ cs) frame = store_bytes (i + length bs) cs (store_bytes i bs frame)"
  by (induction i bs frame rule: store_bytes.induct) simp_all

lemma byte16_bswap16: "byte16 0 (bswap16 w) = byte16 1 w" "byte16 (Suc 0) (bswap16 w) = byte16 0 w"
  by (simp_all add: bswap16_def)

lemma byte16_0 [simp]: "byte16 i 0 = 0"
  by (simp add: byte16_def)

lemma byte16_ETH_P_IP: "byte16 0 ETH_P_IP = 0" "byte16 (Suc 0) ETH_P_IP = 8"
  by (simp_all add: byte16_def)

lemma encap_ipip_Some:
  assumes "kernel_ok k" "14 \<le> length frame"
    "encap_ipip k frame raddr dmac cfg hash inner_len tos = Some frame'"
  shows "\<exists>check. header_checksum_ok (outer_header (outer_source cfg hash) raddr (ucast (inner_len + 20)) tos check) \<and>
    frame' = tunnel_frame (mac dmac) (lb_mac cfg)
      (outer_header (outer_source cfg hash) raddr (ucast (inner_len + 20)) tos check) (drop 14 frame)"
proof -
  obtain grown where g: "adjust_head k frame = Some grown"
    using assms(3) by (auto simp: encap_ipip_def split: option.splits)
  obtain room where room: "length room = 20" "grown = room @ frame"
    using adjust_headE [OF assms(1) g] .
  let ?hdr = "outer_header (outer_source cfg hash) raddr (ucast (inner_len + 20)) tos"
  let ?eth = "mac_bytes (mac dmac) @ mac_bytes (lb_mac cfg) @ [0x08, 0x00]"
  define F where "F = store_bytes 0 (?eth @ ?hdr 0) grown"
  have F: "F = ?eth @ ?hdr 0 @ drop 14 frame"
    using store_bytes_append [of "[]" 0 "take 34 grown" "?eth @ ?hdr 0" "drop 34 grown"] room assms(2)
    by (simp add: F_def)
  have "frame' = store_bytes 24 (bytes16 (ipv4_csum F 14)) F"
    using assms(3) g room assms(2)
    by (simp add: encap_ipip_def F_def Let_def byte16_ETH_P_IP store_bytes_app outer_header_def bytes16_def
        bytes32_def byte16_bswap16 outer_source_def PB_OUTER_LEN_def PB_OUTER_TTL_def)
  also have "\<dots> = ?eth @ ?hdr (ipv4_csum F 14) @ drop 14 frame"
  proof -
    let ?pre = "?eth @ take 10 (?hdr 0)"
    have "F = ?pre @ [0, 0] @ drop 12 (?hdr 0) @ drop 14 frame"
      by (simp add: F outer_header_def bytes16_def)
    then have "store_bytes 24 (bytes16 (ipv4_csum F 14)) F =
        ?pre @ bytes16 (ipv4_csum F 14) @ drop 12 (?hdr 0) @ drop 14 frame"
      using store_bytes_append [of ?pre 24 "[0, 0]" "bytes16 (ipv4_csum F 14)"] by (simp add: bytes16_def)
    then show ?thesis
      by (simp add: outer_header_def bytes16_def)
  qed
  finally have "frame' = tunnel_frame (mac dmac) (lb_mac cfg) (?hdr (ipv4_csum F 14)) (drop 14 frame)"
    by (simp add: tunnel_frame_def)
  moreover have "header_checksum_ok (?hdr (ipv4_csum F 14))"
    by (rule ipv4_csum_outer_header) (simp_all add: F)
  ultimately show ?thesis
    by blast
qed

lemma encap_ipip_None:
  assumes "kernel_ok k" "14 \<le> length frame"
  shows "encap_ipip k frame raddr dmac cfg hash inner_len tos = None \<longleftrightarrow> adjust_head k frame = None"
proof (cases "adjust_head k frame")
  case (Some grown)
  then obtain room where "length room = 20" "grown = room @ frame"
    using adjust_headE [OF assms(1)] by blast
  then show ?thesis
    using Some assms(2) by (simp add: encap_ipip_def Let_def)
qed (simp add: encap_ipip_def)

lemma outer_source_prefix:
  "outer_source cfg hash AND encap_src_mask cfg = encap_src_prefix cfg AND encap_src_mask cfg"
  by (rule bit_word_eqI) (auto simp: outer_source_def bit_simps)

end
