(* ===== verification/Dataplane_Props.thy ===== *)
theory Dataplane_Props
  imports Dataplane_Frames
begin

text \<open>
  What one run of the XDP program does.  \<open>classify\<close> states which frames the program hands to
  the stack, drops or forwards, without effects; the program is shown to be that
  classification followed by \<^verbatim>\<open>forward\<close>.  \<open>ct_hit\<close> and \<open>chosen_real\<close> state which real a packet
  goes to.  The lemmas then give the effect of a run on each map; the claims are about the
  counters, the emitted frame, connection affinity and the flows that must not create state.
\<close>

section \<open>Specification\<close>

datatype parsed =
    Drop pb_counter
  | Pass
  | Fwd pb_flow pb_vip_value bool bool bool u32 u8

definition classify_vip :: "maps \<Rightarrow> pb_flow \<Rightarrow> bool \<Rightarrow> bool \<Rightarrow> u32 \<Rightarrow> u8 \<Rightarrow> parsed" where
  "classify_vip m f bare_syn may_insert len tos =
     (case vip_map m \<lparr>vk_addr = f_daddr f, vk_port = f_dport f, vk_proto = f_proto f, vk_pad = 0\<rparr> of
        None \<Rightarrow> Pass
      | Some vip \<Rightarrow> Fwd f vip bare_syn may_insert False len tos)"

text \<open>The flow a quoted datagram belongs to: the inner header with both ends swapped.\<close>

definition quoted_flow :: "u8 list \<Rightarrow> pb_flow" where
  "quoted_flow frame =
     \<lparr>f_saddr = ip_daddr frame 42, f_daddr = ip_saddr frame 42, f_sport = ld16 frame 64,
      f_dport = ld16 frame 62, f_proto = ip_protocol frame 42\<rparr>"

definition classify_icmp :: "maps \<Rightarrow> u8 list \<Rightarrow> parsed" where
  "classify_icmp m frame =
     (if length frame < 42 then Drop PB_CNT_DROP_SHORT
      else if cfg_flags (config m) AND PB_CFG_F_ICMP_PMTU = 0 \<or> ld8 frame 34 \<noteq> 3 \<or> ld8 frame 35 \<noteq> 4 then Pass
      else if length frame < 62 then Drop PB_CNT_DROP_SHORT
      else if ip_ihl frame 42 \<noteq> 5 \<or> ip_protocol frame 42 \<notin> {6, 17} then Pass
      else if length frame < 66 then Drop PB_CNT_DROP_SHORT
      else (case vip_map m \<lparr>vk_addr = ip_saddr frame 42, vk_port = ld16 frame 62,
                             vk_proto = ip_protocol frame 42, vk_pad = 0\<rparr> of
          None \<Rightarrow> Pass
        | Some vip \<Rightarrow> Fwd (quoted_flow frame) vip False False True
                       (ucast (bswap16 (ip_tot_len frame 14))) (ip_tos frame 14)))"

definition tcp_udp_flow :: "u8 list \<Rightarrow> pb_flow" where
  "tcp_udp_flow frame =
     \<lparr>f_saddr = ip_saddr frame 14, f_daddr = ip_daddr frame 14, f_sport = ld16 frame 34,
      f_dport = ld16 frame 36, f_proto = ip_protocol frame 14\<rparr>"

definition classify :: "maps \<Rightarrow> u8 list \<Rightarrow> parsed" where
  "classify m frame =
     (if length frame < 14 then Drop PB_CNT_DROP_SHORT
      else if ld16 frame 12 \<noteq> 8 then Pass
      else if length frame < 34 then Drop PB_CNT_DROP_SHORT
      else if ip_version frame 14 \<noteq> 4 then Drop PB_CNT_DROP_OTHER
      else if ip_ihl frame 14 \<noteq> 5 then Drop PB_CNT_DROP_OPTS
      else if ip_frag_off frame 14 AND bswap16 0x3FFF \<noteq> 0 then Drop PB_CNT_DROP_FRAG
      else
        (let len = unat (bswap16 (ip_tot_len frame 14))
         in if len < 20 \<or> length frame < 14 + len then Drop PB_CNT_DROP_SHORT
            else if ip_protocol frame 14 = 6 then
              (if length frame < 54 then Drop PB_CNT_DROP_SHORT
               else classify_vip m (tcp_udp_flow frame) (tcp_syn frame 34 \<and> \<not> tcp_ack frame 34)
                      (\<not> tcp_rst frame 34) (ucast (bswap16 (ip_tot_len frame 14))) (ip_tos frame 14))
            else if ip_protocol frame 14 = 17 then
              (if length frame < 42 then Drop PB_CNT_DROP_SHORT
               else classify_vip m (tcp_udp_flow frame) False True
                      (ucast (bswap16 (ip_tot_len frame 14))) (ip_tos frame 14))
            else if ip_protocol frame 14 = 1 then classify_icmp m frame
            else Pass))"

text \<open>Whether the connection table is used for a VIP, and which real a packet goes to.\<close>

definition uses_ct :: "pb_config \<Rightarrow> pb_vip_value \<Rightarrow> bool" where
  "uses_ct cfg vip \<longleftrightarrow>
     cfg_flags cfg AND PB_CFG_F_NO_CONNTRACK = 0 \<and> vip_flags vip AND PB_VIP_F_NO_CONNTRACK = 0"

definition flow_hash :: "pb_flow \<Rightarrow> u32" where
  "flow_hash f = pb_flow_hash (f_saddr f) (f_daddr f) (f_sport f) (f_dport f) (f_proto f)"

definition ct_live :: "maps \<Rightarrow> cpu_id \<Rightarrow> pb_ct_key \<Rightarrow> u32 \<Rightarrow> bool" where
  "ct_live m c key r \<longleftrightarrow>
     (\<exists>ct. conntrack_lookup m c key = Some ct \<and> last_seen_ns ct \<noteq> 0 \<and> ct_real_id ct = r)"

definition ct_hit :: "maps \<Rightarrow> cpu_id \<Rightarrow> pb_flow \<Rightarrow> bool" where
  "ct_hit m c f \<longleftrightarrow> (\<exists>r. ct_live m c (flow_key f) r \<and> real_alive m r)"

definition chosen_real :: "maps \<Rightarrow> cpu_id \<Rightarrow> pb_flow \<Rightarrow> u32 \<Rightarrow> bool \<Rightarrow> bool \<Rightarrow> u32" where
  "chosen_real m c f vid use_ct bare_syn =
     (if use_ct \<and> \<not> bare_syn \<and> ct_hit m c f
      then ct_real_id (the (conntrack_lookup m c (flow_key f)))
      else ring_lookup m vid (flow_hash f))"

definition usable_real :: "maps \<Rightarrow> u32 \<Rightarrow> bool" where
  "usable_real m r \<longleftrightarrow> r < PB_MAX_REALS \<and> real_addr (reals m r) \<noteq> 0 \<and> mac (neigh m r) \<noteq> zero_mac"

section \<open>The program is the classification\<close>

definition run_parsed :: "kernel \<Rightarrow> u8 list \<Rightarrow> maps \<Rightarrow> parsed \<Rightarrow> (xdp_action \<times> maps) \<times> u8 list" where
  "run_parsed k frame m p =
     (case p of
        Drop cnt \<Rightarrow> (drop_global k cnt m, frame)
      | Pass \<Rightarrow> (pass_global k m, frame)
      | Fwd f vip bare_syn may_insert is_icmp len tos \<Rightarrow>
          forward k frame f vip (config m) bare_syn may_insert is_icmp len tos m)"

lemma vip_forward_classify:
  "vip_forward k frame f (config m) bare_syn may_insert len tos m =
   run_parsed k frame m (classify_vip m f bare_syn may_insert len tos)"
  by (simp add: vip_forward_def classify_vip_def run_parsed_def vip_map_lookup_def split: option.split)

lemma handle_icmp_classify:
  "handle_icmp k frame 14 (config m) m = run_parsed k frame m (classify_icmp m frame)"
  unfolding handle_icmp_def classify_icmp_def run_parsed_def Let_def
  by (simp add: vip_map_lookup_def quoted_flow_def split: option.split)

lemma bswap16_consts: "bswap16 0x0800 = 8"
  by (simp add: bswap16_def byte16_def le16_def)

lemma tot_len_small: "\<not> 0xffff < (ucast (w :: u16) :: u32)"
  using unat_bounds(2) [of w] by (simp add: word_less_nat_alt unsigned_ucast_eq take_bit_eq_mod)

lemma unat_ucast_16_32 [simp]: "unat (ucast (w :: u16) :: u32) = unat w"
  using unat_bounds(2) [of w] by (simp add: unsigned_ucast_eq take_bit_eq_mod)

lemma xdp_packetbalance_classify:
  "xdp_packetbalance k frame m = run_parsed k frame m (classify m frame)"
proof -
  have mask: "PB_IP_MF OR PB_IP_OFFSET = 0x3FFF"
    by (simp add: PB_IP_MF_def PB_IP_OFFSET_def)
  have flow: "tcp_udp_flow frame = \<lparr>f_saddr = ip_saddr frame 14, f_daddr = ip_daddr frame 14, f_sport = 0,
      f_dport = 0, f_proto = ip_protocol frame 14\<rparr>\<lparr>f_sport := ld16 frame 34, f_dport := ld16 frame 36\<rparr>"
    by (simp add: tcp_udp_flow_def)
  show ?thesis
    by (simp add: xdp_packetbalance_def classify_def flow mask bswap16_consts tot_len_small Let_def
        vip_forward_classify [symmetric] handle_icmp_classify [symmetric] del: update_convs)
      (simp add: run_parsed_def)
qed

lemma classify_Fwd:
  assumes "classify m frame = Fwd f vip bare_syn may_insert is_icmp len tos"
  shows "34 \<le> length frame" "vip_map m \<lparr>vk_addr = f_daddr f, vk_port = f_dport f, vk_proto = f_proto f, vk_pad = 0\<rparr> = Some vip"
    "len = ucast (bswap16 (ip_tot_len frame 14))" "tos = ip_tos frame 14" "14 + unat len \<le> length frame"
    "is_icmp \<Longrightarrow> \<not> bare_syn \<and> \<not> may_insert"
  using assms
  by (auto simp: classify_def classify_icmp_def classify_vip_def quoted_flow_def Let_def
      split: if_splits option.splits)

section \<open>Effects of the counters\<close>

lemma stats_add_stat [simp]:
  "stats (add_stat k st cnt n m) c i x =
   stats m c i x + (if c = cpu k \<and> st = Some i \<and> x = cnt then n else 0)"
  by (auto simp: add_stat_def split: option.split)

lemma add_stat_sel [simp]:
  "vip_map (add_stat k st cnt n m) = vip_map m" "rings (add_stat k st cnt n m) = rings m"
  "reals (add_stat k st cnt n m) = reals m" "neigh (add_stat k st cnt n m) = neigh m"
  "conntrack (add_stat k st cnt n m) = conntrack m" "real_stats (add_stat k st cnt n m) = real_stats m"
  "config (add_stat k st cnt n m) = config m"
  by (simp_all add: add_stat_def split: option.split)

lemma add_real_stats_sel [simp]:
  "vip_map (add_real_stats k r n m) = vip_map m" "rings (add_real_stats k r n m) = rings m"
  "reals (add_real_stats k r n m) = reals m" "neigh (add_real_stats k r n m) = neigh m"
  "conntrack (add_real_stats k r n m) = conntrack m" "stats (add_real_stats k r n m) = stats m"
  "config (add_real_stats k r n m) = config m"
  by (simp_all add: add_real_stats_def)

lemma conntrack_store_sel [simp]:
  "vip_map (conntrack_store c key v m) = vip_map m" "rings (conntrack_store c key v m) = rings m"
  "reals (conntrack_store c key v m) = reals m" "neigh (conntrack_store c key v m) = neigh m"
  "real_stats (conntrack_store c key v m) = real_stats m" "stats (conntrack_store c key v m) = stats m"
  "config (conntrack_store c key v m) = config m"
  by (simp_all add: conntrack_store_def)

lemma lookup_fields:
  "rings m = rings m' \<Longrightarrow> ring_lookup m = ring_lookup m'"
  "reals m = reals m' \<Longrightarrow> real_alive m = real_alive m'"
  "reals m = reals m' \<Longrightarrow> reals_lookup m = reals_lookup m'"
  "neigh m = neigh m' \<Longrightarrow> neigh_lookup m = neigh_lookup m'"
  "conntrack m = conntrack m' \<Longrightarrow> conntrack_lookup m = conntrack_lookup m'"
  by (simp_all add: fun_eq_iff ring_lookup_def real_alive_def rings_lookup_def reals_lookup_def neigh_lookup_def
      conntrack_lookup_def)

lemma lookup_add_stat [simp]:
  "ring_lookup (add_stat k st cnt n m) = ring_lookup m" "real_alive (add_stat k st cnt n m) = real_alive m"
  "reals_lookup (add_stat k st cnt n m) = reals_lookup m" "neigh_lookup (add_stat k st cnt n m) = neigh_lookup m"
  "conntrack_lookup (add_stat k st cnt n m) = conntrack_lookup m"
  by (rule lookup_fields; simp)+

section \<open>Effects of the selection\<close>

lemma pick_by_hash_fst [simp]: "fst (pick_by_hash k key vid hash may_insert st m) = ring_lookup m vid hash"
  by (simp add: pick_by_hash_def Let_def)

lemma pick_by_hash_sel:
  "vip_map (snd (pick_by_hash k key vid hash mi st m)) = vip_map m"
  "rings (snd (pick_by_hash k key vid hash mi st m)) = rings m"
  "reals (snd (pick_by_hash k key vid hash mi st m)) = reals m"
  "neigh (snd (pick_by_hash k key vid hash mi st m)) = neigh m"
  "config (snd (pick_by_hash k key vid hash mi st m)) = config m"
  "real_stats (snd (pick_by_hash k key vid hash mi st m)) = real_stats m"
  "stats (snd (pick_by_hash k key vid hash mi st m)) = stats (add_stat k st PB_CNT_HASH 1 m)"
  "conntrack (snd (pick_by_hash k key vid hash mi st m)) =
     (if mi \<and> ring_lookup m vid hash \<noteq> PB_REAL_NONE
      then ct_update k (cpu k) key \<lparr>ct_real_id = ring_lookup m vid hash, ct_vip_id = vid, last_seen_ns = ktime k\<rparr> (conntrack m)
      else conntrack m)"
  by (simp_all add: pick_by_hash_def Let_def)

lemma ct_hit_iff:
  "ct_hit m c f \<longleftrightarrow>
   (case conntrack_lookup m c (flow_key f) of
      None \<Rightarrow> False
    | Some ct \<Rightarrow> last_seen_ns ct \<noteq> 0 \<and> real_alive m (ct_real_id ct))"
  by (auto simp: ct_hit_def ct_live_def split: option.split)

lemma pick_real_cases:
  "pick_real k f vid (flow_hash f) use_ct bare_syn mi st m =
     (if \<not> use_ct then (ring_lookup m vid (flow_hash f), add_stat k st PB_CNT_HASH 1 m)
      else if bare_syn then pick_by_hash k (flow_key f) vid (flow_hash f) mi st m
      else if ct_hit m (cpu k) f then
        (let ct = the (conntrack_lookup m (cpu k) (flow_key f))
         in (ct_real_id ct, add_stat k st PB_CNT_CT_HIT 1
               (conntrack_store (cpu k) (flow_key f) (ct\<lparr>last_seen_ns := ktime k\<rparr>) m)))
      else pick_by_hash k (flow_key f) vid (flow_hash f) mi st (add_stat k st PB_CNT_CT_MISS 1 m))"
  by (auto simp: pick_real_def ct_hit_iff Let_def split: option.split)

lemma pick_real_fst:
  "fst (pick_real k f vid (flow_hash f) use_ct bare_syn mi st m) = chosen_real m (cpu k) f vid use_ct bare_syn"
  by (simp add: pick_real_cases chosen_real_def Let_def)

lemma pick_real_sel:
  "vip_map (snd (pick_real k f vid (flow_hash f) use_ct bare_syn mi st m)) = vip_map m"
  "rings (snd (pick_real k f vid (flow_hash f) use_ct bare_syn mi st m)) = rings m"
  "reals (snd (pick_real k f vid (flow_hash f) use_ct bare_syn mi st m)) = reals m"
  "neigh (snd (pick_real k f vid (flow_hash f) use_ct bare_syn mi st m)) = neigh m"
  "config (snd (pick_real k f vid (flow_hash f) use_ct bare_syn mi st m)) = config m"
  "real_stats (snd (pick_real k f vid (flow_hash f) use_ct bare_syn mi st m)) = real_stats m"
  by (simp_all add: pick_real_cases pick_by_hash_sel Let_def)

lemma pick_real_stats:
  "stats (snd (pick_real k f vid (flow_hash f) use_ct bare_syn mi st m)) c i x =
   stats m c i x +
   (if c = cpu k \<and> st = Some i then
      (if use_ct \<and> \<not> bare_syn \<and> ct_hit m (cpu k) f then of_bool (x = PB_CNT_CT_HIT)
       else of_bool (x = PB_CNT_HASH) + of_bool (x = PB_CNT_CT_MISS \<and> use_ct \<and> \<not> bare_syn))
    else 0)"
  by (simp add: pick_real_cases pick_by_hash_sel Let_def)

section \<open>Effects of a forward\<close>

definition count_packet :: "kernel \<Rightarrow> u32 option \<Rightarrow> u32 \<Rightarrow> bool \<Rightarrow> maps \<Rightarrow> maps" where
  "count_packet k st len bare_syn m =
     (let m = add_stat k st PB_CNT_PACKETS 1 m;
          m = add_stat k st PB_CNT_BYTES (ucast len) m
      in if bare_syn then add_stat k st PB_CNT_SYN 1 m else m)"

lemma count_packet_sel [simp]:
  "vip_map (count_packet k st len bs m) = vip_map m" "rings (count_packet k st len bs m) = rings m"
  "reals (count_packet k st len bs m) = reals m" "neigh (count_packet k st len bs m) = neigh m"
  "conntrack (count_packet k st len bs m) = conntrack m" "real_stats (count_packet k st len bs m) = real_stats m"
  "config (count_packet k st len bs m) = config m"
  "ring_lookup (count_packet k st len bs m) = ring_lookup m" "real_alive (count_packet k st len bs m) = real_alive m"
  "conntrack_lookup (count_packet k st len bs m) = conntrack_lookup m"
  by (simp_all add: count_packet_def Let_def)

lemma stats_count_packet:
  "stats (count_packet k st len bs m) c i x =
   stats m c i x +
   (if c = cpu k \<and> st = Some i then
      of_bool (x = PB_CNT_PACKETS) + (if x = PB_CNT_BYTES then ucast len else 0) + of_bool (x = PB_CNT_SYN \<and> bs)
    else 0)"
  by (simp add: count_packet_def Let_def)

lemma ct_hit_count_packet [simp]: "ct_hit (count_packet k st len bs m) c f = ct_hit m c f"
  by (simp add: ct_hit_def ct_live_def)

lemma chosen_count_packet [simp]:
  "chosen_real (count_packet k st len bs m) c f vid use_ct bare_syn = chosen_real m c f vid use_ct bare_syn"
  by (simp add: chosen_real_def)

lemma mac_or_zero: "fold (OR) (mac_bytes a) 0 = 0 \<longleftrightarrow> a = zero_mac"
proof -
  have "x OR y = 0 \<longleftrightarrow> x = 0 \<and> y = 0" for x y :: u8
    by (auto simp: bit_eq_iff bit_simps)
  then show ?thesis
    by (cases a) (auto simp: mac_bytes_def zero_mac_def)
qed

definition picked :: "kernel \<Rightarrow> pb_flow \<Rightarrow> pb_vip_value \<Rightarrow> pb_config \<Rightarrow> bool \<Rightarrow> bool \<Rightarrow> u32 \<Rightarrow> maps \<Rightarrow> maps" where
  "picked k f vip cfg bare_syn may_insert len m =
     snd (pick_real k f (vip_id vip) (flow_hash f) (uses_ct cfg vip) bare_syn may_insert
            (stats_slot (vip_id vip)) (count_packet k (stats_slot (vip_id vip)) len bare_syn m))"

definition sent :: "kernel \<Rightarrow> u32 option \<Rightarrow> bool \<Rightarrow> u32 \<Rightarrow> u32 \<Rightarrow> maps \<Rightarrow> maps" where
  "sent k st is_icmp r len m =
     (let m = add_stat k st PB_CNT_TX 1 m;
          m = (if is_icmp then add_stat k st PB_CNT_ICMP_PMTU_FWD 1 m else m)
      in add_real_stats k r len m)"

lemma forward_spec:
  assumes r_def: "r = chosen_real m (cpu k) f (vip_id vip) (uses_ct cfg vip) bare_syn"
  shows "forward k frame f vip cfg bare_syn mi ic len tos m =
    (let st = stats_slot (vip_id vip)
     in if len + 20 > 3500 then (drop_vip k st PB_CNT_DROP_MTU (count_packet k st len bare_syn m), frame)
        else if \<not> usable_real m r then (drop_vip k st PB_CNT_DROP_NO_REAL (picked k f vip cfg bare_syn mi len m), frame)
        else (case encap_ipip k frame (real_addr (reals m r)) (neigh m r) cfg (flow_hash f) len tos of
            None \<Rightarrow> (drop_vip k st PB_CNT_DROP_ADJ_HEAD (picked k f vip cfg bare_syn mi len m), frame)
          | Some frame' \<Rightarrow> ((XDP_TX, sent k st ic r len (picked k f vip cfg bare_syn mi len m)), frame')))"
proof -
  let ?st = "stats_slot (vip_id vip)"
  define m1 where "m1 = count_packet k ?st len bare_syn m"
  define p where "p = pick_real k f (vip_id vip) (flow_hash f) (uses_ct cfg vip) bare_syn mi ?st m1"
  have p1: "fst p = r" and p2: "snd p = picked k f vip cfg bare_syn mi len m"
    by (simp_all add: p_def r_def m1_def pick_real_fst picked_def)
  have sel: "reals (snd p) = reals m" "neigh (snd p) = neigh m"
    by (simp_all add: p_def pick_real_sel m1_def)
  have lk: "reals_lookup (snd p) = reals_lookup m" "neigh_lookup (snd p) = neigh_lookup m"
    by (rule lookup_fields; simp add: sel)+
  have "forward k frame f vip cfg bare_syn mi ic len tos m =
    (if len + 20 > 3500 then (drop_vip k ?st PB_CNT_DROP_MTU m1, frame)
     else let (real_id, m) = p
         in if real_id \<ge> PB_MAX_REALS then (drop_vip k ?st PB_CNT_DROP_NO_REAL m, frame)
         else (case reals_lookup m real_id of
             None \<Rightarrow> (drop_vip k ?st PB_CNT_DROP_NO_REAL m, frame)
           | Some rl \<Rightarrow>
             (if real_addr rl = 0 then (drop_vip k ?st PB_CNT_DROP_NO_REAL m, frame)
              else (case neigh_lookup m real_id of
                  None \<Rightarrow> (drop_vip k ?st PB_CNT_DROP_NO_REAL m, frame)
                | Some dmac \<Rightarrow>
                  (if fold (OR) (mac_bytes (mac dmac)) 0 = 0
                   then (drop_vip k ?st PB_CNT_DROP_NO_REAL m, frame)
                   else (case encap_ipip k frame (real_addr rl) dmac cfg (flow_hash f) len tos of
                       None \<Rightarrow> (drop_vip k ?st PB_CNT_DROP_ADJ_HEAD m, frame)
                     | Some frame' \<Rightarrow> ((XDP_TX, sent k ?st ic real_id len m), frame')))))))"
    unfolding p_def m1_def forward_def count_packet_def uses_ct_def flow_hash_def sent_def
    by (simp only: Let_def PB_OUTER_LEN_def PB_MAX_PACKET_LEN_def)
  also have "\<dots> = (if len + 20 > 3500 then (drop_vip k ?st PB_CNT_DROP_MTU m1, frame)
        else if \<not> usable_real m r then (drop_vip k ?st PB_CNT_DROP_NO_REAL (snd p), frame)
        else (case encap_ipip k frame (real_addr (reals m r)) (neigh m r) cfg (flow_hash f) len tos of
            None \<Rightarrow> (drop_vip k ?st PB_CNT_DROP_ADJ_HEAD (snd p), frame)
          | Some frame' \<Rightarrow> ((XDP_TX, sent k ?st ic r len (snd p)), frame')))"
    by (cases "r < PB_MAX_REALS")
      (auto simp: case_prod_unfold p1 lk usable_real_def mac_or_zero not_le not_less Let_def split: option.split)
  finally show ?thesis
    by (simp only: Let_def p2 m1_def)
qed

lemma picked_sel [simp]:
  "vip_map (picked k f vip cfg bs mi len m) = vip_map m" "rings (picked k f vip cfg bs mi len m) = rings m"
  "reals (picked k f vip cfg bs mi len m) = reals m" "neigh (picked k f vip cfg bs mi len m) = neigh m"
  "config (picked k f vip cfg bs mi len m) = config m" "real_stats (picked k f vip cfg bs mi len m) = real_stats m"
  by (simp_all add: picked_def pick_real_sel)

lemma stats_picked:
  "stats (picked k f vip cfg bs mi len m) c i x =
   stats m c i x +
   (if c = cpu k \<and> stats_slot (vip_id vip) = Some i then
      of_bool (x = PB_CNT_PACKETS) + (if x = PB_CNT_BYTES then ucast len else 0) + of_bool (x = PB_CNT_SYN \<and> bs) +
      (if uses_ct cfg vip \<and> \<not> bs \<and> ct_hit m (cpu k) f then of_bool (x = PB_CNT_CT_HIT)
       else of_bool (x = PB_CNT_HASH) + of_bool (x = PB_CNT_CT_MISS \<and> uses_ct cfg vip \<and> \<not> bs))
    else 0)"
  by (simp add: picked_def pick_real_stats stats_count_packet)

lemma sent_sel [simp]:
  "vip_map (sent k st ic r len m) = vip_map m" "rings (sent k st ic r len m) = rings m"
  "reals (sent k st ic r len m) = reals m" "neigh (sent k st ic r len m) = neigh m"
  "config (sent k st ic r len m) = config m" "conntrack (sent k st ic r len m) = conntrack m"
  by (simp_all add: sent_def Let_def)

lemma stats_sent:
  "stats (sent k st ic r len m) c i x =
   stats m c i x +
   (if c = cpu k \<and> st = Some i then of_bool (x = PB_CNT_TX) + of_bool (x = PB_CNT_ICMP_PMTU_FWD \<and> ic) else 0)"
  by (simp add: sent_def Let_def)

end
