(* ===== verification/Dataplane_Claims.thy ===== *)
theory Dataplane_Claims
  imports Dataplane_Props
begin

text \<open>
  The claims about the XDP program: every packet is accounted for exactly once, the frame
  that leaves is the original packet in a correct tunnel header addressed to a usable real,
  a tracked flow keeps its real whatever happens to the rings, and packets that must not
  create connection state do not.
\<close>

section \<open>Specification\<close>

definition vips_in_range :: "maps \<Rightarrow> bool" where
  "vips_in_range m \<longleftrightarrow> (\<forall>key v. vip_map m key = Some v \<longrightarrow> vip_id v < PB_MAX_VIPS)"

fun verdict_counters :: "xdp_action \<Rightarrow> pb_counter set" where
  "verdict_counters XDP_TX = {PB_CNT_TX}"
| "verdict_counters XDP_PASS = {PB_CNT_PASS}"
| "verdict_counters XDP_DROP =
     {PB_CNT_DROP_FRAG, PB_CNT_DROP_OPTS, PB_CNT_DROP_NO_REAL, PB_CNT_DROP_ADJ_HEAD, PB_CNT_DROP_MTU,
      PB_CNT_DROP_SHORT, PB_CNT_DROP_OTHER}"

definition all_verdicts :: "pb_counter set" where
  "all_verdicts = verdict_counters XDP_TX \<union> verdict_counters XDP_PASS \<union> verdict_counters XDP_DROP"

text \<open>The two balances of a VIP's counters; both are 0 on a fresh slot.\<close>

definition outcome_balance :: "pb_stats \<Rightarrow> u64" where
  "outcome_balance s =
     s PB_CNT_PACKETS - (s PB_CNT_TX + s PB_CNT_DROP_MTU + s PB_CNT_DROP_NO_REAL + s PB_CNT_DROP_ADJ_HEAD)"

definition choice_balance :: "pb_stats \<Rightarrow> u64" where
  "choice_balance s = s PB_CNT_PACKETS - (s PB_CNT_CT_HIT + s PB_CNT_HASH + s PB_CNT_DROP_MTU)"

text \<open>
  The maps over time: packets on any CPU, the control plane changing anything but the
  counters (or clearing the counters of a slot).
\<close>

inductive dp_run :: "maps \<Rightarrow> maps \<Rightarrow> bool" for m0 where
  start: "dp_run m0 m0"
| packet: "dp_run m0 m \<Longrightarrow> vips_in_range m \<Longrightarrow> xdp_packetbalance k frame m = ((act, m'), frame') \<Longrightarrow> dp_run m0 m'"
| control: "dp_run m0 m \<Longrightarrow> stats m' = stats m \<Longrightarrow> dp_run m0 m'"
| reset: "dp_run m0 m \<Longrightarrow> m' = m\<lparr>stats := (\<lambda>c i. if i = idx then (\<lambda>_. 0) else stats m c i)\<rparr> \<Longrightarrow> dp_run m0 m'"

text \<open>
  The life of a tracked flow \<open>f\<close> on CPU \<open>c\<close>: packets of any flow on any CPU, as long as the
  entry of \<open>f\<close> is not evicted, its real is not deleted and \<open>f\<close> does not start a new
  connection, and control-plane changes to everything but the connection table.
\<close>

inductive flow_run :: "cpu_id \<Rightarrow> pb_flow \<Rightarrow> u32 \<Rightarrow> maps \<Rightarrow> maps \<Rightarrow> bool" for c f r m0 where
  begin_run: "flow_run c f r m0 m0"
| other_packet:
    "flow_run c f r m0 m \<Longrightarrow> kernel_ok k \<Longrightarrow> real_alive m r \<Longrightarrow>
     (\<And>vip mi ic len tos. classify m frame = Fwd f vip True mi ic len tos \<Longrightarrow> cpu k \<noteq> c) \<Longrightarrow>
     xdp_packetbalance k frame m = ((act, m'), frame') \<Longrightarrow> conntrack m' (flow_key f) \<noteq> None \<Longrightarrow>
     flow_run c f r m0 m'"
| control_plane: "flow_run c f r m0 m \<Longrightarrow> conntrack m' = conntrack m \<Longrightarrow> flow_run c f r m0 m'"

section \<open>Counters\<close>

lemma stats_slot_vip: "i < PB_MAX_VIPS \<Longrightarrow> stats_slot i = Some i"
proof -
  assume "i < PB_MAX_VIPS"
  then have "i < PB_MAX_VIPS + 1"
    by (simp add: abi_consts word_less_nat_alt)
  then show ?thesis
    by (simp add: stats_slot_def)
qed

lemma stats_slot_global: "stats_slot PB_STATS_GLOBAL = Some PB_STATS_GLOBAL"
  by (simp add: stats_slot_def abi_consts)

lemma stats_count_global: "i < PB_MAX_VIPS \<Longrightarrow> stats (count_global k cnt m) c i = stats m c i"
  using stats_slot_global by (auto simp: fun_eq_iff count_global_def PB_STATS_GLOBAL_def)

lemma classify_Drop:
  "classify m frame = Drop cnt \<Longrightarrow>
   cnt \<in> {PB_CNT_DROP_SHORT, PB_CNT_DROP_OTHER, PB_CNT_DROP_OPTS, PB_CNT_DROP_FRAG}"
  by (auto simp: classify_def classify_icmp_def classify_vip_def Let_def split: if_splits option.splits)

definition forward_counts ::
  "kernel \<Rightarrow> u32 \<Rightarrow> xdp_action \<Rightarrow> maps \<Rightarrow> maps \<Rightarrow> pb_counter \<Rightarrow> bool \<Rightarrow> bool \<Rightarrow> bool" where
  "forward_counts k vid act m m' cnt hit hash \<longleftrightarrow>
     cnt \<in> verdict_counters act \<and>
     cnt \<in> {PB_CNT_TX, PB_CNT_DROP_MTU, PB_CNT_DROP_NO_REAL, PB_CNT_DROP_ADJ_HEAD} \<and>
     of_bool hit + of_bool hash + of_bool (cnt = PB_CNT_DROP_MTU) = (1 :: nat) \<and>
     (\<forall>c i x. x \<in> all_verdicts \<union> {PB_CNT_PACKETS, PB_CNT_CT_HIT, PB_CNT_HASH} \<longrightarrow>
       stats m' c i x = stats m c i x +
         (if c = cpu k \<and> i = vid then
            of_bool (x = PB_CNT_PACKETS) + of_bool (x = cnt) +
            of_bool (x = PB_CNT_CT_HIT \<and> hit) + of_bool (x = PB_CNT_HASH \<and> hash)
          else 0))"

lemma forward_stats:
  assumes "forward k frame f vip cfg bs mi ic len tos m = ((act, m'), frame')" "vip_id vip < PB_MAX_VIPS"
  shows "\<exists>cnt hit hash. forward_counts k (vip_id vip) act m m' cnt hit hash"
proof -
  let ?r = "chosen_real m (cpu k) f (vip_id vip) (uses_ct cfg vip) bs"
  let ?h = "uses_ct cfg vip \<and> \<not> bs \<and> ct_hit m (cpu k) f"
  note sp = forward_spec [OF refl, of k frame f vip cfg bs mi ic len tos m, unfolded assms(1) Let_def]
  note st = stats_slot_vip [OF assms(2)]
  consider (mtu) "3500 < len + 20"
    | (none) "\<not> 3500 < len + 20" "\<not> usable_real m ?r"
    | (adj) "\<not> 3500 < len + 20" "usable_real m ?r"
        "encap_ipip k frame (real_addr (reals m ?r)) (neigh m ?r) cfg (flow_hash f) len tos = None"
    | (tx) fr where "\<not> 3500 < len + 20" "usable_real m ?r"
        "encap_ipip k frame (real_addr (reals m ?r)) (neigh m ?r) cfg (flow_hash f) len tos = Some fr"
    by (cases "encap_ipip k frame (real_addr (reals m ?r)) (neigh m ?r) cfg (flow_hash f) len tos") auto
  then show ?thesis
  proof cases
    case mtu
    then show ?thesis
      using sp by (intro exI [of _ PB_CNT_DROP_MTU] exI [of _ False] exI [of _ False])
        (auto simp: forward_counts_def drop_vip_def st stats_count_packet all_verdicts_def)
  next
    case none
    then show ?thesis
      using sp by (intro exI [of _ PB_CNT_DROP_NO_REAL] exI [of _ "?h"] exI [of _ "\<not> ?h"])
        (auto simp: forward_counts_def drop_vip_def st stats_picked all_verdicts_def)
  next
    case adj
    then show ?thesis
      using sp by (intro exI [of _ PB_CNT_DROP_ADJ_HEAD] exI [of _ "?h"] exI [of _ "\<not> ?h"])
        (auto simp: forward_counts_def drop_vip_def st stats_picked all_verdicts_def)
  next
    case tx
    then show ?thesis
      using sp by (intro exI [of _ PB_CNT_TX] exI [of _ "?h"] exI [of _ "\<not> ?h"])
        (auto simp: forward_counts_def st stats_picked stats_sent all_verdicts_def)
  qed
qed

lemma xdp_one_counter:
  assumes "vips_in_range m" "xdp_packetbalance k frame m = ((act, m'), frame')"
  shows "\<exists>idx cnt. cnt \<in> verdict_counters act \<and> idx \<le> PB_STATS_GLOBAL \<and>
    (\<forall>c i x. x \<in> all_verdicts \<longrightarrow>
       stats m' c i x = stats m c i x + (if c = cpu k \<and> i = idx \<and> x = cnt then 1 else 0))"
proof (cases "classify m frame")
  case (Drop cnt)
  then have "act = XDP_DROP" "m' = count_global k cnt m"
    using assms(2) by (auto simp: xdp_packetbalance_classify run_parsed_def drop_global_def)
  then show ?thesis
    using classify_Drop [OF Drop]
    by (intro exI [of _ PB_STATS_GLOBAL] exI [of _ cnt]) (auto simp: count_global_def stats_slot_global)
next
  case Pass
  then have "act = XDP_PASS" "m' = count_global k PB_CNT_PASS m"
    using assms(2) by (auto simp: xdp_packetbalance_classify run_parsed_def pass_global_def)
  then show ?thesis
    by (intro exI [of _ PB_STATS_GLOBAL] exI [of _ PB_CNT_PASS]) (auto simp: count_global_def stats_slot_global)
next
  case (Fwd f vip bs mi ic len tos)
  then have vid: "vip_id vip < PB_MAX_VIPS"
    using classify_Fwd(2) [OF Fwd] assms(1) by (auto simp: vips_in_range_def)
  have "forward k frame f vip (config m) bs mi ic len tos m = ((act, m'), frame')"
    using assms(2) Fwd by (simp add: xdp_packetbalance_classify run_parsed_def)
  then obtain cnt hit hash where "forward_counts k (vip_id vip) act m m' cnt hit hash"
    using forward_stats [OF _ vid] by blast
  moreover have "vip_id vip \<le> PB_STATS_GLOBAL"
    using vid by (simp add: PB_STATS_GLOBAL_def)
  ultimately show ?thesis
    by (intro exI [of _ "vip_id vip"] exI [of _ cnt]) (auto simp: forward_counts_def all_verdicts_def)
qed

lemma xdp_balances:
  assumes "vips_in_range m" "xdp_packetbalance k frame m = ((act, m'), frame')" "i < PB_MAX_VIPS"
  shows "outcome_balance (stats m' c i) = outcome_balance (stats m c i)"
    "choice_balance (stats m' c i) = choice_balance (stats m c i)"
proof -
  have "outcome_balance (stats m' c i) = outcome_balance (stats m c i) \<and>
        choice_balance (stats m' c i) = choice_balance (stats m c i)"
  proof (cases "classify m frame")
    case (Fwd f vip bs mi ic len tos)
    then have vid: "vip_id vip < PB_MAX_VIPS"
      using classify_Fwd(2) [OF Fwd] assms(1) by (auto simp: vips_in_range_def)
    have "forward k frame f vip (config m) bs mi ic len tos m = ((act, m'), frame')"
      using assms(2) Fwd by (simp add: xdp_packetbalance_classify run_parsed_def)
    then obtain cnt hit hash where fc: "forward_counts k (vip_id vip) act m m' cnt hit hash"
      using forward_stats [OF _ vid] by blast
    then have st: "stats m' c i x = stats m c i x +
         (if c = cpu k \<and> i = vip_id vip then
            of_bool (x = PB_CNT_PACKETS) + of_bool (x = cnt) +
            of_bool (x = PB_CNT_CT_HIT \<and> hit) + of_bool (x = PB_CNT_HASH \<and> hash)
          else 0)" if "x \<in> all_verdicts \<union> {PB_CNT_PACKETS, PB_CNT_CT_HIT, PB_CNT_HASH}" for x
      using that unfolding forward_counts_def by blast
    have "cnt \<in> {PB_CNT_TX, PB_CNT_DROP_MTU, PB_CNT_DROP_NO_REAL, PB_CNT_DROP_ADJ_HEAD}"
      "of_bool hit + of_bool hash + of_bool (cnt = PB_CNT_DROP_MTU) = (1 :: nat)"
      using fc unfolding forward_counts_def by blast+
    then show ?thesis
      by (auto simp: outcome_balance_def choice_balance_def st all_verdicts_def split: if_splits)
  next
    case (Drop cnt)
    then show ?thesis
      using assms by (auto simp: xdp_packetbalance_classify run_parsed_def drop_global_def stats_count_global)
  next
    case Pass
    then show ?thesis
      using assms by (auto simp: xdp_packetbalance_classify run_parsed_def pass_global_def stats_count_global)
  qed
  then show "outcome_balance (stats m' c i) = outcome_balance (stats m c i)"
    "choice_balance (stats m' c i) = choice_balance (stats m c i)"
    by blast+
qed

lemma dp_run_balances:
  assumes "dp_run m0 m" "\<And>c i x. stats m0 c i x = 0" "i < PB_MAX_VIPS"
  shows "outcome_balance (stats m c i) = 0 \<and> choice_balance (stats m c i) = 0"
  using assms(1)
proof induction
  case start
  then show ?case
    by (simp add: assms(2) outcome_balance_def choice_balance_def)
next
  case (packet m k frame act m' frame')
  then show ?case
    using xdp_balances [OF packet.hyps(2,3) assms(3)] by simp
next
  case (reset m m' idx)
  then show ?case
    by (auto simp: outcome_balance_def choice_balance_def)
qed simp

section \<open>The emitted frame\<close>

lemma xdp_TX:
  assumes "kernel_ok k" "xdp_packetbalance k frame m = ((XDP_TX, m'), frame')"
  obtains f vip bs mi ic len tos r check where
    "classify m frame = Fwd f vip bs mi ic len tos"
    "r = chosen_real m (cpu k) f (vip_id vip) (uses_ct (config m) vip) bs" "usable_real m r"
    "\<not> 3500 < len + 20"
    "header_checksum_ok (outer_header (outer_source (config m) (flow_hash f)) (real_addr (reals m r)) (ucast (len + 20)) tos check)"
    "frame' = tunnel_frame (mac (neigh m r)) (lb_mac (config m))
       (outer_header (outer_source (config m) (flow_hash f)) (real_addr (reals m r)) (ucast (len + 20)) tos check) (drop 14 frame)"
    "m' = sent k (stats_slot (vip_id vip)) ic r len (picked k f vip (config m) bs mi len m)"
proof (cases "classify m frame")
  case (Fwd f vip bs mi ic len tos)
  define r where "r = chosen_real m (cpu k) f (vip_id vip) (uses_ct (config m) vip) bs"
  have fwd: "forward k frame f vip (config m) bs mi ic len tos m = ((XDP_TX, m'), frame')"
    using assms(2) Fwd by (simp add: xdp_packetbalance_classify run_parsed_def)
  note sp = forward_spec [OF r_def, of frame mi ic len tos, unfolded fwd Let_def]
  have tx: "\<not> 3500 < len + 20" "usable_real m r"
    "encap_ipip k frame (real_addr (reals m r)) (neigh m r) (config m) (flow_hash f) len tos = Some frame'"
    "m' = sent k (stats_slot (vip_id vip)) ic r len (picked k f vip (config m) bs mi len m)"
    using sp by (auto simp: drop_vip_def split: if_splits option.splits)
  have "14 \<le> length frame"
    using classify_Fwd(1) [OF Fwd] by simp
  from encap_ipip_Some [OF assms(1) this tx(3)] show ?thesis
    using that [OF Fwd r_def tx(2,1) _ _ tx(4)] by blast
qed (use assms(2) in \<open>simp_all add: xdp_packetbalance_classify run_parsed_def drop_global_def pass_global_def\<close>)

lemma forward_TX:
  assumes "kernel_ok k" "classify m frame = Fwd f vip bs mi ic len tos"
    "r = chosen_real m (cpu k) f (vip_id vip) (uses_ct (config m) vip) bs" "usable_real m r"
    "\<not> 3500 < len + 20" "adjust_head k frame \<noteq> None"
  shows "\<exists>m' frame'. xdp_packetbalance k frame m = ((XDP_TX, m'), frame')"
proof -
  have "14 \<le> length frame"
    using classify_Fwd(1) [OF assms(2)] by simp
  then obtain frame' where
    "encap_ipip k frame (real_addr (reals m r)) (neigh m r) (config m) (flow_hash f) len tos = Some frame'"
    using encap_ipip_None [OF assms(1)] assms(6) by fastforce
  then show ?thesis
    using forward_spec [OF assms(3), of frame mi ic len tos] assms(2,4,5)
    by (simp add: xdp_packetbalance_classify run_parsed_def Let_def)
qed

section \<open>The connection table\<close>

lemma conntrack_picked:
  "conntrack (picked k f vip cfg bs mi len m) =
     (let use_ct = uses_ct cfg vip; r = ring_lookup m (vip_id vip) (flow_hash f);
          val = \<lparr>ct_real_id = r, ct_vip_id = vip_id vip, last_seen_ns = ktime k\<rparr>;
          ct = the (conntrack_lookup m (cpu k) (flow_key f))
      in if \<not> use_ct then conntrack m
         else if \<not> bs \<and> ct_hit m (cpu k) f then
           conntrack (conntrack_store (cpu k) (flow_key f) (ct\<lparr>last_seen_ns := ktime k\<rparr>) m)
         else if mi \<and> r \<noteq> PB_REAL_NONE then ct_update k (cpu k) (flow_key f) val (conntrack m)
         else conntrack m)"
  by (auto simp: picked_def pick_real_cases pick_by_hash_sel Let_def conntrack_store_def)

lemma xdp_conntrack:
  assumes "xdp_packetbalance k frame m = ((act, m'), frame')"
  shows "conntrack m' = conntrack m \<or>
    (\<exists>f vip bs mi ic len tos. classify m frame = Fwd f vip bs mi ic len tos \<and> \<not> 3500 < len + 20 \<and>
       conntrack m' = conntrack (picked k f vip (config m) bs mi len m))"
proof (cases "classify m frame")
  case (Fwd f vip bs mi ic len tos)
  have fwd: "forward k frame f vip (config m) bs mi ic len tos m = ((act, m'), frame')"
    using assms Fwd by (simp add: xdp_packetbalance_classify run_parsed_def)
  then show ?thesis
    using Fwd unfolding forward_spec [OF refl]
    by (auto simp: drop_vip_def Let_def split: if_splits option.splits)
qed (use assms in \<open>auto simp: xdp_packetbalance_classify run_parsed_def drop_global_def pass_global_def count_global_def\<close>)

lemma flow_key_inject: "flow_key f = flow_key g \<longleftrightarrow> f = g"
  by (cases f; cases g) (simp add: flow_key_def)

lemma ct_live_same_table: "conntrack m' key = conntrack m key \<Longrightarrow> ct_live m' c key r = ct_live m c key r"
  by (simp add: ct_live_def conntrack_lookup_def)

lemma ct_live_other_cpu:
  assumes "conntrack m' key = Some vals'" "conntrack m key = Some vals" "vals' c = vals c"
  shows "ct_live m' c key r = ct_live m c key r"
  using assms by (simp add: ct_live_def conntrack_lookup_def)

lemma picked_table_cases:
  obtains (same) "conntrack (picked k f vip cfg bs mi len m) = conntrack m"
  | (hit) ct where "uses_ct cfg vip" "\<not> bs" "conntrack_lookup m (cpu k) (flow_key f) = Some ct"
      "last_seen_ns ct \<noteq> 0" "real_alive m (ct_real_id ct)"
      "conntrack (picked k f vip cfg bs mi len m) =
         (conntrack m)(flow_key f := map_option (\<lambda>vals. vals(cpu k := ct\<lparr>last_seen_ns := ktime k\<rparr>))
                                      (conntrack m (flow_key f)))"
  | (insert) "uses_ct cfg vip" "mi" "bs \<or> \<not> ct_hit m (cpu k) f" "ring_lookup m (vip_id vip) (flow_hash f) \<noteq> PB_REAL_NONE"
      "conntrack (picked k f vip cfg bs mi len m) =
         ct_update k (cpu k) (flow_key f)
           \<lparr>ct_real_id = ring_lookup m (vip_id vip) (flow_hash f), ct_vip_id = vip_id vip, last_seen_ns = ktime k\<rparr>
           (conntrack m)"
proof -
  consider (a) "\<not> uses_ct cfg vip" | (b) "uses_ct cfg vip" "\<not> bs" "ct_hit m (cpu k) f"
    | (c) "uses_ct cfg vip" "bs \<or> \<not> ct_hit m (cpu k) f" "mi" "ring_lookup m (vip_id vip) (flow_hash f) \<noteq> PB_REAL_NONE"
    | (d) "uses_ct cfg vip" "bs \<or> \<not> ct_hit m (cpu k) f" "\<not> mi \<or> ring_lookup m (vip_id vip) (flow_hash f) = PB_REAL_NONE"
    by blast
  then show thesis
  proof cases
    case b
    then obtain ct where "conntrack_lookup m (cpu k) (flow_key f) = Some ct" "last_seen_ns ct \<noteq> 0"
      "real_alive m (ct_real_id ct)"
      by (auto simp: ct_hit_def ct_live_def)
    then show thesis
      using b by (intro hit [of ct]) (simp_all add: conntrack_picked conntrack_store_def Let_def)
  next
    case c
    then show thesis
      by (intro insert) (auto simp: conntrack_picked Let_def)
  next
    case a
    then show thesis
      by (intro same) (simp add: conntrack_picked Let_def)
  next
    case d
    then show thesis
      by (intro same) (auto simp: conntrack_picked Let_def)
  qed
qed

lemma ct_update_other_cpu:
  assumes "kernel_ok k" "t key = Some vals" "c \<noteq> d" "ct_update k c key v t key \<noteq> None"
  shows "\<exists>vals'. ct_update k c key v t key = Some vals' \<and> vals' d = vals d"
  using ct_update_same [OF assms(1), of c key v t] assms(2-4) by (auto simp: ct_inserted_def)

lemma picked_keeps_live:
  assumes "kernel_ok k" "ct_live m c (flow_key f) r" "real_alive m r" "g = f \<Longrightarrow> bs \<Longrightarrow> cpu k \<noteq> c"
    "conntrack m' = conntrack (picked k g vip cfg bs mi len m)" "conntrack m' (flow_key f) \<noteq> None"
  shows "ct_live m' c (flow_key f) r"
proof -
  let ?key = "flow_key f"
  obtain vals where vals: "conntrack m ?key = Some vals" "last_seen_ns (vals c) \<noteq> 0" "ct_real_id (vals c) = r"
    using assms(2) by (auto simp: ct_live_def conntrack_lookup_def)
  have time: "ktime k \<noteq> 0"
    using assms(1) by (simp add: kernel_ok_def ktime_ok_def)
  show ?thesis
  proof (cases rule: picked_table_cases [of k g vip cfg bs mi len m])
    case same
    then show ?thesis
      using ct_live_same_table [of m' ?key m] assms(2,5) by simp
  next
    case (hit ct)
    then show ?thesis
      using vals time
      by (cases "g = f"; cases "cpu k = c")
        (auto simp: ct_live_def conntrack_lookup_def assms(5) flow_key_inject)
  next
    case insert
    show ?thesis
    proof (cases "g = f")
      case False
      then have "conntrack m' ?key = conntrack m ?key"
        using ct_update_other [OF assms(1), of ?key "flow_key g"] assms(5,6) insert(5) by (metis flow_key_inject)
      then show ?thesis
        using ct_live_same_table assms(2) by blast
    next
      case True
      have "cpu k \<noteq> c"
        using insert(3) True assms(2,3,4) by (auto simp: ct_hit_def)
      then obtain vals' where "conntrack m' ?key = Some vals'" "vals' c = vals c"
        using ct_update_other_cpu [OF assms(1), where t = "conntrack m" and key = ?key] vals(1) assms(5,6) insert(5) True
        by metis
      then show ?thesis
        using ct_live_other_cpu [OF _ vals(1)] assms(2) by simp
    qed
  qed
qed

lemma xdp_keeps_live:
  assumes "kernel_ok k" "ct_live m c (flow_key f) r" "real_alive m r"
    "\<And>vip mi ic len tos. classify m frame = Fwd f vip True mi ic len tos \<Longrightarrow> cpu k \<noteq> c"
    "xdp_packetbalance k frame m = ((act, m'), frame')" "conntrack m' (flow_key f) \<noteq> None"
  shows "ct_live m' c (flow_key f) r"
  using xdp_conntrack [OF assms(5)]
proof
  assume "conntrack m' = conntrack m"
  then show ?thesis
    using ct_live_same_table [of m' "flow_key f" m] assms(2) by simp
next
  assume "\<exists>f vip bs mi ic len tos. classify m frame = Fwd f vip bs mi ic len tos \<and> \<not> 3500 < len + 20 \<and>
       conntrack m' = conntrack (picked k f vip (config m) bs mi len m)"
  then obtain g vip bs mi ic len tos where g: "classify m frame = Fwd g vip bs mi ic len tos"
    "conntrack m' = conntrack (picked k g vip (config m) bs mi len m)"
    by blast
  show ?thesis
    using assms(4) g(1) by (intro picked_keeps_live [OF assms(1-3) _ g(2) assms(6)]) auto
qed

lemma flow_run_keeps_live:
  assumes "flow_run c f r m0 m" "ct_live m0 c (flow_key f) r"
  shows "ct_live m c (flow_key f) r"
  using assms
proof induction
  case (other_packet m k frame act m' frame')
  show ?case
    by (rule xdp_keeps_live [OF other_packet.hyps(2) other_packet.IH [OF other_packet.prems] other_packet.hyps(3) _
          other_packet.hyps(5,6)]) (rule other_packet.hyps(4))
next
  case (control_plane m m')
  then show ?case
    using ct_live_same_table [of m' "flow_key f" m] by simp
qed

lemma live_flow_forwarded:
  assumes "kernel_ok k" "ct_live m (cpu k) (flow_key f) r" "classify m frame = Fwd f vip False mi ic len tos"
    "uses_ct (config m) vip" "usable_real m r"
  shows "chosen_real m (cpu k) f (vip_id vip) (uses_ct (config m) vip) False = r"
proof -
  obtain ct where "conntrack_lookup m (cpu k) (flow_key f) = Some ct" "ct_real_id ct = r"
    using assms(2) by (auto simp: ct_live_def)
  moreover have "real_alive m r"
    using assms(5) by (simp add: usable_real_def real_alive_def not_le)
  ultimately show ?thesis
    using assms(2,4) by (auto simp: chosen_real_def ct_hit_def)
qed

lemma no_new_entries:
  assumes "kernel_ok k" "xdp_packetbalance k frame m = ((act, m'), frame')"
    "\<And>f vip bs mi ic len tos. classify m frame = Fwd f vip bs mi ic len tos \<Longrightarrow>
       \<not> mi \<or> 3500 < len + 20 \<or> \<not> uses_ct (config m) vip"
  shows "dom (conntrack m') = dom (conntrack m)"
  using xdp_conntrack [OF assms(2)]
proof
  assume "\<exists>f vip bs mi ic len tos. classify m frame = Fwd f vip bs mi ic len tos \<and> \<not> 3500 < len + 20 \<and>
       conntrack m' = conntrack (picked k f vip (config m) bs mi len m)"
  then obtain f vip bs mi ic len tos where f: "classify m frame = Fwd f vip bs mi ic len tos" "\<not> 3500 < len + 20"
    "conntrack m' = conntrack (picked k f vip (config m) bs mi len m)"
    by blast
  have no: "\<not> mi \<or> \<not> uses_ct (config m) vip"
    using assms(3) [OF f(1)] f(2) by blast
  show ?thesis
  proof (cases rule: picked_table_cases [of k f vip "config m" bs mi len m])
    case (hit ct)
    then show ?thesis
      by (auto simp: f(3) conntrack_lookup_def)
  qed (use no f(3) in auto)
qed simp

section \<open>A concrete load balancer\<close>

text \<open>
  One VIP, 198.51.100.1:80/tcp, with one real 10.0.0.21 in slot 1, and a client packet for
  it: the maps and the frame on which the claims are instantiated.
\<close>

definition demo_maps :: maps where
  "demo_maps =
     \<lparr>vip_map = [\<lparr>vk_addr = le32 198 51 100 1, vk_port = bswap16 80, vk_proto = 6, vk_pad = 0\<rparr> \<mapsto>
                 \<lparr>vip_id = 0, vip_flags = 0\<rparr>],
      rings = [0 \<mapsto> replicate (unat PB_RING_SIZE) 1],
      reals = (\<lambda>i. if i = 1 then \<lparr>real_addr = le32 10 0 0 21, real_flags = 0\<rparr> else zero_pb_real),
      neigh = (\<lambda>i. if i = 1 then \<lparr>mac = Mac 2 0 0 0 0 21, mac_pad = (0, 0)\<rparr> else zero_pb_mac),
      conntrack = Map.empty,
      stats = (\<lambda>_ _ _. 0),
      real_stats = (\<lambda>_ _. \<lparr>rs_packets = 0, rs_bytes = 0\<rparr>),
      config = \<lparr>lb_mac = Mac 2 0 0 0 0 1, encap_src_prefix = le32 10 99 0 0,
                encap_src_mask = le32 255 255 255 0, cfg_flags = 0\<rparr>\<rparr>"

text \<open>Ethernet, IPv4 (40 bytes, no payload), TCP from 10.0.0.1:12345 with the given flags.\<close>

definition demo_frame :: "u8 \<Rightarrow> u8 list" where
  "demo_frame flags =
     [2, 0, 0, 0, 0, 1, 2, 0, 0, 0, 0, 2, 8, 0] @
     [0x45, 0, 0, 40, 0, 0, 0x40, 0, 64, 6, 0, 0, 10, 0, 0, 1, 198, 51, 100, 1] @
     [0x30, 0x39, 0, 80, 0, 0, 0, 0, 0, 0, 0, 0, 0x50, flags, 0, 0, 0, 0, 0, 0]"

definition demo_flow :: pb_flow where
  "demo_flow = \<lparr>f_saddr = le32 10 0 0 1, f_daddr = le32 198 51 100 1, f_sport = bswap16 12345,
                f_dport = bswap16 80, f_proto = 6\<rparr>"

lemma demo_classify:
  "classify (demo_maps\<lparr>conntrack := t, rings := g\<rparr>) (demo_frame flags) =
   Fwd demo_flow \<lparr>vip_id = 0, vip_flags = 0\<rparr> (bit flags 1 \<and> \<not> bit flags 4) (\<not> bit flags 2) False 40 0"
proof -
  have nth: "demo_frame flags ! 12 = 8" "demo_frame flags ! 13 = 0" "demo_frame flags ! 14 = 0x45"
    "demo_frame flags ! 15 = 0" "demo_frame flags ! 16 = 0" "demo_frame flags ! 17 = 40"
    "demo_frame flags ! 20 = 0x40" "demo_frame flags ! 21 = 0" "demo_frame flags ! 23 = 6"
    "demo_frame flags ! 26 = 10" "demo_frame flags ! 27 = 0" "demo_frame flags ! 28 = 0" "demo_frame flags ! 29 = 1"
    "demo_frame flags ! 30 = 198" "demo_frame flags ! 31 = 51" "demo_frame flags ! 32 = 100" "demo_frame flags ! 33 = 1"
    "demo_frame flags ! 34 = 0x30" "demo_frame flags ! 35 = 0x39" "demo_frame flags ! 36 = 0" "demo_frame flags ! 37 = 80"
    "demo_frame flags ! 47 = flags" "length (demo_frame flags) = 54"
    by (simp_all add: demo_frame_def)
  have sw: "bswap16 40 = le16 0 40" "bswap16 12345 = le16 0x30 0x39" "bswap16 80 = le16 0 80" "bswap16 0x3FFF = 0xFF3F"
    by (simp_all add: bswap16_def byte16_def le16_def)
  have "bswap16 (le16 0 40) = 40"
    by (simp only: sw(1) [symmetric] bswap16_bswap16)
  then show ?thesis
    by (simp add: classify_def classify_vip_def tcp_udp_flow_def demo_flow_def demo_maps_def Let_def
        ld8_def ld16_def ld32_def ip_version_def ip_ihl_def ip_tos_def ip_tot_len_def ip_frag_off_def
        ip_protocol_def ip_saddr_def ip_daddr_def tcp_syn_def tcp_rst_def tcp_ack_def nth sw)
      (simp add: le16_def)
qed

abbreviation (input) "demo_ct \<equiv>
  [flow_key demo_flow \<mapsto> (\<lambda>c. if c = 0 then \<lparr>ct_real_id = 1, ct_vip_id = 0, last_seen_ns = 5\<rparr> else zero_ct_value)]"

abbreviation (input) "tracked_maps \<equiv> demo_maps\<lparr>conntrack := demo_ct, rings := Map.empty\<rparr>"

abbreviation (input) "demo_kernel \<equiv> plain_kernel 0 7"

lemma demo_kernel_ok: "kernel_ok demo_kernel"
  by (rule plain_kernel_ok) simp

lemma demo_simps:
  "demo_maps\<lparr>conntrack := Map.empty, rings := rings demo_maps\<rparr> = demo_maps"
  "adjust_head demo_kernel frame \<noteq> None" "cpu demo_kernel = 0" "cfg_flags (config demo_maps) = 0"
  "usable_real (demo_maps\<lparr>conntrack := t, rings := g\<rparr>) 1"
  "ring_lookup demo_maps 0 h = 1" "stats demo_maps = (\<lambda>_ _ _. 0)" "vips_in_range demo_maps"
  "uses_ct (config demo_maps) \<lparr>vip_id = 0, vip_flags = 0\<rparr>"
proof -
  have "unat (h mod PB_RING_SIZE) < unat PB_RING_SIZE"
    by (simp only: unat_mod) (rule mod_less_divisor, simp)
  then show "ring_lookup demo_maps 0 h = 1"
    by (simp add: ring_lookup_def rings_lookup_def demo_maps_def ring_slot_lookup_def PB_MAX_VIPS_def
        del: unat_consts)
qed (simp_all add: demo_maps_def plain_kernel_def usable_real_def PB_MAX_REALS_def zero_mac_def le32_def
      vips_in_range_def PB_MAX_VIPS_def uses_ct_def)

lemma demo_classify_plain:
  "classify demo_maps (demo_frame flags) =
   Fwd demo_flow \<lparr>vip_id = 0, vip_flags = 0\<rparr> (bit flags 1 \<and> \<not> bit flags 4) (\<not> bit flags 2) False 40 0"
  using demo_classify [where t = Map.empty and g = "rings demo_maps"] by (simp only: demo_simps)

lemma demo_chosen: "chosen_real demo_maps 0 demo_flow 0 ct bs = 1"
proof -
  have "\<not> ct_hit demo_maps 0 demo_flow"
    by (simp add: ct_hit_def ct_live_def conntrack_lookup_def demo_maps_def)
  then show ?thesis
    by (simp add: chosen_real_def demo_simps)
qed

lemma demo_run: "\<exists>m' frame'. xdp_packetbalance demo_kernel (demo_frame flags) demo_maps = ((XDP_TX, m'), frame')"
proof (rule forward_TX [OF demo_kernel_ok demo_classify_plain refl])
  show "usable_real demo_maps (chosen_real demo_maps (cpu demo_kernel) demo_flow
      (vip_id \<lparr>vip_id = 0, vip_flags = 0\<rparr>) (uses_ct (config demo_maps) \<lparr>vip_id = 0, vip_flags = 0\<rparr>)
      (bit flags 1 \<and> \<not> bit flags 4))"
    using demo_simps(5) [where t = Map.empty and g = "rings demo_maps"] by (simp add: demo_simps demo_chosen)
qed (simp_all add: demo_simps)

lemma demo_live: "ct_live tracked_maps 0 (flow_key demo_flow) 1"
  by (simp add: ct_live_def conntrack_lookup_def)

section \<open>Claims\<close>

text \<open>
  C22.  Every frame is accounted for exactly once: one run increments exactly one of the
  verdict counters (TX, PASS or one of the drop counters), the one that matches the returned
  action, by one, on the CPU it ran on, in the slot of a VIP or the global slot; no other
  verdict counter of any CPU changes.
\<close>

theorem xdp_accounts_once:
  assumes "vips_in_range m" "xdp_packetbalance k frame m = ((act, m'), frame')"
  shows "\<exists>idx cnt. cnt \<in> verdict_counters act \<and> idx \<le> PB_STATS_GLOBAL \<and>
    (\<forall>c i x. x \<in> all_verdicts \<longrightarrow>
       stats m' c i x = stats m c i x + (if c = cpu k \<and> i = idx \<and> x = cnt then 1 else 0))"
  using assms by (rule xdp_one_counter)

theorem xdp_accounts_once_witness:
  "\<exists>m' frame' idx. xdp_packetbalance demo_kernel (demo_frame 2) demo_maps = ((XDP_TX, m'), frame') \<and>
     stats m' 0 idx PB_CNT_TX = 1"
proof -
  obtain m' frame' where run: "xdp_packetbalance demo_kernel (demo_frame 2) demo_maps = ((XDP_TX, m'), frame')"
    using demo_run by blast
  show ?thesis
    using xdp_accounts_once [OF demo_simps(8) run] run by (auto simp: demo_simps all_verdicts_def)
qed

text \<open>
  C20.  The frame that leaves is right: an XDP_TX frame is Ethernet to the MAC of the chosen
  real, an outer IPv4 header with a correct checksum, a source inside the configured prefix
  and the real's address as destination, and then the original IP packet, untouched; the
  real has an id in range, an address and a resolved MAC.  The chosen real is the one of
  the flow's live table entry, or the ring's.
\<close>

theorem tx_frame_correct:
  assumes "kernel_ok k" "xdp_packetbalance k frame m = ((XDP_TX, m'), frame')"
  shows "\<exists>f vip bs mi ic len tos r src check.
    classify m frame = Fwd f vip bs mi ic len tos \<and>
    r = chosen_real m (cpu k) f (vip_id vip) (uses_ct (config m) vip) bs \<and> usable_real m r \<and>
    src AND encap_src_mask (config m) = encap_src_prefix (config m) AND encap_src_mask (config m) \<and>
    header_checksum_ok (outer_header src (real_addr (reals m r)) (ucast (len + 20)) tos check) \<and>
    frame' = tunnel_frame (mac (neigh m r)) (lb_mac (config m))
       (outer_header src (real_addr (reals m r)) (ucast (len + 20)) tos check) (drop 14 frame) \<and>
    length frame' = length frame + 20"
proof -
  obtain f vip bs mi ic len tos r check where tx:
    "classify m frame = Fwd f vip bs mi ic len tos"
    "r = chosen_real m (cpu k) f (vip_id vip) (uses_ct (config m) vip) bs" "usable_real m r"
    "header_checksum_ok (outer_header (outer_source (config m) (flow_hash f)) (real_addr (reals m r)) (ucast (len + 20)) tos check)"
    "frame' = tunnel_frame (mac (neigh m r)) (lb_mac (config m))
       (outer_header (outer_source (config m) (flow_hash f)) (real_addr (reals m r)) (ucast (len + 20)) tos check) (drop 14 frame)"
    by (rule xdp_TX [OF assms]) blast
  moreover have "length frame' = length frame + 20"
    using classify_Fwd(1) [OF tx(1)] by (simp add: tx(5) tunnel_frame_def)
  ultimately show ?thesis
    using outer_source_prefix by blast
qed

theorem tx_frame_correct_witness:
  "\<exists>m' frame'. xdp_packetbalance demo_kernel (demo_frame 2) demo_maps = ((XDP_TX, m'), frame') \<and> length frame' = 74"
proof -
  obtain m' frame' where run: "xdp_packetbalance demo_kernel (demo_frame 2) demo_maps = ((XDP_TX, m'), frame')"
    using demo_run by blast
  have "length (demo_frame 2) = 54"
    by (simp add: demo_frame_def)
  then show ?thesis
    using tx_frame_correct [OF demo_kernel_ok run] run by auto
qed

text \<open>
  C19.  Connection affinity: once a flow has a live entry for real \<open>r\<close> on a CPU, then after
  any sequence of packets of any flow on any CPU and any changes of the control plane
  (rings, VIPs, weights, health), as long as the entry is not evicted, \<open>r\<close> is not deleted
  and the flow does not open a new connection, the next packet of the flow on that CPU is
  sent to \<open>r\<close>.
\<close>

theorem flow_affinity:
  assumes "ct_live m0 (cpu k) (flow_key f) r" "flow_run (cpu k) f r m0 m" "kernel_ok k"
    "classify m frame = Fwd f vip False mi ic len tos" "uses_ct (config m) vip" "usable_real m r"
    "\<not> 3500 < len + 20" "adjust_head k frame \<noteq> None"
  shows "\<exists>m' hdr. xdp_packetbalance k frame m =
    ((XDP_TX, m'), tunnel_frame (mac (neigh m r)) (lb_mac (config m)) hdr (drop 14 frame)) \<and>
    ct_live m' (cpu k) (flow_key f) r"
proof -
  have live: "ct_live m (cpu k) (flow_key f) r"
    using flow_run_keeps_live [OF assms(2,1)] .
  note chosen = live_flow_forwarded [OF assms(3) live assms(4-6)]
  obtain m' frame' where run: "xdp_packetbalance k frame m = ((XDP_TX, m'), frame')"
    using forward_TX [OF assms(3,4) chosen [symmetric] assms(6-8)] by blast
  obtain f' vip' bs' mi' ic' len' tos' r' check where tx: "classify m frame = Fwd f' vip' bs' mi' ic' len' tos'"
    "r' = chosen_real m (cpu k) f' (vip_id vip') (uses_ct (config m) vip') bs'"
    "frame' = tunnel_frame (mac (neigh m r')) (lb_mac (config m))
       (outer_header (outer_source (config m) (flow_hash f')) (real_addr (reals m r')) (ucast (len' + 20)) tos' check) (drop 14 frame)"
    "m' = sent k (stats_slot (vip_id vip')) ic' r' len' (picked k f' vip' (config m) bs' mi' len' m)"
    by (rule xdp_TX [OF assms(3) run]) blast
  have same: "f' = f" "vip' = vip" "bs' = False" "r' = r"
    using tx(1,2) assms(4) chosen by simp_all
  have alive: "real_alive m r"
    using assms(6) by (simp add: usable_real_def real_alive_def not_le)
  have "conntrack m' (flow_key f) \<noteq> None"
  proof -
    have "ct_hit m (cpu k) f"
      using live alive by (auto simp: ct_hit_def)
    then show ?thesis
      using live assms(5)
      by (auto simp: tx(4) same conntrack_picked Let_def conntrack_store_def ct_live_def conntrack_lookup_def)
  qed
  then have "ct_live m' (cpu k) (flow_key f) r"
    using xdp_keeps_live [OF assms(3) live alive _ run] assms(4) by simp
  then show ?thesis
    using run tx(3) same(4) by blast
qed

theorem flow_affinity_witness:
  "\<exists>m' hdr. xdp_packetbalance demo_kernel (demo_frame 16) tracked_maps =
    ((XDP_TX, m'), tunnel_frame (Mac 2 0 0 0 0 21) (Mac 2 0 0 0 0 1) hdr (drop 14 (demo_frame 16)))"
proof -
  have "ct_live tracked_maps (cpu demo_kernel) (flow_key demo_flow) 1"
    using demo_live by (simp add: demo_simps)
  moreover have "classify tracked_maps (demo_frame 16) = Fwd demo_flow \<lparr>vip_id = 0, vip_flags = 0\<rparr> False True False 40 0"
    by (simp only: demo_classify) (simp add: bit_numeral_simps)
  moreover have "config tracked_maps = config demo_maps" "mac (neigh tracked_maps 1) = Mac 2 0 0 0 0 21"
    "lb_mac (config tracked_maps) = Mac 2 0 0 0 0 1"
    by (simp_all add: demo_maps_def)
  ultimately show ?thesis
    using flow_affinity [OF _ flow_run.begin_run demo_kernel_ok, of tracked_maps demo_flow 1 "demo_frame 16"
        "\<lparr>vip_id = 0, vip_flags = 0\<rparr>" True False 40 0] demo_simps(2,5,9)
    by auto
qed

text \<open>
  C21.  The counters of a VIP always add up, on every CPU and modulo the width of a counter:
  from cleared counters, after any sequence of packets, control-plane changes and resets,
  packets = transmitted + dropped (too long, no real, no headroom), and also
  packets = table hits + hash choices + dropped as too long.
\<close>

theorem vip_counters_add_up:
  assumes "dp_run m0 m" "\<forall>c i x. stats m0 c i x = 0" "i < PB_MAX_VIPS"
  shows "stats m c i PB_CNT_PACKETS =
           stats m c i PB_CNT_TX + stats m c i PB_CNT_DROP_MTU + stats m c i PB_CNT_DROP_NO_REAL +
           stats m c i PB_CNT_DROP_ADJ_HEAD \<and>
         stats m c i PB_CNT_PACKETS =
           stats m c i PB_CNT_CT_HIT + stats m c i PB_CNT_HASH + stats m c i PB_CNT_DROP_MTU"
proof -
  have "outcome_balance (stats m c i) = 0 \<and> choice_balance (stats m c i) = 0"
    using dp_run_balances [OF assms(1) _ assms(3)] assms(2) by blast
  then show ?thesis
    unfolding outcome_balance_def choice_balance_def eq_iff_diff_eq_0 [symmetric] .
qed

theorem vip_counters_add_up_witness:
  "\<exists>m' frame'. xdp_packetbalance demo_kernel (demo_frame 2) demo_maps = ((XDP_TX, m'), frame') \<and>
     stats m' 0 0 PB_CNT_PACKETS = stats m' 0 0 PB_CNT_CT_HIT + stats m' 0 0 PB_CNT_HASH + stats m' 0 0 PB_CNT_DROP_MTU"
proof -
  obtain m' frame' where run: "xdp_packetbalance demo_kernel (demo_frame 2) demo_maps = ((XDP_TX, m'), frame')"
    using demo_run by blast
  have "dp_run demo_maps m'"
    by (rule dp_run.packet [OF dp_run.start demo_simps(8) run])
  moreover have "\<forall>c i x. stats demo_maps c i x = 0" "0 < PB_MAX_VIPS"
    by (simp_all add: demo_simps PB_MAX_VIPS_def)
  ultimately show ?thesis
    using vip_counters_add_up [of demo_maps m' 0 0] run by blast
qed

text \<open>
  C23.  Packets that must not create connection state do not: for a TCP reset, an ICMP
  message, a packet that is too long, a packet of a VIP without connection tracking, and
  for everything that is passed or dropped before a VIP is found, the set of tracked flows
  is the same after the run.
\<close>

theorem no_state_from_stray_packets:
  assumes "kernel_ok k" "xdp_packetbalance k frame m = ((act, m'), frame')"
    "\<And>f vip bs mi ic len tos. classify m frame = Fwd f vip bs mi ic len tos \<Longrightarrow>
       \<not> mi \<or> ic \<or> 3500 < len + 20 \<or> \<not> uses_ct (config m) vip"
  shows "dom (conntrack m') = dom (conntrack m)"
proof (rule no_new_entries [OF assms(1,2)])
  fix f vip bs mi ic len tos
  assume "classify m frame = Fwd f vip bs mi ic len tos"
  then show "\<not> mi \<or> 3500 < len + 20 \<or> \<not> uses_ct (config m) vip"
    using assms(3) classify_Fwd(6) by blast
qed

theorem no_state_from_stray_packets_witness:
  "\<exists>m' frame'. xdp_packetbalance demo_kernel (demo_frame 4) demo_maps = ((XDP_TX, m'), frame') \<and>
     dom (conntrack m') = {}"
proof -
  obtain m' frame' where run: "xdp_packetbalance demo_kernel (demo_frame 4) demo_maps = ((XDP_TX, m'), frame')"
    using demo_run by blast
  have "dom (conntrack m') = dom (conntrack demo_maps)"
    by (rule no_state_from_stray_packets [OF demo_kernel_ok run]) (simp add: demo_classify_plain bit_numeral_simps)
  then show ?thesis
    using run by (simp add: demo_maps_def)
qed

lemma forward_control_maps:
  assumes "forward k frame f vip cfg bs mi ic len tos m = ((act, m'), frame')"
  shows "vip_map m' = vip_map m \<and> rings m' = rings m \<and> reals m' = reals m \<and> neigh m' = neigh m \<and>
         config m' = config m" "act \<noteq> XDP_TX \<Longrightarrow> frame' = frame" "act \<noteq> XDP_PASS"
  using assms unfolding forward_spec [OF refl]
  by (auto simp: drop_vip_def Let_def split: if_splits option.splits)

text \<open>
  C24.  The data plane only writes its own maps: no run changes the VIP table, the rings, the
  reals, the neighbours or the configuration; a frame that is not transmitted is unchanged;
  and a frame handed to the stack leaves the connection table and the per-real counters
  alone.
\<close>

theorem data_plane_writes:
  assumes "xdp_packetbalance k frame m = ((act, m'), frame')"
  shows "vip_map m' = vip_map m \<and> rings m' = rings m \<and> reals m' = reals m \<and> neigh m' = neigh m \<and>
    config m' = config m \<and> (act \<noteq> XDP_TX \<longrightarrow> frame' = frame) \<and>
    (act = XDP_PASS \<longrightarrow> conntrack m' = conntrack m \<and> real_stats m' = real_stats m)"
proof (cases "classify m frame")
  case (Fwd f vip bs mi ic len tos)
  then have "forward k frame f vip (config m) bs mi ic len tos m = ((act, m'), frame')"
    using assms by (simp add: xdp_packetbalance_classify run_parsed_def)
  from forward_control_maps [OF this] show ?thesis
    by blast
qed (use assms in \<open>auto simp: xdp_packetbalance_classify run_parsed_def drop_global_def pass_global_def count_global_def\<close>)

theorem data_plane_writes_witness:
  "\<exists>m' frame'. xdp_packetbalance demo_kernel (demo_frame 2) demo_maps = ((XDP_TX, m'), frame') \<and>
     vip_map m' = vip_map demo_maps"
  using demo_run [of 2] data_plane_writes by blast

end
