(* ===== verification/Config.thy ===== *)
theory Config
  imports Maglev_Ring
begin

text \<open>
  \<^verbatim>\<open>include/packetbalance/config.h\<close> and \<^verbatim>\<open>src/core/config.cpp\<close>: the daemon's configuration.

  \<^verbatim>\<open>yaml-cpp\<close> is not part of the repository.  It is a record of functions, an argument of the
  parser: loading a document, the kind of a node, iteration, member access (\<open>None\<close> for an
  undefined node) and the conversions, which fail with the text of a \<^verbatim>\<open>YAML::Exception\<close>.
  Nothing is assumed about it.

  The lemmas say which CIDR texts are accepted and that printing and parsing are inverse,
  that \<^verbatim>\<open>validate_config\<close> accepts exactly the configurations its header describes, and that
  whatever the YAML library does, \<^verbatim>\<open>parse_config\<close> returns a valid configuration or a
  runtime error.
\<close>

section \<open>Data\<close>

datatype xdp_mode = Native | Generic | Auto

datatype cidr = Cidr (prefix_be: u32) (mask_be: u32) (cidr_len: u8)

record real_config =
  rc_addr :: u32
  rc_weight :: u32

record vip_config =
  vc_spec :: vip_spec
  vc_no_conntrack :: bool
  vc_reals :: "real_config list"

record health_config =
  hc_enabled :: bool
  hc_interval_ms :: u32
  hc_timeout_ms :: u32
  hc_fall :: u32
  hc_rise :: u32

record config_data =
  c_interface :: string
  c_xdp_mode :: xdp_mode
  c_hash :: hash_mode
  c_encap_src :: cidr
  c_next_hop :: "u32 option"
  c_conntrack_enabled :: bool
  c_conntrack_size :: u32
  c_icmp_pmtu :: bool
  c_socket :: string
  c_pin_path :: string
  c_metrics_listen :: string
  c_health :: health_config
  c_vips :: "vip_config list"

definition default_health :: health_config where
  "default_health = \<lparr>hc_enabled = True, hc_interval_ms = 1000, hc_timeout_ms = 500, hc_fall = 3, hc_rise = 2\<rparr>"

definition default_config :: config_data where
  "default_config =
     \<lparr>c_interface = [], c_xdp_mode = Auto, c_hash = Maglev, c_encap_src = Cidr 0 0 0, c_next_hop = None,
      c_conntrack_enabled = True, c_conntrack_size = PB_CT_DEFAULT_SIZE, c_icmp_pmtu = False,
      c_socket = ''/run/packetbalance.sock'', c_pin_path = ''/sys/fs/bpf/packetbalance'',
      c_metrics_listen = ''127.0.0.1:9101'', c_health = default_health, c_vips = []\<rparr>"

definition kMaxRealWeight :: u32 where "kMaxRealWeight = 1000"

section \<open>Scalars\<close>

definition parse_xdp_mode :: "string \<Rightarrow> xdp_mode result" where
  "parse_xdp_mode s =
     (if s = ''native'' then Inr Native
      else if s = ''generic'' then Inr Generic
      else if s = ''auto'' then Inr Auto
      else Inl (InvalidArgument (''bad xdp_mode (native|generic|auto): '' @ s)))"

definition xdp_mode_name :: "xdp_mode \<Rightarrow> string" where
  "xdp_mode_name m = (case m of Native \<Rightarrow> ''native'' | Generic \<Rightarrow> ''generic'' | Auto \<Rightarrow> ''auto'')"

definition Cidr_str :: "cidr \<Rightarrow> string" where
  "Cidr_str c = ipv4_to_string (prefix_be c) @ ''/'' @ to_string (unat (cidr_len c))"

definition net_mask :: "nat \<Rightarrow> u32" where
  "net_mask len =
     (let host_mask = (if len = 0 then 0 else push_bit (32 - len) (NOT 0)) :: u32
      in le32 (byte32 3 host_mask) (byte32 2 host_mask) (byte32 1 host_mask) (byte32 0 host_mask))"

definition parse_cidr :: "string \<Rightarrow> cidr result" where
  "parse_cidr s =
     (case find_char (CHR ''/'') s of
        None \<Rightarrow> Inl (InvalidArgument (''bad CIDR, want ADDR/LEN: '' @ s))
      | Some slash \<Rightarrow>
        (let len_str = drop (slash + 1) s
         in if len_str = [] \<or> length len_str > 2 \<or> \<not> list_all isdigit len_str
            then Inl (InvalidArgument (''bad CIDR prefix length: '' @ s))
            else
              (let len = dec_val 0 len_str
               in if len > 32 then Inl (InvalidArgument (''bad CIDR prefix length: '' @ s))
                  else bind_result (parse_ipv4 (take slash s)) (\<lambda>addr.
                    (let mask_be = net_mask len
                     in Inr (Cidr (addr AND mask_be) mask_be (of_nat len)))))))"

section \<open>Validation\<close>

fun reals_loop ::
  "vip_spec \<Rightarrow> real_config list \<Rightarrow> u32 set \<Rightarrow> u32 set \<Rightarrow> u32 set result" where
  "reals_loop spec [] seen_reals all_reals = Inr all_reals"
| "reals_loop spec (r # rs) seen_reals all_reals =
     (if rc_addr r = 0 then Inl (RuntimeError (''config: real 0.0.0.0 on '' @ VipSpec_str spec))
      else if rc_addr r \<in> seen_reals then
        Inl (RuntimeError (''config: duplicate real '' @ ipv4_to_string (rc_addr r) @ '' on '' @ VipSpec_str spec))
      else if rc_weight r > kMaxRealWeight then
        Inl (RuntimeError (''config: weight of '' @ ipv4_to_string (rc_addr r) @ '' exceeds '' @
                           to_string (unat kMaxRealWeight)))
      else reals_loop spec rs (insert (rc_addr r) seen_reals) (insert (rc_addr r) all_reals))"

fun vips_loop :: "vip_config list \<Rightarrow> vip_spec set \<Rightarrow> u32 set \<Rightarrow> u32 set result" where
  "vips_loop [] seen_vips all_reals = Inr all_reals"
| "vips_loop (v # vs) seen_vips all_reals =
     (if vc_spec v \<in> seen_vips then Inl (RuntimeError (''config: duplicate vip '' @ VipSpec_str (vc_spec v)))
      else bind_result (reals_loop (vc_spec v) (vc_reals v) {} all_reals) (\<lambda>all_reals.
        vips_loop vs (insert (vc_spec v) seen_vips) all_reals))"

definition validate_config :: "config_data \<Rightarrow> unit result" where
  "validate_config cfg =
     (let h = c_health cfg
      in if c_interface cfg = [] then Inl (RuntimeError ''config: `interface` is required'')
      else if cidr_len (c_encap_src cfg) = 0 then
        Inl (RuntimeError ''config: `encap_src_prefix` is required and must not be /0'')
      else if c_conntrack_size cfg = 0 then Inl (RuntimeError ''config: conntrack.size must be > 0'')
      else if hc_interval_ms h = 0 \<or> hc_timeout_ms h = 0 \<or> hc_fall h = 0 \<or> hc_rise h = 0 then
        Inl (RuntimeError ''config: health_check values must be > 0'')
      else if hc_timeout_ms h > hc_interval_ms h then
        Inl (RuntimeError ''config: health_check.timeout_ms must be <= interval_ms'')
      else if length (c_vips cfg) > unat PB_MAX_VIPS then
        Inl (RuntimeError (''config: too many vips (max '' @ to_string (unat PB_MAX_VIPS) @ '')''))
      else bind_result (vips_loop (c_vips cfg) {} {}) (\<lambda>all_reals.
        if card all_reals > unat (PB_MAX_REALS - 1) then
          Inl (RuntimeError (''config: too many distinct reals (max '' @ to_string (unat (PB_MAX_REALS - 1)) @ '')''))
        else Inr ()))"

section \<open>The YAML document\<close>

record 'n yaml_api =
  y_load :: "string \<Rightarrow> string + 'n"
  y_is_map :: "'n \<Rightarrow> bool"
  y_is_null :: "'n \<Rightarrow> bool"
  y_is_sequence :: "'n \<Rightarrow> bool"
  y_keys :: "'n \<Rightarrow> 'n list"
  y_get :: "'n \<Rightarrow> string \<Rightarrow> 'n option"
  y_elems :: "'n \<Rightarrow> 'n list"
  y_string :: "'n \<Rightarrow> string + string"
  y_bool :: "'n \<Rightarrow> string + bool"
  y_int :: "'n \<Rightarrow> string + int"
  y_uint32 :: "'n \<Rightarrow> string + u32"
  y_long_long :: "'n \<Rightarrow> string + int"

text \<open>An uncaught \<^verbatim>\<open>YAML::Exception\<close> is a \<^verbatim>\<open>std::runtime_error\<close> with the library's text.\<close>

definition yaml_error :: "string + 'a \<Rightarrow> 'a result" where
  "yaml_error r = (case r of Inl what \<Rightarrow> Inl (RuntimeError what) | Inr x \<Rightarrow> Inr x)"

fun keys_loop :: "'n yaml_api \<Rightarrow> string \<Rightarrow> string list \<Rightarrow> 'n list \<Rightarrow> unit result" where
  "keys_loop Y pos allowed [] = Inr ()"
| "keys_loop Y pos allowed (k # ks) =
     bind_result (yaml_error (y_string Y k)) (\<lambda>key.
       if key \<in> set allowed then keys_loop Y pos allowed ks
       else Inl (RuntimeError (''config: unknown key `'' @ pos @ key @ ''`'')))"

definition check_keys :: "'n yaml_api \<Rightarrow> 'n \<Rightarrow> string \<Rightarrow> string list \<Rightarrow> unit result" where
  "check_keys Y node pos allowed =
     (if \<not> y_is_map Y node then Inl (RuntimeError (''config: `'' @ pos @ ''` must be a mapping''))
      else keys_loop Y pos allowed (y_keys Y node))"

definition get :: "'n yaml_api \<Rightarrow> ('n \<Rightarrow> string + 'a) \<Rightarrow> 'n \<Rightarrow> string \<Rightarrow> string \<Rightarrow> 'a \<Rightarrow> 'a result" where
  "get Y conv node key pos fallback =
     (case y_get Y node key of
        None \<Rightarrow> Inr fallback
      | Some v \<Rightarrow>
          (case conv v of
             Inl _ \<Rightarrow> Inl (RuntimeError (''config: bad value for `'' @ pos @ key @ ''`''))
           | Inr x \<Rightarrow> Inr x))"

definition require :: "'n yaml_api \<Rightarrow> ('n \<Rightarrow> string + 'a) \<Rightarrow> 'a \<Rightarrow> 'n \<Rightarrow> string \<Rightarrow> string \<Rightarrow> 'a result" where
  "require Y conv zero node key pos =
     (if y_get Y node key = None then Inl (RuntimeError (''config: `'' @ pos @ key @ ''` is required''))
      else get Y conv node key pos zero)"

definition with_key :: "string \<Rightarrow> 'a result \<Rightarrow> 'a result" where
  "with_key key r =
     (case r of
        Inl (InvalidArgument what) \<Rightarrow> Inl (RuntimeError (''config: `'' @ key @ ''`: '' @ what))
      | _ \<Rightarrow> r)"

definition parse_proto :: "string \<Rightarrow> string \<Rightarrow> u8 result" where
  "parse_proto s pos =
     (if s = ''tcp'' then Inr 6
      else if s = ''udp'' then Inr 17
      else Inl (RuntimeError (''config: `'' @ pos @ ''proto` must be tcp or udp, got '' @ s)))"

definition parse_real :: "'n yaml_api \<Rightarrow> string \<Rightarrow> 'n \<Rightarrow> nat \<Rightarrow> real_config result" where
  "parse_real Y pos n i =
     (let rpos = pos @ ''reals['' @ to_string i @ ''].''
      in bind_result (check_keys Y n rpos [''address'', ''weight'']) (\<lambda>_.
         bind_result (with_key (rpos @ ''address'')
           (bind_result (require Y (y_string Y) [] n ''address'' rpos) parse_ipv4)) (\<lambda>addr.
         bind_result (get Y (y_int Y) n ''weight'' rpos 1) (\<lambda>w.
         if w < 0 then Inl (RuntimeError (''config: `'' @ rpos @ ''weight` must be >= 0''))
         else Inr \<lparr>rc_addr = addr, rc_weight = of_int w\<rparr>))))"

fun parse_reals :: "'n yaml_api \<Rightarrow> string \<Rightarrow> 'n list \<Rightarrow> nat \<Rightarrow> real_config list result" where
  "parse_reals Y pos [] i = Inr []"
| "parse_reals Y pos (n # ns) i =
     bind_result (parse_real Y pos n i) (\<lambda>r.
     bind_result (parse_reals Y pos ns (i + 1)) (\<lambda>rs. Inr (r # rs)))"

definition parse_vip :: "'n yaml_api \<Rightarrow> 'n \<Rightarrow> nat \<Rightarrow> vip_config result" where
  "parse_vip Y n index =
     (let pos = ''vips['' @ to_string index @ ''].''
      in bind_result (check_keys Y n pos [''address'', ''port'', ''proto'', ''no_conntrack'', ''reals'']) (\<lambda>_.
         bind_result (with_key (pos @ ''address'')
           (bind_result (require Y (y_string Y) [] n ''address'' pos) parse_ipv4)) (\<lambda>addr.
         bind_result (require Y (y_int Y) 0 n ''port'' pos) (\<lambda>port.
         if port < 1 \<or> port > 65535 then Inl (RuntimeError (''config: `'' @ pos @ ''port` out of range''))
         else
         bind_result (bind_result (require Y (y_string Y) [] n ''proto'' pos) (\<lambda>s. parse_proto s pos)) (\<lambda>pr.
         bind_result (get Y (y_bool Y) n ''no_conntrack'' pos False) (\<lambda>no_ct.
         bind_result
           (case y_get Y n ''reals'' of
              None \<Rightarrow> Inr []
            | Some rs \<Rightarrow>
                (if y_is_null Y rs then Inr []
                 else if \<not> y_is_sequence Y rs then
                   Inl (RuntimeError (''config: `'' @ pos @ ''reals` must be a list''))
                 else parse_reals Y pos (y_elems Y rs) 0)) (\<lambda>reals.
         Inr \<lparr>vc_spec = VipSpec addr (port_to_be (of_int port)) pr, vc_no_conntrack = no_ct, vc_reals = reals\<rparr>)))))))"

fun parse_vips :: "'n yaml_api \<Rightarrow> 'n list \<Rightarrow> nat \<Rightarrow> vip_config list result" where
  "parse_vips Y [] i = Inr []"
| "parse_vips Y (n # ns) i =
     bind_result (parse_vip Y n i) (\<lambda>v.
     bind_result (parse_vips Y ns (i + 1)) (\<lambda>vs. Inr (v # vs)))"

definition parse_conntrack :: "'n yaml_api \<Rightarrow> 'n \<Rightarrow> config_data \<Rightarrow> config_data result" where
  "parse_conntrack Y doc c =
     (case y_get Y doc ''conntrack'' of
        None \<Rightarrow> Inr c
      | Some ct \<Rightarrow>
         bind_result (check_keys Y ct ''conntrack.'' [''enabled'', ''size'']) (\<lambda>_.
         bind_result (get Y (y_bool Y) ct ''enabled'' ''conntrack.'' True) (\<lambda>en.
         bind_result (get Y (y_long_long Y) ct ''size'' ''conntrack.'' (uint PB_CT_DEFAULT_SIZE)) (\<lambda>size.
         if size \<le> 0 \<or> size > 134217728 then
           Inl (RuntimeError ''config: `conntrack.size` must be in 1..134217728'')
         else Inr (c\<lparr>c_conntrack_enabled := en, c_conntrack_size := of_int size\<rparr>)))))"

definition parse_metrics :: "'n yaml_api \<Rightarrow> 'n \<Rightarrow> config_data \<Rightarrow> config_data result" where
  "parse_metrics Y doc c =
     (case y_get Y doc ''metrics'' of
        None \<Rightarrow> Inr c
      | Some n \<Rightarrow>
         bind_result (check_keys Y n ''metrics.'' [''listen'']) (\<lambda>_.
         bind_result (get Y (y_string Y) n ''listen'' ''metrics.'' (c_metrics_listen c)) (\<lambda>l.
         Inr (c\<lparr>c_metrics_listen := l\<rparr>))))"

definition parse_health :: "'n yaml_api \<Rightarrow> 'n \<Rightarrow> config_data \<Rightarrow> config_data result" where
  "parse_health Y doc c =
     (case y_get Y doc ''health_check'' of
        None \<Rightarrow> Inr c
      | Some n \<Rightarrow>
         (let pos = ''health_check.''; h = c_health c
          in bind_result (check_keys Y n pos [''enabled'', ''interval_ms'', ''timeout_ms'', ''fall'', ''rise'']) (\<lambda>_.
             bind_result (get Y (y_bool Y) n ''enabled'' pos True) (\<lambda>en.
             bind_result (get Y (y_uint32 Y) n ''interval_ms'' pos (hc_interval_ms h)) (\<lambda>i.
             bind_result (get Y (y_uint32 Y) n ''timeout_ms'' pos (hc_timeout_ms h)) (\<lambda>t.
             bind_result (get Y (y_uint32 Y) n ''fall'' pos (hc_fall h)) (\<lambda>fl.
             bind_result (get Y (y_uint32 Y) n ''rise'' pos (hc_rise h)) (\<lambda>rs.
             Inr (c\<lparr>c_health := \<lparr>hc_enabled = en, hc_interval_ms = i, hc_timeout_ms = t, hc_fall = fl,
                                 hc_rise = rs\<rparr>\<rparr>)))))))))"

definition parse_vip_list :: "'n yaml_api \<Rightarrow> 'n \<Rightarrow> config_data \<Rightarrow> config_data result" where
  "parse_vip_list Y doc c =
     (case y_get Y doc ''vips'' of
        None \<Rightarrow> Inr c
      | Some n \<Rightarrow>
          (if y_is_null Y n then Inr c
           else if \<not> y_is_sequence Y n then Inl (RuntimeError ''config: `vips` must be a list'')
           else bind_result (parse_vips Y (y_elems Y n) 0) (\<lambda>vs. Inr (c\<lparr>c_vips := vs\<rparr>))))"

definition parse_next_hop :: "'n yaml_api \<Rightarrow> 'n \<Rightarrow> u32 option result" where
  "parse_next_hop Y doc =
     (case y_get Y doc ''next_hop'' of
        None \<Rightarrow> Inr None
      | Some n \<Rightarrow>
          (if y_is_null Y n then Inr None
           else bind_result (with_key ''next_hop'' (bind_result (yaml_error (y_string Y n)) parse_ipv4))
                  (\<lambda>a. Inr (Some a))))"

definition top_keys :: "string list" where
  "top_keys = [''interface'', ''xdp_mode'', ''hash'', ''encap_src_prefix'', ''next_hop'', ''icmp_pmtu'',
     ''conntrack'', ''socket'', ''pin_path'', ''metrics'', ''health_check'', ''vips'']"

definition parse_config :: "'n yaml_api \<Rightarrow> string \<Rightarrow> config_data result" where
  "parse_config Y yaml_text =
     (case y_load Y yaml_text of
        Inl what \<Rightarrow> Inl (RuntimeError (''config: YAML syntax: '' @ what))
      | Inr doc \<Rightarrow>
         bind_result (check_keys Y doc [] top_keys) (\<lambda>_.
         bind_result (require Y (y_string Y) [] doc ''interface'' []) (\<lambda>ifn.
         bind_result (with_key ''xdp_mode''
           (bind_result (get Y (y_string Y) doc ''xdp_mode'' [] ''auto'') parse_xdp_mode)) (\<lambda>xm.
         bind_result (with_key ''hash''
           (bind_result (get Y (y_string Y) doc ''hash'' [] ''maglev'') parse_hash_mode)) (\<lambda>hm.
         bind_result (with_key ''encap_src_prefix''
           (bind_result (require Y (y_string Y) [] doc ''encap_src_prefix'' []) parse_cidr)) (\<lambda>src.
         bind_result (parse_next_hop Y doc) (\<lambda>nh.
         bind_result (get Y (y_bool Y) doc ''icmp_pmtu'' [] False) (\<lambda>pm.
         bind_result (parse_conntrack Y doc (default_config\<lparr>c_interface := ifn, c_xdp_mode := xm, c_hash := hm,
             c_encap_src := src, c_next_hop := nh, c_icmp_pmtu := pm\<rparr>)) (\<lambda>c.
         bind_result (get Y (y_string Y) doc ''socket'' [] (c_socket c)) (\<lambda>so.
         bind_result (get Y (y_string Y) doc ''pin_path'' [] (c_pin_path c)) (\<lambda>pp.
         bind_result (parse_metrics Y doc (c\<lparr>c_socket := so, c_pin_path := pp\<rparr>)) (\<lambda>c.
         bind_result (parse_health Y doc c) (\<lambda>c.
         bind_result (parse_vip_list Y doc c) (\<lambda>c.
         bind_result (validate_config c) (\<lambda>_. Inr c)))))))))))))))"

definition load_config_file :: "'n yaml_api \<Rightarrow> (string \<Rightarrow> string option) \<Rightarrow> string \<Rightarrow> config_data result" where
  "load_config_file Y read_file path =
     (case read_file path of
        None \<Rightarrow> Inl (RuntimeError (''config: cannot open '' @ path))
      | Some text \<Rightarrow> parse_config Y text)"

section \<open>What the checks mean\<close>

definition ntohl :: "u32 \<Rightarrow> u32" where
  "ntohl w = le32 (byte32 3 w) (byte32 2 w) (byte32 1 w) (byte32 0 w)"

text \<open>A network: the mask has ones in the first \<open>len\<close> bits and the address none outside it.\<close>

definition cidr_ok :: "cidr \<Rightarrow> bool" where
  "cidr_ok c \<longleftrightarrow> unat (cidr_len c) \<le> 32 \<and> ntohl (mask_be c) = NOT (mask (32 - unat (cidr_len c))) \<and>
     prefix_be c AND mask_be c = prefix_be c"

definition reals_ok :: "real_config list \<Rightarrow> bool" where
  "reals_ok rs \<longleftrightarrow> distinct (map rc_addr rs) \<and>
     (\<forall>r \<in> set rs. rc_addr r \<noteq> 0 \<and> rc_weight r \<le> kMaxRealWeight)"

definition health_ok :: "health_config \<Rightarrow> bool" where
  "health_ok h \<longleftrightarrow> 0 < hc_timeout_ms h \<and> hc_timeout_ms h \<le> hc_interval_ms h \<and> 0 < hc_fall h \<and> 0 < hc_rise h"

definition config_addrs :: "vip_config list \<Rightarrow> u32 set" where
  "config_addrs vs = (\<Union>v \<in> set vs. rc_addr ` set (vc_reals v))"

definition config_ok :: "config_data \<Rightarrow> bool" where
  "config_ok cfg \<longleftrightarrow> c_interface cfg \<noteq> [] \<and> cidr_len (c_encap_src cfg) \<noteq> 0 \<and> c_conntrack_size cfg \<noteq> 0 \<and>
     health_ok (c_health cfg) \<and> length (c_vips cfg) \<le> 64 \<and> distinct (map vc_spec (c_vips cfg)) \<and>
     (\<forall>v \<in> set (c_vips cfg). reals_ok (vc_reals v)) \<and> card (config_addrs (c_vips cfg)) \<le> 511"

text \<open>What the parser promises of the services on top of \<^const>\<open>config_ok\<close>.\<close>

definition spec_ok :: "vip_spec \<Rightarrow> bool" where
  "spec_ok sp \<longleftrightarrow> port_be sp \<noteq> 0 \<and> proto sp \<in> {6, 17}"

definition parsed_ok :: "config_data \<Rightarrow> bool" where
  "parsed_ok cfg \<longleftrightarrow> cidr_ok (c_encap_src cfg) \<and> c_conntrack_size cfg \<le> 134217728 \<and>
     (\<forall>v \<in> set (c_vips cfg). spec_ok (vc_spec v))"

section \<open>CIDR\<close>

lemma ntohl_ntohl [simp]: "ntohl (ntohl w) = w"
  by (simp add: ntohl_def)

lemma net_mask_eq: "len \<le> 32 \<Longrightarrow> net_mask len = ntohl (NOT (mask (32 - len)))"
proof -
  have "(if len = 0 then 0 else push_bit (32 - len) (NOT 0)) = (NOT (mask (32 - len)) :: u32)"
    by (rule bit_word_eqI) (auto simp: bit_simps)
  then show ?thesis
    by (simp add: net_mask_def ntohl_def Let_def)
qed

lemma parse_cidr_Inr:
  "parse_cidr s = Inr c \<Longrightarrow> cidr_ok c"
  by (auto simp: parse_cidr_def cidr_ok_def bind_result_Inr Let_def net_mask_eq unat_of_nat ac_simps
    split: option.splits if_splits)

lemma parse_cidr_str: assumes "cidr_ok c" shows "parse_cidr (Cidr_str c) = Inr c"
proof -
  let ?l = "to_string (unat (cidr_len c))"
  have "length ?l \<le> 2"
    using assms length_to_string [of 2 "unat (cidr_len c)"] by (simp add: cidr_ok_def)
  moreover have "list_all isdigit ?l"
    by (auto simp: list_all_iff dest: to_string_digits)
  moreover have "find_char (CHR ''/'') (Cidr_str c) = Some (length (ipv4_to_string (prefix_be c)))"
    unfolding Cidr_str_def append_Cons append_Nil
    by (rule find_char_append) (auto simp: ipv4_to_string_def notin_to_string isdigit_def)
  moreover have "mask_be c = net_mask (unat (cidr_len c))"
    using assms by (metis cidr_ok_def net_mask_eq ntohl_ntohl)
  ultimately show ?thesis
    using assms by (cases c) (auto simp: parse_cidr_def Cidr_str_def cidr_ok_def)
qed

lemma parse_cidr_error: "res_spec is_invalid_argument cidr_ok (parse_cidr s)"
proof (cases "parse_cidr s")
  case (Inl e)
  then show ?thesis
    by (auto simp: parse_cidr_def bind_result_def Let_def dest: parse_ipv4_Inl
      split: option.splits if_splits sum.splits)
qed (simp add: parse_cidr_Inr)

section \<open>Validation\<close>

lemma reals_loop_seen:
  "reals_loop sp rs seen al = Inr x \<longleftrightarrow>
     reals_ok rs \<and> rc_addr ` set rs \<inter> seen = {} \<and> x = rc_addr ` set rs \<union> al"
proof (induction rs arbitrary: seen al)
  case (Cons r rs)
  show ?case
    by (auto simp: Cons.IH reals_ok_def not_less image_iff)
qed (auto simp: reals_ok_def)

lemma reals_loop_Inr:
  "reals_loop sp rs {} al = Inr x \<longleftrightarrow> reals_ok rs \<and> x = rc_addr ` set rs \<union> al"
  by (simp add: reals_loop_seen)

lemma reals_loop_error: "res_spec is_runtime_error (\<lambda>_. True) (reals_loop sp rs seen al)"
  by (induction sp rs seen al rule: reals_loop.induct) auto

lemma vips_loop_Inr:
  "vips_loop vs seen al = Inr x \<longleftrightarrow>
     distinct (map vc_spec vs) \<and> vc_spec ` set vs \<inter> seen = {} \<and> (\<forall>v \<in> set vs. reals_ok (vc_reals v)) \<and>
     x = config_addrs vs \<union> al"
proof (induction vs arbitrary: seen al)
  case (Cons v vs)
  show ?case
    by (auto simp: bind_result_Inr reals_loop_Inr Cons.IH config_addrs_def image_iff)
qed (auto simp: config_addrs_def)

lemma vips_loop_error: "res_spec is_runtime_error (\<lambda>_. True) (vips_loop vs seen al)"
proof (induction vs arbitrary: seen al)
  case (Cons v vs)
  then show ?case
    by (auto intro!: res_bind reals_loop_error)
qed simp

lemma unat_max_reals: "unat (PB_MAX_REALS - 1) = 511"
  by (simp add: PB_MAX_REALS_def)

lemma validate_config_Inr: "validate_config cfg = Inr () \<longleftrightarrow> config_ok cfg"
  by (auto simp: validate_config_def Let_def config_ok_def health_ok_def bind_result_Inr vips_loop_Inr not_less
    word_gt_0 unat_max_reals split: if_splits)

lemma validate_config_error: "res_spec is_runtime_error (\<lambda>_. config_ok cfg) (validate_config cfg)"
proof -
  have "res_spec is_runtime_error (\<lambda>_. True) (validate_config cfg)"
    by (auto simp: validate_config_def Let_def intro!: res_bind vips_loop_error)
  then show ?thesis
    using validate_config_Inr [of cfg] by (cases "validate_config cfg") auto
qed

section \<open>The parser\<close>

lemma yaml_error_spec: "res_spec is_runtime_error (\<lambda>_. True) (yaml_error r)"
  by (cases r) (simp_all add: yaml_error_def)

lemma keys_loop_error: "res_spec is_runtime_error (\<lambda>_. True) (keys_loop Y pos al ks)"
  by (induction ks) (auto intro!: res_bind yaml_error_spec)

lemma check_keys_error: "res_spec is_runtime_error (\<lambda>_. True) (check_keys Y n pos al)"
  by (simp add: check_keys_def keys_loop_error)

lemma get_error: "res_spec is_runtime_error (\<lambda>_. True) (get Y conv n k pos x)"
  by (auto simp: get_def split: option.split sum.split)

lemma require_error: "res_spec is_runtime_error (\<lambda>_. True) (require Y conv z n k pos)"
  by (simp add: require_def get_error)

lemma with_key_spec:
  assumes "res_spec is_runtime_error (\<lambda>_. True) r" "\<And>x. res_spec is_invalid_argument P (f x)"
  shows "res_spec is_runtime_error P (with_key key (bind_result r f))"
proof (cases r)
  case (Inr x)
  then show ?thesis
    using assms(2) [of x] by (auto simp: with_key_def is_invalid_argument_def split: sum.splits cpp_error.splits)
qed (use assms(1) in \<open>auto simp: with_key_def is_runtime_error_def split: cpp_error.splits\<close>)

lemma parse_ipv4_error: "res_spec is_invalid_argument (\<lambda>_. True) (parse_ipv4 s)"
  by (cases "parse_ipv4 s") (auto dest: parse_ipv4_Inl)

lemma parse_xdp_mode_error: "res_spec is_invalid_argument (\<lambda>_. True) (parse_xdp_mode s)"
  by (simp add: parse_xdp_mode_def)

lemma parse_hash_mode_error: "res_spec is_invalid_argument (\<lambda>_. True) (parse_hash_mode s)"
  by (simp add: parse_hash_mode_def)

lemma parse_proto_spec: "res_spec is_runtime_error (\<lambda>p. p \<in> {6, 17}) (parse_proto s pos)"
  by (simp add: parse_proto_def)

lemmas parser_specs = check_keys_error get_error require_error with_key_spec yaml_error_spec parse_ipv4_error
  parse_xdp_mode_error parse_hash_mode_error parse_cidr_error

lemma parse_real_error: "res_spec is_runtime_error (\<lambda>_. True) (parse_real Y pos n i)"
  by (auto simp: parse_real_def Let_def intro!: res_bind [where P = "\<lambda>_. True"] parser_specs)

lemma parse_reals_error: "res_spec is_runtime_error (\<lambda>_. True) (parse_reals Y pos ns i)"
  by (induction ns arbitrary: i) (auto intro!: res_bind [where P = "\<lambda>_. True"] parse_real_error)

lemma port_in_range: "1 \<le> p \<Longrightarrow> p \<le> 65535 \<Longrightarrow> word_of_int p \<noteq> (0 :: u16)"
  by (auto simp: word_of_int_eq_0_iff dest: zdvd_imp_le)

lemma parse_vip_spec: "res_spec is_runtime_error (\<lambda>v. spec_ok (vc_spec v)) (parse_vip Y n i)"
  unfolding parse_vip_def Let_def
  apply (rule res_bind [OF check_keys_error])
  apply (rule res_bind [OF with_key_spec [OF require_error parse_ipv4_error]])
  apply (rule res_bind [OF require_error])
  apply (simp, intro impI)
  apply (rule res_bind [OF res_bind [OF require_error parse_proto_spec]])
  apply (rule res_bind [OF get_error])
  apply (rule res_bind [where P = "\<lambda>_. True"])
   apply (auto simp: parse_reals_error spec_ok_def port_in_range not_less split: option.split)
  done

lemma parse_vips_spec:
  "res_spec is_runtime_error (\<lambda>vs. \<forall>v \<in> set vs. spec_ok (vc_spec v)) (parse_vips Y ns i)"
  by (induction ns arbitrary: i) (auto intro!: res_bind parse_vip_spec)

lemma parse_conntrack_spec:
  assumes "parsed_ok c" shows "res_spec is_runtime_error parsed_ok (parse_conntrack Y d c)"
proof -
  have "word_of_int n \<le> (134217728 :: u32)" if "n \<le> 134217728" "0 < n" for n
    using that by (simp add: word_le_def uint_word_of_int)
  with assms show ?thesis
    by (auto simp: parse_conntrack_def parsed_ok_def not_less not_le
      intro!: res_bind [where P = "\<lambda>_. True"] parser_specs split: option.split)
qed

lemma parse_metrics_spec:
  "parsed_ok c \<Longrightarrow> res_spec is_runtime_error parsed_ok (parse_metrics Y d c)"
  by (auto simp: parse_metrics_def parsed_ok_def intro!: res_bind [where P = "\<lambda>_. True"] parser_specs
    split: option.split)

lemma parse_health_spec:
  "parsed_ok c \<Longrightarrow> res_spec is_runtime_error parsed_ok (parse_health Y d c)"
  by (auto simp: parse_health_def parsed_ok_def Let_def intro!: res_bind [where P = "\<lambda>_. True"] parser_specs
    split: option.split)

lemma parse_vip_list_spec:
  "parsed_ok c \<Longrightarrow> res_spec is_runtime_error parsed_ok (parse_vip_list Y d c)"
  by (auto simp: parse_vip_list_def parsed_ok_def intro!: res_bind [OF parse_vips_spec] split: option.split)

lemma parse_next_hop_error: "res_spec is_runtime_error (\<lambda>_. True) (parse_next_hop Y d)"
  by (auto simp: parse_next_hop_def intro!: res_bind [where P = "\<lambda>_. True"] parser_specs split: option.split)

lemma default_size: "c_conntrack_size default_config \<le> 134217728" "c_vips default_config = []"
  by (simp_all add: default_config_def PB_CT_DEFAULT_SIZE_def)

lemma parse_config_spec:
  "res_spec is_runtime_error (\<lambda>c. config_ok c \<and> parsed_ok c) (parse_config Y t)"
proof (cases "y_load Y t")
  case (Inr d)
  show ?thesis
    unfolding parse_config_def Inr sum.case
    apply (rule res_bind [OF check_keys_error])
    apply (rule res_bind [OF require_error])
    apply (rule res_bind [OF with_key_spec [OF get_error parse_xdp_mode_error]])
    apply (rule res_bind [OF with_key_spec [OF get_error parse_hash_mode_error]])
    apply (rule res_bind [OF with_key_spec [OF require_error parse_cidr_error]])
    apply (rule res_bind [OF parse_next_hop_error])
    apply (rule res_bind [OF get_error])
    apply (rule res_bind [OF parse_conntrack_spec])
     apply (simp add: parsed_ok_def default_size)
    apply (rule res_bind [OF get_error])
    apply (rule res_bind [OF get_error])
    apply (rule res_bind [OF parse_metrics_spec])
     apply (simp add: parsed_ok_def)
    apply (rule res_bind [OF parse_health_spec], assumption)
    apply (rule res_bind [OF parse_vip_list_spec], assumption)
    apply (rule res_bind [OF validate_config_error])
    apply simp
    done
qed (simp add: parse_config_def)

lemma keys_loop_unknown:
  assumes "k \<in> set ks" "y_string Y k = Inr key" "key \<notin> set allowed"
  shows "\<exists>w. keys_loop Y pos allowed ks = Inl (RuntimeError w)"
  using assms(1)
proof (induction ks)
  case (Cons x xs)
  then show ?case
    using assms by (cases "y_string Y x") (auto simp: yaml_error_def)
qed simp

section \<open>A concrete YAML tree\<close>

text \<open>An instance of the parameter: documents already in tree form, booleans and decimals as text.\<close>

datatype ytree = YNull | YScalar string | YSeq "ytree list" | YMap "(string \<times> ytree) list"

definition tree_scalar :: "(string \<Rightarrow> 'a option) \<Rightarrow> ytree \<Rightarrow> string + 'a" where
  "tree_scalar f n =
     (case n of
        YScalar s \<Rightarrow> (case f s of Some x \<Rightarrow> Inr x | None \<Rightarrow> Inl ''bad conversion'')
      | _ \<Rightarrow> Inl ''bad conversion'')"

definition tree_dec :: "string \<Rightarrow> nat option" where
  "tree_dec s = (if s \<noteq> [] \<and> list_all isdigit s then Some (dec_val 0 s) else None)"

definition tree_yaml :: "ytree \<Rightarrow> ytree yaml_api" where
  "tree_yaml d =
     \<lparr>y_load = (\<lambda>_. Inr d),
      y_is_map = (\<lambda>n. case n of YMap _ \<Rightarrow> True | _ \<Rightarrow> False),
      y_is_null = (\<lambda>n. n = YNull),
      y_is_sequence = (\<lambda>n. case n of YSeq _ \<Rightarrow> True | _ \<Rightarrow> False),
      y_keys = (\<lambda>n. case n of YMap kvs \<Rightarrow> map (YScalar \<circ> fst) kvs | _ \<Rightarrow> []),
      y_get = (\<lambda>n k. case n of YMap kvs \<Rightarrow> map_of kvs k | _ \<Rightarrow> None),
      y_elems = (\<lambda>n. case n of YSeq ns \<Rightarrow> ns | _ \<Rightarrow> []),
      y_string = tree_scalar Some,
      y_bool = tree_scalar (\<lambda>s. if s = ''true'' then Some True else if s = ''false'' then Some False else None),
      y_int = tree_scalar (map_option int \<circ> tree_dec),
      y_uint32 = tree_scalar (map_option of_nat \<circ> tree_dec),
      y_long_long = tree_scalar (map_option int \<circ> tree_dec)\<rparr>"

lemma next_hop_conversion_error:
  "y_get Y d ''next_hop'' = Some n \<Longrightarrow> \<not> y_is_null Y n \<Longrightarrow> y_string Y n = Inl what \<Longrightarrow>
   parse_next_hop Y d = Inl (RuntimeError what)"
  by (simp add: parse_next_hop_def yaml_error_def with_key_def)

section \<open>Properties\<close>

text \<open>
  C36.  \<^verbatim>\<open>validate_config\<close> accepts exactly the well-formed configurations: an interface, an
  encapsulation prefix longer than /0, positive sizes and health-check parameters with
  \<^verbatim>\<open>timeout_ms <= interval_ms\<close>, at most 64 distinct VIPs, per VIP distinct nonzero reals of
  weight at most 1000, and at most 511 distinct reals overall.  Everything else is refused
  with a \<^verbatim>\<open>runtime_error\<close>.
\<close>

theorem validate_config_exact:
  "if config_ok cfg then validate_config cfg = Inr ()
   else \<exists>what. validate_config cfg = Inl (RuntimeError what)"
  using validate_config_error [of cfg] validate_config_Inr [of cfg]
  by (auto simp: is_runtime_error_def res_spec_def split: sum.splits cpp_error.splits)

text \<open>
  C37.  Whatever the text and whatever the YAML library makes of it, \<^verbatim>\<open>parse_config\<close> either
  returns a configuration that \<^verbatim>\<open>validate_config\<close> accepts, whose encapsulation prefix is a
  proper network and whose VIPs have a nonzero port and protocol TCP or UDP, or it fails with a
  \<^verbatim>\<open>runtime_error\<close>; the \<^verbatim>\<open>invalid_argument\<close> of the shared parsers never escapes.
\<close>

theorem parse_config_total:
  "case parse_config Y yaml_text of
     Inr c \<Rightarrow> validate_config c = Inr () \<and> cidr_ok (c_encap_src c) \<and> c_conntrack_size c \<le> 134217728 \<and>
              list_all (spec_ok \<circ> vc_spec) (c_vips c)
   | Inl e \<Rightarrow> \<exists>what. e = RuntimeError what"
  using parse_config_spec [of Y yaml_text]
  by (auto simp: res_spec_def is_runtime_error_def parsed_ok_def validate_config_Inr list_all_iff
    split: sum.splits cpp_error.splits)

text \<open>
  A top-level key the schema does not know makes \<^verbatim>\<open>parse_config\<close> fail, wherever it stands
  in the document: a typo never silently selects a default.
\<close>

theorem unknown_key_rejected:
  assumes "y_load Y yaml_text = Inr doc" "k \<in> set (y_keys Y doc)" "y_string Y k = Inr key"
    "key \<notin> set top_keys"
  shows "\<exists>what. parse_config Y yaml_text = Inl (RuntimeError what)"
proof -
  have "\<exists>what. check_keys Y doc [] top_keys = Inl (RuntimeError what)"
    using keys_loop_unknown [OF assms(2-4)] by (simp add: check_keys_def)
  then show ?thesis
    using assms(1) by (auto simp: parse_config_def)
qed

theorem unknown_key_rejected_witness:
  "\<exists>what. parse_config (tree_yaml (YMap [(''interface'', YScalar ''eth0''), (''conntrak'', YNull)])) []
     = Inl (RuntimeError what)"
  using unknown_key_rejected
    [of "tree_yaml (YMap [(''interface'', YScalar ''eth0''), (''conntrak'', YNull)])" "[]"
      "YMap [(''interface'', YScalar ''eth0''), (''conntrak'', YNull)]" "YScalar ''conntrak''" "''conntrak''"]
  by (simp add: tree_yaml_def tree_scalar_def top_keys_def)

text \<open>
  CIDR text: the values \<^verbatim>\<open>parse_cidr\<close> can return are exactly the networks (a mask of
  \<open>len \<le> 32\<close> leading ones in network order, no address bit outside the mask), and each of them
  is what parsing its own \<^verbatim>\<open>Cidr::str\<close> gives back.
\<close>

theorem cidr_round_trip:
  "((\<exists>s. parse_cidr s = Inr c) \<longleftrightarrow> cidr_ok c) \<and> (parse_cidr (Cidr_str c) = Inr c \<longleftrightarrow> cidr_ok c)"
  using parse_cidr_Inr parse_cidr_str by blast

end
