(* ===== verification/Mac_Addr.thy ===== *)
theory Mac_Addr
  imports PB_Abi
begin

text \<open>
  \<^verbatim>\<open>struct Mac\<close> of \<^verbatim>\<open>src/daemon/real_table.h\<close>.  Its parser is one \<^verbatim>\<open>sscanf\<close> with six
  \<^verbatim>\<open>%x\<close> conversions; \<open>scan_hex\<close> is that conversion as the C library does it: white space
  and a sign are skipped, a \<^verbatim>\<open>0x\<close> may precede the digits, the number saturates at
  \<^verbatim>\<open>ULONG_MAX\<close> and is stored modulo \<open>2\<^sup>3\<^sup>2\<close>.
\<close>

section \<open>The code\<close>

definition isspace :: "char \<Rightarrow> bool" where
  "isspace c \<longleftrightarrow> of_char c \<in> {9, 10, 11, 12, 13, 32 :: nat}"

definition xdigit_val :: "char \<Rightarrow> nat option" where
  "xdigit_val c =
     (let n = of_char c :: nat
      in if 48 \<le> n \<and> n \<le> 57 then Some (n - 48)
         else if 97 \<le> n \<and> n \<le> 102 then Some (n - 87)
         else if 65 \<le> n \<and> n \<le> 70 then Some (n - 55)
         else None)"

definition isxdigit :: "char \<Rightarrow> bool" where
  "isxdigit c \<longleftrightarrow> xdigit_val c \<noteq> None"

definition hex_val :: "string \<Rightarrow> nat" where
  "hex_val s = foldl (\<lambda>v c. v * 16 + the (xdigit_val c)) 0 s"

definition strip_sign :: "string \<Rightarrow> bool \<times> string" where
  "strip_sign s =
     (case s of
        c # r \<Rightarrow> if c = CHR ''-'' then (True, r) else if c = CHR ''+'' then (False, r) else (False, s)
      | [] \<Rightarrow> (False, s))"

text \<open>The skipped prefix: the \<^verbatim>\<open>0\<close> counts as a digit, the \<^verbatim>\<open>x\<close> does not.\<close>

definition strip_0x :: "string \<Rightarrow> string" where
  "strip_0x s =
     (case s of
        a # b # r \<Rightarrow> if a = CHR ''0'' \<and> (b = CHR ''x'' \<or> b = CHR ''X'') then a # r else s
      | _ \<Rightarrow> s)"

definition scan_hex :: "string \<Rightarrow> (u32 \<times> string) option" where
  "scan_hex s =
     (let (neg, s) = strip_sign (dropWhile isspace s);
          s = strip_0x s;
          digits = takeWhile isxdigit s;
          v = hex_val digits
      in if digits = [] then None
         else Some (if v \<ge> 2 ^ 64 then - 1 else if neg then - of_nat v else of_nat v, dropWhile isxdigit s))"

text \<open>\<^verbatim>\<open>"%x:%x:...:%x%c"\<close> returns 6 when \<open>n\<close> conversions and the colons between them match and nothing is left.\<close>

fun scan_fields :: "nat \<Rightarrow> string \<Rightarrow> u32 list option" where
  "scan_fields 0 s = None"
| "scan_fields (Suc n) s =
     (case scan_hex s of
        None \<Rightarrow> None
      | Some (v, r) \<Rightarrow>
          (if n = 0 then (if r = [] then Some [v] else None)
           else (case r of
               c # r' \<Rightarrow> if c = CHR '':'' then map_option (Cons v) (scan_fields n r') else None
             | [] \<Rightarrow> None)))"

definition Mac_parse :: "string \<Rightarrow> mac_addr option" where
  "Mac_parse s =
     (case scan_fields 6 s of
        Some [a, b, c, d, e, f] \<Rightarrow>
          (if list_all (\<lambda>x. x \<le> 0xff) [a, b, c, d, e, f]
           then Some (Mac (ucast a) (ucast b) (ucast c) (ucast d) (ucast e) (ucast f)) else None)
      | _ \<Rightarrow> None)"

definition hex_digit :: "nat \<Rightarrow> char" where
  "hex_digit d = (if d < 10 then char_of (48 + d) else char_of (87 + d))"

definition hex2 :: "u8 \<Rightarrow> string" where
  "hex2 b = [hex_digit (unat b div 16), hex_digit (unat b mod 16)]"

definition Mac_str :: "mac_addr \<Rightarrow> string" where
  "Mac_str m =
     (case m of
        Mac a b c d e f \<Rightarrow>
          hex2 a @ '':'' @ hex2 b @ '':'' @ hex2 c @ '':'' @ hex2 d @ '':'' @ hex2 e @ '':'' @ hex2 f)"

definition Mac_is_zero :: "mac_addr \<Rightarrow> bool" where
  "Mac_is_zero m = list_all (\<lambda>b. b = 0) (mac_bytes m)"

section \<open>Lemmas\<close>

lemma Mac_is_zero_iff [simp]: "Mac_is_zero m \<longleftrightarrow> m = zero_mac"
  by (simp add: Mac_is_zero_def list_all_iff mac_bytes_zero_iff)

lemma of_char_hex_digit: "d < 16 \<Longrightarrow> of_char (hex_digit d) = (if d < 10 then 48 + d else 87 + d)"
  by (simp add: hex_digit_def of_char_of)

lemma hex_digit_simps [simp]:
  assumes "d < 16"
  shows "xdigit_val (hex_digit d) = Some d" "isxdigit (hex_digit d)" "\<not> isspace (hex_digit d)"
    and "hex_digit d \<noteq> CHR ''-''" "hex_digit d \<noteq> CHR ''+''" "hex_digit d \<noteq> CHR ''x''" "hex_digit d \<noteq> CHR ''X''"
proof -
  note oc = of_char_hex_digit [OF assms]
  show v: "xdigit_val (hex_digit d) = Some d"
    using assms by (auto simp: xdigit_val_def oc)
  then show "isxdigit (hex_digit d)" by (simp add: isxdigit_def)
  show "\<not> isspace (hex_digit d)"
    using assms by (auto simp: isspace_def oc)
  show "hex_digit d \<noteq> CHR ''-''" "hex_digit d \<noteq> CHR ''+''" "hex_digit d \<noteq> CHR ''x''" "hex_digit d \<noteq> CHR ''X''"
    using v by (auto simp: xdigit_val_def)
qed

lemma scan_hex_hex2:
  assumes "r = [] \<or> \<not> isxdigit (hd r)"
  shows "scan_hex (hex2 b @ r) = Some (ucast b, r)"
proof -
  have lt: "unat b div 16 < 16" "unat b mod 16 < 16"
    using unat_bounds(1) [of b] by auto
  have "takeWhile isxdigit r = []" "dropWhile isxdigit r = r"
    using assms by (cases r; simp)+
  then show ?thesis
    using lt unat_bounds(1) [of b]
    by (simp add: scan_hex_def hex2_def strip_sign_def strip_0x_def hex_val_def)
qed

lemma scan_fields_colon:
  "n \<noteq> 0 \<Longrightarrow> scan_fields (Suc n) (hex2 b @ CHR '':'' # r) = map_option (Cons (ucast b)) (scan_fields n r)"
  by (simp add: scan_hex_hex2 isxdigit_def xdigit_val_def)

lemma scan_fields_last: "scan_fields (Suc 0) (hex2 b) = Some [ucast b]"
  using scan_hex_hex2 [of "[]" b] by simp

lemma byte_le_ff: "ucast (b :: u8) \<le> (0xff :: u32)"
  using unat_bounds(1) [of b] by (simp add: word_le_nat_alt unsigned_ucast_eq take_bit_eq_mod)

lemma ucast_ucast_byte: "ucast (ucast (b :: u8) :: u32) = b"
  by (rule bit_word_eqI) (simp add: bit_simps)

lemma scan_fields_str:
  "scan_fields 6 (Mac_str (Mac a b c d e f)) = Some [ucast a, ucast b, ucast c, ucast d, ucast e, ucast f]"
  by (simp add: Mac_str_def scan_fields_colon scan_fields_last numeral_eq_Suc del: scan_fields.simps)

lemma Mac_parse_str: "Mac_parse (Mac_str m) = Some m"
  by (cases m) (simp add: Mac_parse_def scan_fields_str byte_le_ff ucast_ucast_byte)

section \<open>Properties\<close>

text \<open>
  Printing and parsing a MAC address are inverse: \<^verbatim>\<open>Mac::parse\<close> reads back what
  \<^verbatim>\<open>Mac::str\<close> printed, for all \<open>2\<^sup>4\<^sup>8\<close> addresses.
\<close>

theorem mac_round_trip: "Mac_parse (Mac_str m) = Some m"
  by (rule Mac_parse_str)

end
