(* ===== verification/Control_Monad.thy ===== *)
theory Control_Monad
  imports PB_Prelude
begin

text \<open>
  The daemon's C++ as state transformers: an action maps a state to an outcome and a state.
  An outcome is a value, a thrown exception (the state is the one at the \<^verbatim>\<open>throw\<close>: C++
  does not roll back), or \<open>Wrong\<close>, which stands for what the language leaves undefined (an
  empty \<^verbatim>\<open>std::optional\<close> or a dangling reference used) and for a call that never returns.

  \<open>hoare P m Q R\<close>: from a state in \<open>P\<close>, \<open>m\<close> returns in \<open>Q\<close> or throws in \<open>R\<close>, and does not
  go wrong.  Only the rules of this theory are used to reason about actions.
\<close>

section \<open>Actions\<close>

datatype 'a outcome = Ret 'a | Throw cpp_error | Wrong

type_synonym ('s, 'a) act = "'s \<Rightarrow> 'a outcome \<times> 's"

definition ret :: "'a \<Rightarrow> ('s, 'a) act" where
  "ret x s = (Ret x, s)"

definition throw :: "cpp_error \<Rightarrow> ('s, 'a) act" where
  "throw e s = (Throw e, s)"

definition wrong :: "('s, 'a) act" where
  "wrong s = (Wrong, s)"

definition bindM :: "('s, 'a) act \<Rightarrow> ('a \<Rightarrow> ('s, 'b) act) \<Rightarrow> ('s, 'b) act" where
  "bindM m f s =
     (case m s of
        (Ret x, s') \<Rightarrow> f x s'
      | (Throw e, s') \<Rightarrow> (Throw e, s')
      | (Wrong, s') \<Rightarrow> (Wrong, s'))"

definition seqM :: "('s, 'a) act \<Rightarrow> ('s, 'b) act \<Rightarrow> ('s, 'b) act" where
  "seqM m m' = bindM m (\<lambda>_. m')"

definition gets :: "('s \<Rightarrow> 'a) \<Rightarrow> ('s, 'a) act" where
  "gets f s = (Ret (f s), s)"

definition modify :: "('s \<Rightarrow> 's) \<Rightarrow> ('s, unit) act" where
  "modify f s = (Ret (), f s)"

definition whenM :: "bool \<Rightarrow> ('s, unit) act \<Rightarrow> ('s, unit) act" where
  "whenM b m = (if b then m else ret ())"

definition deref :: "'a option \<Rightarrow> ('s, 'a) act" where
  "deref x = (case x of Some v \<Rightarrow> ret v | None \<Rightarrow> wrong)"

definition lift_result :: "'a result \<Rightarrow> ('s, 'a) act" where
  "lift_result r = (case r of Inl e \<Rightarrow> throw e | Inr x \<Rightarrow> ret x)"

text \<open>A range-\<^verbatim>\<open>for\<close> over a fixed sequence, and one that carries a local variable.\<close>

fun forM :: "'a list \<Rightarrow> ('a \<Rightarrow> ('s, unit) act) \<Rightarrow> ('s, unit) act" where
  "forM [] f = ret ()"
| "forM (x # xs) f = seqM (f x) (forM xs f)"

fun foldM :: "'a list \<Rightarrow> ('a \<Rightarrow> 'b \<Rightarrow> ('s, 'b) act) \<Rightarrow> 'b \<Rightarrow> ('s, 'b) act" where
  "foldM [] f acc = ret acc"
| "foldM (x # xs) f acc = bindM (f x acc) (foldM xs f)"

section \<open>Triples\<close>

definition wp :: "('s, 'a) act \<Rightarrow> ('a \<Rightarrow> 's \<Rightarrow> bool) \<Rightarrow> (cpp_error \<Rightarrow> 's \<Rightarrow> bool) \<Rightarrow> 's \<Rightarrow> bool" where
  "wp m Q R s = (case m s of (Ret x, s') \<Rightarrow> Q x s' | (Throw e, s') \<Rightarrow> R e s' | (Wrong, s') \<Rightarrow> False)"

definition hoare ::
  "('s \<Rightarrow> bool) \<Rightarrow> ('s, 'a) act \<Rightarrow> ('a \<Rightarrow> 's \<Rightarrow> bool) \<Rightarrow> (cpp_error \<Rightarrow> 's \<Rightarrow> bool) \<Rightarrow> bool" where
  "hoare P m Q R \<longleftrightarrow> (\<forall>s. P s \<longrightarrow> wp m Q R s)"

named_theorems wp_simps \<open>weakest preconditions of the primitive actions\<close>

lemma wp_basic [wp_simps]:
  "wp (ret x) Q R s = Q x s"
  "wp (throw e) Q R s = R e s"
  "wp wrong Q R s = False"
  "wp (gets f) Q R s = Q (f s) s"
  "wp (modify g) Q' R s = Q' () (g s)"
  by (simp_all add: wp_def ret_def throw_def wrong_def gets_def modify_def)

lemma wp_eta [wp_simps]: "wp (ret x) Q R = Q x" "wp (throw e) Q R = R e"
  by (simp_all add: fun_eq_iff wp_basic)

lemma wp_bindM [wp_simps]: "wp (bindM m f) Q R s = wp m (\<lambda>x. wp (f x) Q R) R s"
  by (auto simp: wp_def bindM_def split: prod.splits outcome.splits)

lemma wp_seqM [wp_simps]: "wp (seqM m m') Q R s = wp m (\<lambda>_. wp m' Q R) R s"
  by (simp add: seqM_def wp_bindM)

lemma wp_whenM [wp_simps]: "wp (whenM b m) Q R s = (if b then wp m Q R s else Q () s)"
  by (simp add: whenM_def wp_basic)

lemma wp_deref [wp_simps]: "wp (deref x) Q R s = (case x of Some v \<Rightarrow> Q v s | None \<Rightarrow> False)"
  by (simp add: deref_def wp_basic split: option.split)

lemma wp_lift_result [wp_simps]: "wp (lift_result r) Q R s = (case r of Inl e \<Rightarrow> R e s | Inr x \<Rightarrow> Q x s)"
  by (simp add: lift_result_def wp_basic split: sum.split)

lemma wp_if [wp_simps]: "wp (if b then m else m') Q R s = (if b then wp m Q R s else wp m' Q R s)"
  by simp

lemma wp_mono:
  "wp m Q R s \<Longrightarrow> (\<And>x s'. Q x s' \<Longrightarrow> Q' x s') \<Longrightarrow> (\<And>e s'. R e s' \<Longrightarrow> R' e s') \<Longrightarrow> wp m Q' R' s"
  by (auto simp: wp_def split: prod.splits outcome.splits)

lemma wp_conj:
  "wp m Q R s \<Longrightarrow> wp m Q' R' s \<Longrightarrow> wp m (\<lambda>x s. Q x s \<and> Q' x s) (\<lambda>e s. R e s \<and> R' e s) s"
  by (auto simp: wp_def split: prod.splits outcome.splits)

lemma hoareI: "(\<And>s. P s \<Longrightarrow> wp m Q R s) \<Longrightarrow> hoare P m Q R"
  by (simp add: hoare_def)

text \<open>To use a triple inside a weakest precondition.\<close>

lemma wp_use:
  "hoare P m Q R \<Longrightarrow> P s \<Longrightarrow> (\<And>x s'. Q x s' \<Longrightarrow> Q' x s') \<Longrightarrow> (\<And>e s'. R e s' \<Longrightarrow> R' e s') \<Longrightarrow> wp m Q' R' s"
  unfolding hoare_def by (blast intro: wp_mono)

lemma hoare_conseq:
  "hoare P m Q R \<Longrightarrow> (\<And>s. P' s \<Longrightarrow> P s) \<Longrightarrow> (\<And>x s. Q x s \<Longrightarrow> Q' x s) \<Longrightarrow> (\<And>e s. R e s \<Longrightarrow> R' e s) \<Longrightarrow>
   hoare P' m Q' R'"
  unfolding hoare_def by (blast intro: wp_mono)

lemma hoare_bindM:
  "hoare P m B R \<Longrightarrow> (\<And>x. hoare (B x) (f x) Q R) \<Longrightarrow> hoare P (bindM m f) Q R"
  unfolding hoare_def wp_bindM by (blast intro: wp_mono)

lemma hoare_seqM:
  "hoare P m (\<lambda>_. B) R \<Longrightarrow> hoare B m' Q R \<Longrightarrow> hoare P (seqM m m') Q R"
  unfolding seqM_def by (rule hoare_bindM)

text \<open>The loop rule: \<open>I\<close> is indexed by what is still to be done.\<close>

lemma hoare_forM:
  assumes "\<And>y ys zs. xs = zs @ y # ys \<Longrightarrow> hoare (I (y # ys)) (f y) (\<lambda>_. I ys) R"
  shows "hoare (I xs) (forM xs f) (\<lambda>_. I []) R"
  using assms
proof (induction xs)
  case Nil
  show ?case by (simp add: hoare_def wp_simps)
next
  case (Cons x xs)
  have "hoare (I xs) (forM xs f) (\<lambda>_. I []) R"
    using Cons.prems [of "x # _"] by (intro Cons.IH) simp
  then show ?case
    using Cons.prems [of "[]"] by (auto intro: hoare_seqM)
qed

lemma hoare_foldM:
  assumes "\<And>y ys zs acc. xs = zs @ y # ys \<Longrightarrow> hoare (I (y # ys) acc) (f y acc) (\<lambda>acc'. I ys acc') R"
  shows "hoare (I xs acc) (foldM xs f acc) (\<lambda>acc'. I [] acc') R"
  using assms
proof (induction xs arbitrary: acc)
  case Nil
  show ?case by (simp add: hoare_def wp_simps)
next
  case (Cons x xs)
  have "hoare (I xs acc) (foldM xs f acc) (\<lambda>acc'. I [] acc') R" for acc
    using Cons.prems [of "x # _"] by (intro Cons.IH) simp
  then show ?case
    using Cons.prems [of "[]"] by (auto intro: hoare_bindM)
qed

text \<open>What a triple says of the outcome of a run.\<close>

lemma hoareD:
  assumes "hoare P m Q R" "P s"
  shows "(\<exists>x s'. m s = (Ret x, s') \<and> Q x s') \<or> (\<exists>e s'. m s = (Throw e, s') \<and> R e s')"
proof -
  have "wp m Q R s" using assms by (simp add: hoare_def)
  then show ?thesis
    by (cases "m s"; cases "fst (m s)") (auto simp: wp_def)
qed

end
