(* ===== verification/Kernel_Calls.thy ===== *)
theory Kernel_Calls
  imports Bpf_Maps Mac_Addr Vip_Spec Control_Monad
begin

text \<open>
  The \<^verbatim>\<open>bpf(2)\<close> calls of the daemon, and \<^verbatim>\<open>src/daemon/ring_map.cpp\<close>.

  \<open>world\<close> is what a call can touch: the kernel's maps, the list of all states the maps went
  through (newest first, so that a property can speak about what the data plane sees between
  two writes), and the number of calls made so far.

  The kernel and the host are parameters, collected in \<open>env\<close>: \<open>sys E op n\<close> is the code the
  \<open>n\<close>-th call returns if it is of kind \<open>op\<close>.  A call that returns 0 has its documented effect,
  one that returns anything else has none.  A delete of an absent key returns
  \<^verbatim>\<open>-ENOENT\<close>.  \<open>env_ok\<close> is what is relied on: updating an existing array slot does not fail,
  deleting a present key does not fail, and the neighbour table holds no all-zero address.
  Creating, filling and swapping rings and inserting into the VIP hash may fail at any time.
\<close>

section \<open>Calls\<close>

datatype sysop =
    SysReals | SysNeigh | SysConfig | SysZero
  | SysVipUpdate | SysVipDelete
  | SysRingCreate | SysRingFill | SysRingSwap | SysRingDelete

record env =
  sys :: "sysop \<Rightarrow> nat \<Rightarrow> int"
  strerror :: "int \<Rightarrow> string"
  batch_count :: "nat \<Rightarrow> nat"
  epoch_ms :: "nat \<Rightarrow> int"
  mac_lookup :: "(nat \<Rightarrow> u32 \<Rightarrow> mac_addr option) option"
  if_address :: "string \<Rightarrow> string"
  vip_keys :: "(pb_vip_key \<Rightarrow> pb_vip_value option) \<Rightarrow> pb_vip_key list"

record world =
  kmaps :: maps
  ktrace :: "maps list"
  ticks :: nat

definition ENOENT :: int where "ENOENT = 2"

definition errstr :: "env \<Rightarrow> int \<Rightarrow> string" where
  "errstr E err = strerror E (if err < 0 then - err else err)"

definition kcall :: "env \<Rightarrow> sysop \<Rightarrow> (maps \<Rightarrow> maps) \<Rightarrow> ('a world_scheme, int) act" where
  "kcall E op f s =
     (let err = sys E op (ticks s); m = f (kmaps s)
      in (Ret err,
          if err = 0 then s\<lparr>kmaps := m, ktrace := m # ktrace s, ticks := ticks s + 1\<rparr>
          else s\<lparr>ticks := ticks s + 1\<rparr>))"

text \<open>A call that leaves the maps of the record alone (an inner map nobody refers to yet).\<close>

definition ksys :: "env \<Rightarrow> sysop \<Rightarrow> ('a world_scheme, int) act" where
  "ksys E op s = (Ret (sys E op (ticks s)), s\<lparr>ticks := ticks s + 1\<rparr>)"

text \<open>\<^verbatim>\<open>bpf_map_delete_elem\<close>: \<open>present\<close> tells whether the key is in the map.\<close>

definition kdelete :: "env \<Rightarrow> sysop \<Rightarrow> (maps \<Rightarrow> bool) \<Rightarrow> (maps \<Rightarrow> maps) \<Rightarrow> ('a world_scheme, int) act" where
  "kdelete E op present f s =
     (if present (kmaps s) then kcall E op f s else (Ret (- ENOENT), s\<lparr>ticks := ticks s + 1\<rparr>))"

section \<open>Counters\<close>

definition reset_counters :: "env \<Rightarrow> u32 \<Rightarrow> ('a world_scheme, unit) act" where
  "reset_counters E index =
     seqM (kcall E SysZero (\<lambda>m. m\<lparr>stats := (\<lambda>cpu. (stats m cpu)(index := (\<lambda>_. 0)))\<rparr>)) (ret ())"

definition reset_real_counters :: "env \<Rightarrow> u32 \<Rightarrow> ('a world_scheme, unit) act" where
  "reset_real_counters E real_id =
     seqM (kcall E SysZero
       (\<lambda>m. m\<lparr>real_stats := (\<lambda>cpu. (real_stats m cpu)(real_id := \<lparr>rs_packets = 0, rs_bytes = 0\<rparr>))\<rparr>)) (ret ())"

section \<open>Rings\<close>

definition install_ring :: "env \<Rightarrow> u32 \<Rightarrow> u32 list \<Rightarrow> ('a world_scheme, unit) act" where
  "install_ring E vid ring =
     (if length ring \<noteq> unat PB_RING_SIZE then throw (LogicError ''ring has the wrong size'')
      else
        bindM (ksys E SysRingCreate) (\<lambda>fd.
        if fd < 0 then throw (RuntimeError (''create ring map: '' @ errstr E fd))
        else
        bindM (gets ticks) (\<lambda>n.
        bindM (ksys E SysRingFill) (\<lambda>err.
        if err \<noteq> 0 then
          throw (RuntimeError (''fill ring map: '' @ errstr E err @ '' after '' @
                               to_string (batch_count E n) @ '' slots''))
        else
        bindM (kcall E SysRingSwap (\<lambda>m. m\<lparr>rings := (rings m)(vid := Some ring)\<rparr>)) (\<lambda>err.
        if err \<noteq> 0 then
          throw (RuntimeError (''swap ring for vip_id '' @ to_string (unat vid) @ '': '' @ errstr E err))
        else ret ())))))"

definition remove_ring :: "env \<Rightarrow> u32 \<Rightarrow> ('a world_scheme, unit) act" where
  "remove_ring E vid =
     bindM (kdelete E SysRingDelete (\<lambda>m. rings m vid \<noteq> None) (\<lambda>m. m\<lparr>rings := (rings m)(vid := None)\<rparr>)) (\<lambda>err.
       if err \<noteq> 0 \<and> err \<noteq> - ENOENT then
         throw (RuntimeError (''remove ring for vip_id '' @ to_string (unat vid) @ '': '' @ errstr E err))
       else ret ())"

section \<open>Laws\<close>

definition arrays_ok :: "env \<Rightarrow> bool" where
  "arrays_ok E \<longleftrightarrow> (\<forall>n. sys E SysReals n = 0 \<and> sys E SysNeigh n = 0 \<and> sys E SysConfig n = 0)"

definition deletes_ok :: "env \<Rightarrow> bool" where
  "deletes_ok E \<longleftrightarrow> (\<forall>n. sys E SysVipDelete n = 0 \<and> sys E SysRingDelete n = 0)"

definition macs_ok :: "env \<Rightarrow> bool" where
  "macs_ok E \<longleftrightarrow> (\<forall>f n ip. mac_lookup E = Some f \<longrightarrow> f n ip \<noteq> Some zero_mac)"

definition keys_law :: "env \<Rightarrow> bool" where
  "keys_law E \<longleftrightarrow> (\<forall>t. finite (dom t) \<longrightarrow> distinct (vip_keys E t) \<and> set (vip_keys E t) = dom t)"

definition env_ok :: "env \<Rightarrow> bool" where
  "env_ok E \<longleftrightarrow> arrays_ok E \<and> deletes_ok E \<and> macs_ok E"

text \<open>On top of that, a kernel with memory to spare: no ring or hash insertion fails.\<close>

definition inserts_ok :: "env \<Rightarrow> bool" where
  "inserts_ok E \<longleftrightarrow>
     (\<forall>n. sys E SysVipUpdate n = 0 \<and> sys E SysRingCreate n \<ge> 0 \<and> sys E SysRingFill n = 0 \<and> sys E SysRingSwap n = 0)"

section \<open>Weakest preconditions\<close>

lemma wp_kcall [wp_simps]:
  "wp (kcall E op f) Q R s =
     (if sys E op (ticks s) = 0
      then Q 0 (s\<lparr>kmaps := f (kmaps s), ktrace := f (kmaps s) # ktrace s, ticks := ticks s + 1\<rparr>)
      else Q (sys E op (ticks s)) (s\<lparr>ticks := ticks s + 1\<rparr>))"
  by (simp add: wp_def kcall_def Let_def)

lemma wp_ksys [wp_simps]: "wp (ksys E op) Q R s = Q (sys E op (ticks s)) (s\<lparr>ticks := ticks s + 1\<rparr>)"
  by (simp add: wp_def ksys_def)

lemma wp_kdelete [wp_simps]:
  "wp (kdelete E op present f) Q R s =
     (if present (kmaps s) then wp (kcall E op f) Q R s else Q (- ENOENT) (s\<lparr>ticks := ticks s + 1\<rparr>))"
  by (simp add: wp_def kdelete_def)

end
