(* ===== verification/Real_Table.thy ===== *)
theory Real_Table
  imports Std_Map Kernel_Calls
begin

text \<open>
  \<^verbatim>\<open>src/daemon/real_table.{h,cpp}\<close>: which \<^verbatim>\<open>real_id\<close> means which address, with reference
  counts, mirrored in the kernel's \<^verbatim>\<open>reals\<close> and \<^verbatim>\<open>neigh\<close> arrays.

  The state extends \<open>world\<close>, so that \<^verbatim>\<open>LbState\<close>, which owns a table, runs these operations on
  its own record.  The array \<^verbatim>\<open>slots_\<close> is a function on ids; only the ids below
  \<^verbatim>\<open>PB_MAX_REALS\<close> are ever used.
\<close>

section \<open>The code\<close>

record slot =
  s_addr :: u32
  s_refs :: u32
  s_mac :: "mac_addr option"

record rtable = world +
  slots :: "u32 \<Rightarrow> slot"
  by_addr :: "(u32, u32) smap"
  cursor :: u32

definition empty_slot :: slot where
  "empty_slot = \<lparr>s_addr = 0, s_refs = 0, s_mac = None\<rparr>"

definition slot_mac :: "slot \<Rightarrow> mac_addr" where
  "slot_mac sl = (case s_mac sl of Some m \<Rightarrow> m | None \<Rightarrow> zero_mac)"

definition write_neigh :: "env \<Rightarrow> u32 \<Rightarrow> mac_addr \<Rightarrow> ('a world_scheme, unit) act" where
  "write_neigh E id' m =
     bindM (kcall E SysNeigh (\<lambda>k. k\<lparr>neigh := (neigh k)(id' := \<lparr>mac = m, mac_pad = (0, 0)\<rparr>)\<rparr>)) (\<lambda>err.
       if err \<noteq> 0 then throw (RuntimeError (''write neigh['' @ to_string (unat id') @ '']: '' @ strerror E (- err)))
       else ret ())"

definition write_real :: "env \<Rightarrow> u32 \<Rightarrow> u32 \<Rightarrow> ('a world_scheme, unit) act" where
  "write_real E id' a =
     bindM (kcall E SysReals (\<lambda>k. k\<lparr>reals := (reals k)(id' := \<lparr>real_addr = a, real_flags = 0\<rparr>)\<rparr>)) (\<lambda>err.
       if err \<noteq> 0 then throw (RuntimeError (''write reals['' @ to_string (unat id') @ '']: '' @ strerror E (- err)))
       else ret ())"

definition write_slot :: "env \<Rightarrow> u32 \<Rightarrow> ('a rtable_scheme, unit) act" where
  "write_slot E id' =
     bindM (gets (\<lambda>s. slots s id')) (\<lambda>sl.
       if s_addr sl \<noteq> 0 then seqM (write_neigh E id' (slot_mac sl)) (write_real E id' (s_addr sl))
       else seqM (write_real E id' (s_addr sl)) (write_neigh E id' (slot_mac sl)))"

definition set_slot :: "u32 \<Rightarrow> slot \<Rightarrow> 'a rtable_scheme \<Rightarrow> 'a rtable_scheme" where
  "set_slot id' sl s = s\<lparr>slots := (slots s)(id' := sl)\<rparr>"

definition next_id :: "u32 \<Rightarrow> u32" where
  "next_id c = (if c + 1 < PB_MAX_REALS then c + 1 else 1)"

definition all_ids :: "u32 list" where
  "all_ids = map of_nat [1..<unat PB_MAX_REALS]"

text \<open>\<^verbatim>\<open>adopt\<close>; array lookups at an index in range do not fail.\<close>

definition adopt_id :: "u32 \<Rightarrow> u32 \<Rightarrow> ('a rtable_scheme, u32) act" where
  "adopt_id id' highest =
     bindM (gets (\<lambda>s. (reals (kmaps s) id', neigh (kmaps s) id'))) (\<lambda>(r, m).
       if real_addr r = 0 then ret highest
       else
         seqM (modify (\<lambda>s. set_slot id'
             ((slots s id')\<lparr>s_addr := real_addr r,
                s_mac := if Mac_is_zero (mac m) then s_mac (slots s id') else Some (mac m)\<rparr>) s))
        (seqM (modify (\<lambda>s. s\<lparr>by_addr := smap_insert (real_addr r) id' (by_addr s)\<rparr>))
         (ret id')))"

definition adopt :: "('a rtable_scheme, unit) act" where
  "adopt =
     bindM (foldM all_ids adopt_id 0) (\<lambda>highest.
       modify (\<lambda>s. s\<lparr>cursor := if highest + 1 < PB_MAX_REALS then highest + 1 else 1\<rparr>))"

definition drop_id :: "env \<Rightarrow> u32 \<Rightarrow> ('a rtable_scheme, unit) act" where
  "drop_id E id' =
     bindM (gets (\<lambda>s. slots s id')) (\<lambda>sl.
       if s_addr sl = 0 \<or> s_refs sl > 0 then ret ()
       else
         seqM (modify (\<lambda>s. s\<lparr>by_addr := smap_erase (s_addr sl) (by_addr s)\<rparr>))
        (seqM (modify (set_slot id' empty_slot)) (write_slot E id')))"

definition drop_unreferenced :: "env \<Rightarrow> ('a rtable_scheme, unit) act" where
  "drop_unreferenced E = forM all_ids (drop_id E)"

text \<open>The search loop of \<^verbatim>\<open>acquire\<close>; \<open>n\<close> is the number of tries left.\<close>

fun acquire_loop :: "env \<Rightarrow> nat \<Rightarrow> u32 \<Rightarrow> ('a rtable_scheme, u32) act" where
  "acquire_loop E 0 addr = throw (RuntimeError (''too many reals (max '' @ to_string (unat (PB_MAX_REALS - 1)) @ '')''))"
| "acquire_loop E (Suc n) addr =
     bindM (gets cursor) (\<lambda>id'.
     seqM (modify (\<lambda>s. s\<lparr>cursor := next_id id'\<rparr>))
    (bindM (gets (\<lambda>s. slots s id')) (\<lambda>sl.
       if s_addr sl \<noteq> 0 then acquire_loop E n addr
       else
         seqM (modify (set_slot id' \<lparr>s_addr = addr, s_refs = 1, s_mac = None\<rparr>))
        (seqM (modify (\<lambda>s. s\<lparr>by_addr := smap_insert addr id' (by_addr s)\<rparr>))
        (seqM (reset_real_counters E id')
        (seqM (write_slot E id')
         (ret id')))))))"

definition acquire :: "env \<Rightarrow> u32 \<Rightarrow> ('a rtable_scheme, u32) act" where
  "acquire E addr =
     (if addr = 0 then throw (InvalidArgument ''real address 0.0.0.0 marks a free slot'')
      else
        bindM (gets (\<lambda>s. smap_find (by_addr s) addr)) (\<lambda>it.
          case it of
            Some id' \<Rightarrow>
              seqM (modify (\<lambda>s. set_slot id' ((slots s id')\<lparr>s_refs := s_refs (slots s id') + 1\<rparr>) s)) (ret id')
          | None \<Rightarrow> acquire_loop E (unat (PB_MAX_REALS - 1)) addr))"

definition release :: "env \<Rightarrow> u32 \<Rightarrow> ('a rtable_scheme, unit) act" where
  "release E addr =
     bindM (gets (\<lambda>s. smap_find (by_addr s) addr)) (\<lambda>it.
       case it of
         None \<Rightarrow> ret ()
       | Some id' \<Rightarrow>
           bindM (gets (\<lambda>s. slots s id')) (\<lambda>sl.
           seqM (whenM (s_refs sl > 0) (modify (set_slot id' (sl\<lparr>s_refs := s_refs sl - 1\<rparr>))))
            (if s_refs sl > 0 \<and> s_refs sl - 1 > 0 then ret ()
             else
               seqM (modify (\<lambda>s. s\<lparr>by_addr := smap_erase addr (by_addr s)\<rparr>))
              (seqM (modify (set_slot id' empty_slot)) (write_slot E id')))))"

definition id_of :: "'a rtable_scheme \<Rightarrow> u32 \<Rightarrow> u32 option" where
  "id_of s addr = smap_find (by_addr s) addr"

definition addr_of :: "'a rtable_scheme \<Rightarrow> u32 \<Rightarrow> u32 option" where
  "addr_of s real_id =
     (if real_id = 0 \<or> real_id \<ge> PB_MAX_REALS \<or> s_addr (slots s real_id) = 0 then None
      else Some (s_addr (slots s real_id)))"

definition addrs :: "'a rtable_scheme \<Rightarrow> u32 list" where
  "addrs s = smap_keys (by_addr s)"

definition mac_of :: "'a rtable_scheme \<Rightarrow> u32 \<Rightarrow> mac_addr option" where
  "mac_of s addr = (case id_of s addr of Some id' \<Rightarrow> s_mac (slots s id') | None \<Rightarrow> None)"

definition set_mac :: "env \<Rightarrow> u32 \<Rightarrow> mac_addr \<Rightarrow> ('a rtable_scheme, bool) act" where
  "set_mac E addr m =
     bindM (gets (\<lambda>s. id_of s addr)) (\<lambda>it.
       case it of
         None \<Rightarrow> ret False
       | Some id' \<Rightarrow>
           bindM (gets (\<lambda>s. slots s id')) (\<lambda>sl.
             if s_mac sl = Some m then ret False
             else
               seqM (modify (set_slot id' (sl\<lparr>s_mac := Some m\<rparr>)))
              (seqM (write_slot E id') (ret True))))"

section \<open>Kernel writes\<close>

definition slot_written :: "u32 \<Rightarrow> slot \<Rightarrow> maps \<Rightarrow> maps" where
  "slot_written i sl k =
     k\<lparr>neigh := (neigh k)(i := \<lparr>mac = slot_mac sl, mac_pad = (0, 0)\<rparr>),
       reals := (reals k)(i := \<lparr>real_addr = s_addr sl, real_flags = 0\<rparr>)\<rparr>"

definition half_written :: "u32 \<Rightarrow> slot \<Rightarrow> maps \<Rightarrow> maps" where
  "half_written i sl k =
     (if s_addr sl \<noteq> 0 then k\<lparr>neigh := (neigh k)(i := \<lparr>mac = slot_mac sl, mac_pad = (0, 0)\<rparr>)\<rparr>
      else k\<lparr>reals := (reals k)(i := \<lparr>real_addr = s_addr sl, real_flags = 0\<rparr>)\<rparr>)"

lemma write_slot_eq:
  assumes "env_ok E"
  shows "write_slot E i s =
    (Ret (), s\<lparr>kmaps := slot_written i (slots s i) (kmaps s),
      ktrace := slot_written i (slots s i) (kmaps s) # half_written i (slots s i) (kmaps s) # ktrace s,
      ticks := ticks s + 2\<rparr>)"
  using assms
  by (simp add: write_slot_def write_neigh_def write_real_def kcall_def bindM_def seqM_def gets_def ret_def
    slot_written_def half_written_def env_ok_def arrays_ok_def Let_def)

lemma wp_write_slot:
  assumes "env_ok E"
  shows "wp (write_slot E i) Q R s = Q () (s\<lparr>kmaps := slot_written i (slots s i) (kmaps s),
      ktrace := slot_written i (slots s i) (kmaps s) # half_written i (slots s i) (kmaps s) # ktrace s,
      ticks := ticks s + 2\<rparr>)"
  by (simp add: wp_def write_slot_eq [OF assms])

text \<open>
  \<open>quiet I m m'\<close>: the change from \<open>m\<close> to \<open>m'\<close> touches, of the maps the control plane owns, only the
  \<^verbatim>\<open>reals\<close> and \<^verbatim>\<open>neigh\<close> slots in \<open>I\<close>, and never the connection table.
\<close>

definition quiet :: "u32 set \<Rightarrow> maps \<Rightarrow> maps \<Rightarrow> bool" where
  "quiet I m m' \<longleftrightarrow> vip_map m' = vip_map m \<and> rings m' = rings m \<and> conntrack m' = conntrack m \<and>
     config m' = config m \<and> (\<forall>i. i \<notin> I \<longrightarrow> reals m' i = reals m i \<and> neigh m' i = neigh m i)"

lemma quiet_written [simp]:
  "quiet {i} k (slot_written i sl k)" "quiet {i} k (half_written i sl k)"
  by (auto simp: quiet_def slot_written_def half_written_def)

lemma quiet_trans: "quiet I m m' \<Longrightarrow> quiet I m' m'' \<Longrightarrow> quiet I m m''"
  by (auto simp: quiet_def)

definition zeroed :: "env \<Rightarrow> nat \<Rightarrow> u32 \<Rightarrow> maps \<Rightarrow> maps" where
  "zeroed E n i m =
     (if sys E SysZero n = 0
      then m\<lparr>real_stats := (\<lambda>cpu. (real_stats m cpu)(i := \<lparr>rs_packets = 0, rs_bytes = 0\<rparr>))\<rparr> else m)"

lemma wp_reset_real_counters:
  "wp (reset_real_counters E i) Q R s =
     Q () (s\<lparr>kmaps := zeroed E (ticks s) i (kmaps s),
       ktrace := (if sys E SysZero (ticks s) = 0 then [zeroed E (ticks s) i (kmaps s)] else []) @ ktrace s,
       ticks := ticks s + 1\<rparr>)"
  by (simp add: reset_real_counters_def wp_simps zeroed_def)

lemma zeroed_simps [simp]:
  "vip_map (zeroed E n i m) = vip_map m" "rings (zeroed E n i m) = rings m" "reals (zeroed E n i m) = reals m"
  "neigh (zeroed E n i m) = neigh m" "conntrack (zeroed E n i m) = conntrack m" "config (zeroed E n i m) = config m"
  by (simp_all add: zeroed_def)

lemma quiet_zeroed [simp]: "quiet I m (zeroed E n i m)"
  by (simp add: quiet_def)

section \<open>The invariant\<close>

definition valid_id :: "u32 \<Rightarrow> bool" where
  "valid_id i \<longleftrightarrow> 0 < i \<and> i < PB_MAX_REALS"

text \<open>
  The kernel's copy of a slot.  The neighbour entry of a free slot is of no consequence: a slot is
  filled neighbour first.
\<close>

definition mirrors :: "u32 \<Rightarrow> 'a rtable_scheme \<Rightarrow> bool" where
  "mirrors i s \<longleftrightarrow> real_addr (reals (kmaps s) i) = s_addr (slots s i) \<and>
     (s_addr (slots s i) \<noteq> 0 \<longrightarrow> mac (neigh (kmaps s) i) = slot_mac (slots s i))"

definition rt_inv :: "'a rtable_scheme \<Rightarrow> bool" where
  "rt_inv s \<longleftrightarrow>
     (\<forall>a i. smap_find (by_addr s) a = Some i \<longrightarrow> valid_id i \<and> a \<noteq> 0 \<and> s_addr (slots s i) = a) \<and>
     (\<forall>i. valid_id i \<and> s_addr (slots s i) \<noteq> 0 \<longrightarrow> smap_find (by_addr s) (s_addr (slots s i)) = Some i) \<and>
     (\<forall>i. valid_id i \<and> s_addr (slots s i) = 0 \<longrightarrow> slots s i = empty_slot) \<and>
     (\<forall>i. s_mac (slots s i) \<noteq> Some zero_mac) \<and>
     valid_id (cursor s) \<and>
     (\<forall>i. valid_id i \<longrightarrow> mirrors i s)"

lemma rt_inv_find:
  assumes "rt_inv s" "smap_find (by_addr s) a = Some i"
  shows "valid_id i" "a \<noteq> 0" "s_addr (slots s i) = a"
  using assms by (auto simp: rt_inv_def)

lemma rt_inv_find_0: "rt_inv s \<Longrightarrow> smap_find (by_addr s) 0 = None"
  using rt_inv_find(2) by (cases "smap_find (by_addr s) 0") blast+

lemma rt_inv_inj:
  "rt_inv s \<Longrightarrow> smap_find (by_addr s) a = Some i \<Longrightarrow> smap_find (by_addr s) b = Some i \<Longrightarrow> a = b"
  using rt_inv_find(3) by metis

section \<open>The allocation cursor\<close>

lemma valid_id_unat: "valid_id i \<longleftrightarrow> 1 \<le> unat i \<and> unat i \<le> 511"
  by (auto simp: valid_id_def word_less_nat_alt Suc_le_eq unat_gt_0)

lemma unat_next_id: assumes "valid_id c" shows "unat (next_id c) = unat c mod 511 + 1"
proof -
  have "unat (c + 1) = unat c + 1"
    using assms by (simp add: valid_id_unat unat_word_ariths)
  then show ?thesis
    using assms by (auto simp: next_id_def valid_id_unat word_less_nat_alt mod_if)
qed

lemma valid_next_id [simp]: "valid_id c \<Longrightarrow> valid_id (next_id c)"
  using mod_less_divisor [of 511 "unat c"] by (simp add: unat_next_id valid_id_unat [of "next_id c"])

lemma unat_next_id_iter:
  "valid_id c \<Longrightarrow> valid_id ((next_id ^^ j) c) \<and> unat ((next_id ^^ j) c) = (unat c - 1 + j) mod 511 + 1"
proof (induction j)
  case 0
  then show ?case by (auto simp: valid_id_unat)
next
  case (Suc j)
  then show ?case
    by (simp add: unat_next_id mod_simps)
qed

text \<open>511 steps visit every id and lead back to the start.\<close>

lemma next_id_covers:
  assumes "valid_id c" "valid_id i"
  obtains j where "j < 511" "(next_id ^^ j) c = i"
proof
  let ?j = "(unat i + 511 - unat c) mod 511"
  show "?j < 511" by simp
  have "(unat c - 1 + ?j) mod 511 = (unat c - 1 + (unat i + 511 - unat c)) mod 511"
    by (simp add: mod_simps)
  also have "\<dots> = (unat i - 1 + 511) mod 511"
    using assms by (intro arg_cong [where f = "\<lambda>n. n mod 511"]) (auto simp: valid_id_unat)
  also have "\<dots> = unat i - 1"
    unfolding mod_add_self2 using assms by (intro mod_less) (auto simp: valid_id_unat)
  finally have "unat ((next_id ^^ ?j) c) = unat i"
    using unat_next_id_iter [OF assms(1), of ?j] assms(2) by (auto simp: valid_id_unat)
  then show "(next_id ^^ ?j) c = i" by (simp add: word_unat_eq_iff)
qed

lemma next_id_cycle: assumes "valid_id c" shows "(next_id ^^ 511) c = c"
proof -
  have "unat ((next_id ^^ 511) c) = unat c"
    using unat_next_id_iter [OF assms, of 511] assms by (auto simp: valid_id_unat)
  then show ?thesis by (simp add: word_unat_eq_iff)
qed

section \<open>Specifications of the operations\<close>

definition table_full :: "'a rtable_scheme \<Rightarrow> bool" where
  "table_full s \<longleftrightarrow> (\<forall>i. valid_id i \<longrightarrow> s_addr (slots s i) \<noteq> 0)"

text \<open>\<open>j\<close> steps from the cursor is the first free id.\<close>

definition first_free :: "'a rtable_scheme \<Rightarrow> nat \<Rightarrow> bool" where
  "first_free s j \<longleftrightarrow> s_addr (slots s ((next_id ^^ j) (cursor s))) = 0 \<and>
     (\<forall>j' < j. s_addr (slots s ((next_id ^^ j') (cursor s))) \<noteq> 0)"

text \<open>
  What an operation leaves alone: \<open>rest s s'\<close> says that the fields of a record that extends the table
  are as before, \<open>kquiet P s s'\<close> that every state the kernel's maps went through satisfies \<open>P\<close>.
\<close>

definition rest :: "'a rtable_scheme \<Rightarrow> 'a rtable_scheme \<Rightarrow> bool" where
  "rest s s' \<longleftrightarrow> rtable.more s' = rtable.more s"

definition kquiet :: "(maps \<Rightarrow> bool) \<Rightarrow> 'a world_scheme \<Rightarrow> 'a world_scheme \<Rightarrow> bool" where
  "kquiet P s s' \<longleftrightarrow> (\<exists>ex. ktrace s' = ex @ ktrace s \<and> (\<forall>m \<in> set ex. P m)) \<and> P (kmaps s')"

text \<open>While slot \<open>i\<close> is rewritten, its address in the kernel is the old or the new one.\<close>

definition slot_step :: "'a rtable_scheme \<Rightarrow> u32 \<Rightarrow> u32 \<Rightarrow> maps \<Rightarrow> bool" where
  "slot_step s i addr m \<longleftrightarrow> quiet {i} (kmaps s) m \<and> real_addr (reals m i) \<in> {real_addr (reals (kmaps s) i), addr}"

lemma slot_step_quiet: "slot_step s i addr m \<Longrightarrow> quiet {i} (kmaps s) m"
  by (simp add: slot_step_def)

text \<open>Allocation of a new id: the state after \<^verbatim>\<open>acquire\<close> of an address not in the table.\<close>

definition allocated :: "'a rtable_scheme \<Rightarrow> u32 \<Rightarrow> u32 \<Rightarrow> 'a rtable_scheme \<Rightarrow> bool" where
  "allocated s addr i s' \<longleftrightarrow>
     rest s s' \<and> slots s' = (slots s)(i := \<lparr>s_addr = addr, s_refs = 1, s_mac = None\<rparr>) \<and>
     by_addr s' = smap_insert addr i (by_addr s) \<and> cursor s' = next_id i \<and>
     kquiet (slot_step s i addr) s s' \<and> mirrors i s'"

lemma wp_acquire_loop:
  assumes "env_ok E"
    and hit: "\<And>j s'. j < k \<Longrightarrow> first_free s j \<Longrightarrow> allocated s addr ((next_id ^^ j) (cursor s)) s' \<Longrightarrow>
      Q ((next_id ^^ j) (cursor s)) s'"
    and miss: "\<forall>j < k. s_addr (slots s ((next_id ^^ j) (cursor s))) \<noteq> 0 \<Longrightarrow>
      R (RuntimeError (''too many reals (max '' @ to_string (unat (PB_MAX_REALS - 1)) @ '')''))
        (s\<lparr>cursor := (next_id ^^ k) (cursor s)\<rparr>)"
  shows "wp (acquire_loop E k addr) Q R s"
  using hit miss
proof (induction k arbitrary: s)
  case 0
  then show ?case by (simp add: wp_simps)
next
  case (Suc k)
  let ?i = "cursor s" and ?t = "s\<lparr>cursor := next_id (cursor s)\<rparr>"
  show ?case
  proof (cases "s_addr (slots s ?i) = 0")
    case True
    have ff: "first_free s 0" using True by (simp add: first_free_def)
    let ?z = "zeroed E (ticks s) ?i (kmaps s)" and ?sl = "\<lparr>s_addr = addr, s_refs = 1, s_mac = None\<rparr>"
    have q: "quiet {?i} (kmaps s) (slot_written ?i ?sl ?z)" "quiet {?i} (kmaps s) (half_written ?i ?sl ?z)"
      using quiet_trans [OF quiet_zeroed quiet_written(1)] quiet_trans [OF quiet_zeroed quiet_written(2)]
      by simp_all
    show ?thesis
      using Suc.prems(1) [OF _ ff] True q
      by (auto simp: wp_simps wp_reset_real_counters wp_write_slot [OF assms(1)] set_slot_def allocated_def
        rest_def kquiet_def slot_step_def mirrors_def slot_written_def half_written_def)
  next
    case False
    have "wp (acquire_loop E k addr) Q R ?t"
    proof (rule Suc.IH)
      fix j s'
      assume A: "j < k" "first_free ?t j" "allocated ?t addr ((next_id ^^ j) (cursor ?t)) s'"
      have "first_free s (Suc j)"
        using A(2) False by (auto simp: first_free_def funpow_swap1 less_Suc_eq_0_disj)
      with Suc.prems(1) [OF _ this] A(1,3) show "Q ((next_id ^^ j) (cursor ?t)) s'"
        by (simp add: funpow_swap1 allocated_def rest_def kquiet_def slot_step_def)
    next
      assume "\<forall>j < k. s_addr (slots ?t ((next_id ^^ j) (cursor ?t))) \<noteq> 0"
      then have "\<forall>j < Suc k. s_addr (slots s ((next_id ^^ j) (cursor s))) \<noteq> 0"
        using False by (auto simp: funpow_swap1 less_Suc_eq_0_disj)
      from Suc.prems(2) [OF this]
      show "R (RuntimeError (''too many reals (max '' @ to_string (unat (PB_MAX_REALS - 1)) @ '')''))
        (?t\<lparr>cursor := (next_id ^^ k) (cursor ?t)\<rparr>)"
        by (simp add: funpow_swap1)
    qed
    then show ?thesis
      using False by (simp add: wp_simps)
  qed
qed

text \<open>
  An operation that changes one slot keeps the invariant if the slot, the address map and the
  kernel's mirror of the slot fit together again.
\<close>

lemma rt_inv_change:
  assumes "rt_inv s" "valid_id i" "\<forall>j. j \<noteq> i \<longrightarrow> slots s' j = slots s j" "quiet {i} (kmaps s) (kmaps s')"
    and "mirrors i s'" "valid_id (cursor s')" "s_mac (slots s' i) \<noteq> Some zero_mac"
    and "s_addr (slots s' i) = 0 \<Longrightarrow> slots s' i = empty_slot"
    and find: "\<And>a. smap_find (by_addr s') a =
      (if a \<noteq> 0 \<and> a = s_addr (slots s' i) then Some i
       else if a = s_addr (slots s i) then None else smap_find (by_addr s) a)"
    and new: "s_addr (slots s' i) = s_addr (slots s i) \<or> smap_find (by_addr s) (s_addr (slots s' i)) = None"
  shows "rt_inv s'"
  unfolding rt_inv_def
proof (intro conjI allI impI)
  note I = assms(1) [unfolded rt_inv_def]
  fix j a
  assume A: "smap_find (by_addr s') a = Some j"
  consider "j = i" "a \<noteq> 0" "a = s_addr (slots s' i)" | "a \<noteq> s_addr (slots s i)" "smap_find (by_addr s) a = Some j"
    using A find [of a] by (auto split: if_splits)
  then have "valid_id j \<and> a \<noteq> 0 \<and> s_addr (slots s' j) = a"
  proof cases
    case 2
    then have "j \<noteq> i" using I by auto
    with 2 I assms(3) show ?thesis by simp
  qed (use assms(2) in simp)
  then show "valid_id j" "a \<noteq> 0" "s_addr (slots s' j) = a" by auto
next
  note I = assms(1) [unfolded rt_inv_def]
  fix j
  show "s_mac (slots s' j) \<noteq> Some zero_mac"
    using I assms(3,7) by (cases "j = i") auto
  show "slots s' j = empty_slot" if "valid_id j \<and> s_addr (slots s' j) = 0"
    using that I assms(3,8) by (cases "j = i") auto
  show "smap_find (by_addr s') (s_addr (slots s' j)) = Some j" if "valid_id j \<and> s_addr (slots s' j) \<noteq> 0"
  proof (cases "j = i")
    case False
    then have *: "smap_find (by_addr s) (s_addr (slots s' j)) = Some j" "s_addr (slots s' j) = s_addr (slots s j)"
      using that I assms(3) by auto
    moreover have "s_addr (slots s j) \<noteq> s_addr (slots s i)"
      using * that I False assms(2) by (metis option.inject)
    moreover have "s_addr (slots s j) \<noteq> s_addr (slots s' i)"
      using new * False calculation by auto
    ultimately show ?thesis using find by auto
  qed (use that find in auto)
  show "mirrors j s'" if "valid_id j"
  proof (cases "j = i")
    case False
    then have "mirrors j s" using I that by blast
    with False assms(3,4) show ?thesis by (simp add: mirrors_def quiet_def)
  qed (use assms(5) in simp)
qed (rule assms(6))

lemma rt_inv_mirrors: "rt_inv s \<Longrightarrow> valid_id i \<Longrightarrow> mirrors i s"
  by (simp add: rt_inv_def)

lemma rt_inv_refs:
  assumes "rt_inv s" "smap_find (by_addr s) a = Some i"
  shows "rt_inv (set_slot i ((slots s i)\<lparr>s_refs := r\<rparr>) s)"
  by (rule rt_inv_change [OF assms(1), of i])
    (use assms rt_inv_find [OF assms] in \<open>auto simp: set_slot_def quiet_def mirrors_def rt_inv_def slot_mac_def\<close>)

lemma rt_inv_allocated:
  assumes "rt_inv s" "valid_id i" "s_addr (slots s i) = 0" "addr \<noteq> 0" "smap_find (by_addr s) addr = None"
    and "allocated s addr i s'"
  shows "rt_inv s'"
proof (rule rt_inv_change [OF assms(1,2)])
  show "smap_find (by_addr s') a = (if a \<noteq> 0 \<and> a = s_addr (slots s' i) then Some i
       else if a = s_addr (slots s i) then None else smap_find (by_addr s) a)" for a
    using assms rt_inv_find(2) [OF assms(1), of a]
    by (cases "smap_find (by_addr s) a") (auto simp: allocated_def)
qed (use assms in \<open>auto simp: allocated_def kquiet_def slot_step_def\<close>)

lemma wp_acquire:
  assumes "env_ok E" "rt_inv s" "addr \<noteq> 0"
    and known: "\<And>i. smap_find (by_addr s) addr = Some i \<Longrightarrow>
      Q i (set_slot i ((slots s i)\<lparr>s_refs := s_refs (slots s i) + 1\<rparr>) s)"
    and fresh: "\<And>j i s'. smap_find (by_addr s) addr = None \<Longrightarrow> first_free s j \<Longrightarrow> i = (next_id ^^ j) (cursor s) \<Longrightarrow>
      valid_id i \<Longrightarrow> allocated s addr i s' \<Longrightarrow> rt_inv s' \<Longrightarrow> Q i s'"
    and full: "smap_find (by_addr s) addr = None \<Longrightarrow> table_full s \<Longrightarrow>
      R (RuntimeError (''too many reals (max '' @ to_string (unat (PB_MAX_REALS - 1)) @ '')'')) s"
  shows "wp (acquire E addr) Q R s"
proof (cases "smap_find (by_addr s) addr")
  case None
  have c: "valid_id (cursor s)" using assms(2) by (simp add: rt_inv_def)
  have "wp (acquire_loop E 511 addr) Q R s"
  proof (rule wp_acquire_loop [OF assms(1)])
    fix j s'
    assume A: "j < 511" "first_free s j" "allocated s addr ((next_id ^^ j) (cursor s)) s'"
    have "valid_id ((next_id ^^ j) (cursor s))" using unat_next_id_iter [OF c] by blast
    with A None show "Q ((next_id ^^ j) (cursor s)) s'"
      using rt_inv_allocated [OF assms(2) _ _ assms(3) None A(3)] by (intro fresh) (auto simp: first_free_def)
  next
    assume A: "\<forall>j < 511. s_addr (slots s ((next_id ^^ j) (cursor s))) \<noteq> 0"
    have "table_full s"
      unfolding table_full_def using A next_id_covers [OF c] by metis
    then show "R (RuntimeError (''too many reals (max '' @ to_string (unat (PB_MAX_REALS - 1)) @ '')''))
        (s\<lparr>cursor := (next_id ^^ 511) (cursor s)\<rparr>)"
      using full [OF None] next_id_cycle [OF c] by simp
  qed
  then show ?thesis
    using None assms(3) by (simp add: acquire_def wp_simps PB_MAX_REALS_def)
next
  case (Some i)
  then show ?thesis
    using known assms(3) by (simp add: acquire_def wp_simps)
qed

text \<open>The state after the last reference to an address is gone.\<close>

definition freed :: "'a rtable_scheme \<Rightarrow> u32 \<Rightarrow> u32 \<Rightarrow> 'a rtable_scheme \<Rightarrow> bool" where
  "freed s addr i s' \<longleftrightarrow>
     rest s s' \<and> slots s' = (slots s)(i := empty_slot) \<and> by_addr s' = smap_erase addr (by_addr s) \<and>
     cursor s' = cursor s \<and> kquiet (slot_step s i 0) s s' \<and> mirrors i s'"

lemma empty_slot_simps [simp]: "s_addr empty_slot = 0" "s_refs empty_slot = 0" "s_mac empty_slot = None"
  by (simp_all add: empty_slot_def)

lemma rt_inv_freed:
  assumes "rt_inv s" "smap_find (by_addr s) addr = Some i" "freed s addr i s'"
  shows "rt_inv s'"
  by (rule rt_inv_change [OF assms(1), of i])
    (use assms rt_inv_find [OF assms(1,2)] rt_inv_find_0 [OF assms(1)] in
      \<open>auto simp: freed_def kquiet_def slot_step_def rt_inv_def\<close>)

lemma refs_gt_1: "1 < r \<longleftrightarrow> 0 < r \<and> 0 < r - 1" for r :: u32
proof (cases "r = 0")
  case False
  then have "unat (r - 1) = unat r - 1" by (simp add: unat_minus_one)
  then show ?thesis by (auto simp: word_less_nat_alt)
qed simp

lemma wp_free_slot:
  assumes "env_ok E" "\<And>s'. freed s addr i s' \<Longrightarrow> Q () s'"
  shows "wp (seqM (modify (\<lambda>s. s\<lparr>by_addr := smap_erase addr (by_addr s)\<rparr>))
              (seqM (modify (set_slot i empty_slot)) (write_slot E i))) Q R s"
  using assms
  by (auto simp: wp_simps wp_write_slot set_slot_def freed_def rest_def kquiet_def slot_step_def mirrors_def
    slot_written_def quiet_def half_written_def)

lemma wp_release:
  assumes "env_ok E" "rt_inv s"
    and absent: "smap_find (by_addr s) addr = None \<Longrightarrow> Q () s"
    and shared: "\<And>i. smap_find (by_addr s) addr = Some i \<Longrightarrow> 1 < s_refs (slots s i) \<Longrightarrow>
      Q () (set_slot i ((slots s i)\<lparr>s_refs := s_refs (slots s i) - 1\<rparr>) s)"
    and last: "\<And>i s'. smap_find (by_addr s) addr = Some i \<Longrightarrow> s_refs (slots s i) \<le> 1 \<Longrightarrow>
      freed s addr i s' \<Longrightarrow> rt_inv s' \<Longrightarrow> Q () s'"
  shows "wp (release E addr) Q R s"
proof (cases "smap_find (by_addr s) addr")
  case None
  then show ?thesis using absent by (simp add: release_def wp_simps)
next
  case (Some i)
  let ?r = "s_refs (slots s i)"
  note gt = refs_gt_1 [of ?r]
  show ?thesis
  proof (cases "1 < ?r")
    case True
    then show ?thesis
      using shared [OF Some True] Some gt by (simp add: release_def wp_simps)
  next
    case False
    let ?s = "if ?r > 0 then set_slot i ((slots s i)\<lparr>s_refs := ?r - 1\<rparr>) s else s"
    have "wp (seqM (modify (\<lambda>s. s\<lparr>by_addr := smap_erase addr (by_addr s)\<rparr>))
              (seqM (modify (set_slot i empty_slot)) (write_slot E i))) Q R ?s"
    proof (rule wp_free_slot [OF assms(1)])
      fix s'
      assume "freed ?s addr i s'"
      then have "freed s addr i s'"
        by (auto simp: freed_def rest_def kquiet_def slot_step_def set_slot_def split: if_splits)
      then show "Q () s'"
        using last [OF Some _ _ rt_inv_freed [OF assms(2) Some]] False by auto
    qed
    then show ?thesis
      using Some False gt by (cases "0 < ?r") (simp_all add: release_def wp_simps)
  qed
qed

text \<open>A new address in the neighbour table.\<close>

definition resolved :: "'a rtable_scheme \<Rightarrow> u32 \<Rightarrow> mac_addr \<Rightarrow> u32 \<Rightarrow> 'a rtable_scheme \<Rightarrow> bool" where
  "resolved s addr m i s' \<longleftrightarrow>
     rest s s' \<and> slots s' = (slots s)(i := (slots s i)\<lparr>s_mac := Some m\<rparr>) \<and> by_addr s' = by_addr s \<and>
     cursor s' = cursor s \<and>
     kquiet (\<lambda>k. slot_step s i addr k \<and> mac (neigh k i) = m) s s' \<and> mirrors i s'"

lemma rt_inv_resolved:
  assumes "rt_inv s" "smap_find (by_addr s) addr = Some i" "m \<noteq> zero_mac" "resolved s addr m i s'"
  shows "rt_inv s'"
  by (rule rt_inv_change [OF assms(1), of i])
    (use assms rt_inv_find [OF assms(1,2)] in \<open>auto simp: resolved_def kquiet_def slot_step_def rt_inv_def\<close>)

lemma wp_set_mac:
  assumes "env_ok E" "rt_inv s" "m \<noteq> zero_mac"
    and same: "mac_of s addr = Some m \<or> id_of s addr = None \<Longrightarrow> Q False s"
    and changed: "\<And>i s'. smap_find (by_addr s) addr = Some i \<Longrightarrow> s_mac (slots s i) \<noteq> Some m \<Longrightarrow>
      resolved s addr m i s' \<Longrightarrow> rt_inv s' \<Longrightarrow> Q True s'"
  shows "wp (set_mac E addr m) Q R s"
proof (cases "smap_find (by_addr s) addr")
  case None
  then show ?thesis using same by (simp add: set_mac_def wp_simps id_of_def)
next
  case (Some i)
  note f = rt_inv_find [OF assms(2) Some]
  show ?thesis
  proof (cases "s_mac (slots s i) = Some m")
    case True
    then show ?thesis using same Some by (simp add: set_mac_def wp_simps id_of_def mac_of_def)
  next
    case False
    let ?sl = "(slots s i)\<lparr>s_mac := Some m\<rparr>"
    let ?s = "s\<lparr>slots := (slots s)(i := ?sl), kmaps := slot_written i ?sl (kmaps s),
       ktrace := slot_written i ?sl (kmaps s) # half_written i ?sl (kmaps s) # ktrace s, ticks := ticks s + 2\<rparr>"
    have "mirrors i s" using rt_inv_mirrors [OF assms(2) f(1)] .
    then have r: "resolved s addr m i ?s"
      using f by (auto simp: resolved_def rest_def kquiet_def slot_step_def mirrors_def slot_written_def
        half_written_def quiet_def slot_mac_def)
    then show ?thesis
      using changed [OF Some False r rt_inv_resolved [OF assms(2) Some assms(3) r]] Some False
      by (simp add: set_mac_def wp_simps id_of_def wp_write_slot [OF assms(1)] set_slot_def)
  qed
qed

subsection \<open>Startup\<close>

lemma set_all_ids [simp]: "set all_ids = {i. valid_id i}"
proof -
  have "i \<in> of_nat ` {1..<512}" if "valid_id i" for i :: u32
    using that by (intro image_eqI [of _ _ "unat i"]) (auto simp: valid_id_unat)
  then show ?thesis
    by (auto simp: all_ids_def valid_id_unat unat_of_nat)
qed

lemma distinct_all_ids: "distinct all_ids"
proof -
  have "inj_on (of_nat :: nat \<Rightarrow> u32) {1..<512}"
    by (rule inj_onI) (simp add: word_unat_eq_iff unat_of_nat)
  then show ?thesis by (simp add: all_ids_def distinct_map)
qed

lemma all_ids_split: assumes "all_ids = zs @ y # ys" shows "valid_id y" "y \<notin> set ys"
proof -
  have "y \<in> set all_ids" unfolding assms by simp
  then show "valid_id y" by simp
  show "y \<notin> set ys" using distinct_all_ids unfolding assms by simp
qed

text \<open>The pinned array names no address twice, as a table leaves it.\<close>

definition pinned_ok :: "maps \<Rightarrow> bool" where
  "pinned_ok k \<longleftrightarrow> (\<forall>i j. valid_id i \<and> valid_id j \<and> real_addr (reals k i) \<noteq> 0 \<and>
     real_addr (reals k i) = real_addr (reals k j) \<longrightarrow> i = j)"

definition pinned_slot :: "maps \<Rightarrow> u32 \<Rightarrow> slot" where
  "pinned_slot k i =
     (if valid_id i \<and> real_addr (reals k i) \<noteq> 0
      then \<lparr>s_addr = real_addr (reals k i), s_refs = 0,
            s_mac = (if mac (neigh k i) = zero_mac then None else Some (mac (neigh k i)))\<rparr>
      else empty_slot)"

definition fresh_table :: "'a rtable_scheme \<Rightarrow> bool" where
  "fresh_table s \<longleftrightarrow> slots s = (\<lambda>_. empty_slot) \<and> by_addr s = smap_empty \<and> cursor s = 1"

lemma adopt_spec:
  "hoare (\<lambda>s. s = s0 \<and> fresh_table s \<and> pinned_ok (kmaps s)) adopt
     (\<lambda>_ s. rt_inv s \<and> rest s0 s \<and> kmaps s = kmaps s0 \<and> ktrace s = ktrace s0 \<and> slots s = pinned_slot (kmaps s0))
     (\<lambda>_ _. False)"
proof -
  define k where "k = kmaps s0"
  define I where "I ys h s \<longleftrightarrow> fresh_table s0 \<and> pinned_ok k \<and>
      rest s0 s \<and> kmaps s = k \<and> ktrace s = ktrace s0 \<and> (h = 0 \<or> valid_id h) \<and>
      slots s = (\<lambda>i. if i \<in> set ys then empty_slot else pinned_slot k i) \<and>
      (\<forall>a i. smap_find (by_addr s) a = Some i \<longleftrightarrow> valid_id i \<and> i \<notin> set ys \<and> a \<noteq> 0 \<and> real_addr (reals k i) = a)"
    for ys :: "u32 list" and h and s :: "'a rtable_scheme"
  have step: "hoare (I (y # ys) h) (adopt_id y h) (\<lambda>h'. I ys h') (\<lambda>_ _. False)"
    if ids: "all_ids = zs @ y # ys" for y ys zs h
  proof (rule hoareI)
    fix s
    assume A: "I (y # ys) h s"
    note y = all_ids_split [OF ids]
    let ?r = "real_addr (reals k y)"
    have uniq: "i = y" if "valid_id i" "real_addr (reals k i) = ?r" "?r \<noteq> 0" for i
      using A that y(1) unfolding I_def pinned_ok_def by metis
    have sl: "slots s i = (if i = y \<or> i \<in> set ys then empty_slot else pinned_slot k i)" for i
      using A by (simp add: I_def)
    have km: "kmaps s = k" using A by (simp add: I_def)
    show "wp (adopt_id y h) (\<lambda>h'. I ys h') (\<lambda>_ _. False) s"
    proof (cases "?r = 0")
      case True
      then have "pinned_slot k y = empty_slot" by (simp add: pinned_slot_def)
      then have "I ys h s"
        using A True by (auto simp: I_def fun_eq_iff)
      then show ?thesis using True km by (simp add: adopt_id_def wp_simps)
    next
      case False
      let ?s = "s\<lparr>slots := (slots s)(y := pinned_slot k y), by_addr := smap_insert ?r y (by_addr s)\<rparr>"
      have "((smap_find (by_addr s))(?r \<mapsto> y)) a = Some i \<longleftrightarrow>
          valid_id i \<and> i \<notin> set ys \<and> a \<noteq> 0 \<and> real_addr (reals k i) = a" for a i
        using A y False uniq by (cases "a = ?r") (auto simp: I_def)
      then have "I ys y ?s"
        using A y sl by (simp add: I_def rest_def fun_eq_iff)
      then show ?thesis
        using False km sl [of y] y
        by (cases "mac (neigh k y) = zero_mac")
          (simp_all add: adopt_id_def wp_simps set_slot_def pinned_slot_def empty_slot_def)
    qed
  qed
  have init: "I all_ids 0 s" if "s = s0" "fresh_table s" "pinned_ok (kmaps s)" for s
    using that by (auto simp: I_def k_def rest_def fresh_table_def pinned_slot_def fun_eq_iff)
  have final: "rt_inv (s\<lparr>cursor := if h + 1 < PB_MAX_REALS then h + 1 else 1\<rparr>)" "slots s = pinned_slot k"
    if A: "I [] h s" for h s
  proof -
    have "valid_id (if h + 1 < PB_MAX_REALS then h + 1 else 1)"
      using A valid_next_id [of h] by (auto simp: I_def next_id_def valid_id_def abi_consts)
    then show "rt_inv (s\<lparr>cursor := if h + 1 < PB_MAX_REALS then h + 1 else 1\<rparr>)"
      using A by (auto simp: I_def rt_inv_def pinned_slot_def mirrors_def slot_mac_def empty_slot_def)
    show "slots s = pinned_slot k" using A by (simp add: I_def)
  qed
  show ?thesis
    unfolding adopt_def
  proof (rule hoare_bindM)
    show "hoare (\<lambda>s. s = s0 \<and> fresh_table s \<and> pinned_ok (kmaps s))
      (foldM all_ids adopt_id 0) (\<lambda>h. I [] h) (\<lambda>_ _. False)"
      by (rule hoare_conseq [OF hoare_foldM [where I = I, OF step]]) (use init in auto)
    show "hoare (I [] h) (modify (\<lambda>s. s\<lparr>cursor := if h + 1 < PB_MAX_REALS then h + 1 else 1\<rparr>))
       (\<lambda>_ s. rt_inv s \<and> rest s0 s \<and> kmaps s = kmaps s0 \<and> ktrace s = ktrace s0 \<and> slots s = pinned_slot (kmaps s0))
       (\<lambda>_ _. False)" for h
      using final [of h] by (auto simp: hoare_def wp_simps I_def rest_def k_def)
  qed
qed

definition drop_step :: "'a rtable_scheme \<Rightarrow> maps \<Rightarrow> bool" where
  "drop_step s m \<longleftrightarrow> quiet {i. valid_id i \<and> s_refs (slots s i) = 0} (kmaps s) m \<and>
     (\<forall>i. real_addr (reals m i) \<in> {real_addr (reals (kmaps s) i), 0})"

lemma drop_unreferenced_spec:
  assumes "env_ok E"
  shows "hoare (\<lambda>s. s = s0 \<and> rt_inv s) (drop_unreferenced E)
     (\<lambda>_ s. rt_inv s \<and> rest s0 s \<and>
        (\<forall>i. slots s i = (if valid_id i \<and> s_refs (slots s0 i) = 0 then empty_slot else slots s0 i)) \<and>
        (\<forall>a i. smap_find (by_addr s) a = Some i \<longleftrightarrow> smap_find (by_addr s0) a = Some i \<and> s_refs (slots s0 i) \<noteq> 0) \<and>
        kquiet (drop_step s0) s0 s)
     (\<lambda>_ _. False)"
proof -
  let ?D = "{i. valid_id i \<and> s_refs (slots s0 i) = 0}"
  define I where "I ys s \<longleftrightarrow> rt_inv s0 \<and> rt_inv s \<and> rest s0 s \<and>
      (\<forall>i. slots s i = (if i \<notin> set ys \<and> i \<in> ?D then empty_slot else slots s0 i)) \<and>
      (\<forall>a i. smap_find (by_addr s) a = Some i \<longleftrightarrow>
         smap_find (by_addr s0) a = Some i \<and> (i \<notin> set ys \<longrightarrow> s_refs (slots s0 i) \<noteq> 0)) \<and>
      kquiet (drop_step s0) s0 s"
    for ys :: "u32 list" and s :: "'a rtable_scheme"
  have step: "hoare (I (y # ys)) (drop_id E y) (\<lambda>_. I ys) (\<lambda>_ _. False)"
    if ids: "all_ids = zs @ y # ys" for y ys zs
  proof (rule hoareI)
    fix s
    assume A: "I (y # ys) s"
    note y = all_ids_split [OF ids]
    have rt0: "rt_inv s0" and rt: "rt_inv s" and rs: "rest s0 s"
      and sl: "\<And>i. slots s i = (if i \<noteq> y \<and> i \<notin> set ys \<and> i \<in> ?D then empty_slot else slots s0 i)"
      and fd: "\<And>a i. smap_find (by_addr s) a = Some i \<longleftrightarrow>
        smap_find (by_addr s0) a = Some i \<and> (i \<noteq> y \<and> i \<notin> set ys \<longrightarrow> s_refs (slots s0 i) \<noteq> 0)"
      and kq: "kquiet (drop_step s0) s0 s"
      using A by (simp_all add: I_def)
    have inj: "b = s_addr (slots s0 y)" if "smap_find (by_addr s0) b = Some y" for b
      using rt_inv_find(3) [OF rt0 that] by simp
    show "wp (drop_id E y) (\<lambda>_. I ys) (\<lambda>_ _. False) s"
    proof (cases "s_addr (slots s0 y) = 0 \<or> s_refs (slots s0 y) \<noteq> 0")
      case True
      have 1: "s_refs (slots s0 y) \<noteq> 0" if "smap_find (by_addr s0) a = Some y" for a
        using True rt_inv_find [OF rt0 that] by simp
      have 2: "slots s0 y = empty_slot" if "y \<in> ?D"
        using True that rt0 y by (simp add: rt_inv_def)
      have "I ys s"
        unfolding I_def
      proof (intro conjI allI)
        show "slots s i = (if i \<notin> set ys \<and> i \<in> ?D then empty_slot else slots s0 i)" for i
          using 2 sl [of i] by (cases "i = y") auto
        show "smap_find (by_addr s) a = Some i \<longleftrightarrow>
          smap_find (by_addr s0) a = Some i \<and> (i \<notin> set ys \<longrightarrow> s_refs (slots s0 i) \<noteq> 0)" for a i
          using 1 [of a] fd [of a i] by (cases "i = y") auto
      qed (use rt0 rt rs kq in simp_all)
      then show ?thesis using True sl [of y] by (simp add: drop_id_def wp_simps word_gt_0)
    next
      case False
      let ?a = "s_addr (slots s0 y)"
      have f0: "smap_find (by_addr s0) ?a = Some y"
        using rt0 y False by (simp add: rt_inv_def)
      then have f1: "smap_find (by_addr s) ?a = Some y" by (simp add: fd)
      have "I ys s'" if fr: "freed s ?a y s'" for s'
        unfolding I_def
      proof (intro conjI allI)
        show "rt_inv s'" by (rule rt_inv_freed [OF rt f1 fr])
        have ds: "drop_step s0 (kmaps s)" using kq by (simp add: kquiet_def)
        have "drop_step s0 m" if m: "slot_step s y 0 m" for m
          unfolding drop_step_def
        proof (intro conjI allI)
          show "quiet ?D (kmaps s0) m"
            using m ds False y by (auto simp: quiet_def slot_step_def drop_step_def)
          show "real_addr (reals m i) \<in> {real_addr (reals (kmaps s0) i), 0}" for i
          proof (cases "i = y")
            case True
            then show ?thesis using m ds by (auto simp: slot_step_def drop_step_def)
          next
            case False
            then have "reals m i = reals (kmaps s) i" using m by (simp add: slot_step_def quiet_def)
            then show ?thesis using ds by (simp add: drop_step_def)
          qed
        qed
        then show "kquiet (drop_step s0) s0 s'"
          using kq fr by (auto simp: kquiet_def freed_def)
        show "slots s' i = (if i \<notin> set ys \<and> i \<in> ?D then empty_slot else slots s0 i)" for i
          using fr sl [of i] False y by (cases "i = y") (simp_all add: freed_def)
        show "smap_find (by_addr s') a = Some i \<longleftrightarrow>
          smap_find (by_addr s0) a = Some i \<and> (i \<notin> set ys \<longrightarrow> s_refs (slots s0 i) \<noteq> 0)" for a i
        proof (cases "a = ?a")
          case True
          then show ?thesis using fr f0 False y by (auto simp: freed_def)
        next
          case ne: False
          then have "smap_find (by_addr s0) a \<noteq> Some y" using inj by blast
          then show ?thesis using fr fd [of a i] ne by (cases "i = y") (simp_all add: freed_def)
        qed
      qed (use rt0 rs fr in \<open>simp_all add: freed_def rest_def\<close>)
      then show ?thesis
        using False sl [of y] wp_free_slot [OF assms, of s ?a y "\<lambda>_. I ys" "\<lambda>_ _. False"]
        by (simp add: drop_id_def wp_simps)
    qed
  qed
  have "hoare (I all_ids) (drop_unreferenced E) (\<lambda>_. I []) (\<lambda>_ _. False)"
    unfolding drop_unreferenced_def by (rule hoare_forM [OF step])
  moreover have "I all_ids s" if "s = s0" "rt_inv s" for s
  proof -
    have "valid_id i" if "smap_find (by_addr s0) a = Some i" for a i
      using rt_inv_find(1) that \<open>rt_inv s\<close> \<open>s = s0\<close> by blast
    then show ?thesis using that by (auto simp: I_def rest_def kquiet_def quiet_def drop_step_def)
  qed
  ultimately show ?thesis
    by (rule hoare_conseq) (auto simp: I_def drop_step_def)
qed

end
