(* ===== verification/Lb_State.thy ===== *)
theory Lb_State
  imports Config Real_Table Maglev_Shares
begin

text \<open>
  \<^verbatim>\<open>src/daemon/lb_state.{h,cpp}\<close>: the control plane's model of the load balancer and the only
  code that writes the maps the data plane reads.

  The state extends the real table's record (\<^verbatim>\<open>reals_\<close> is a member of the class).  Every public
  method holds one mutex from start to end, so a method is one action.  A reference \<^verbatim>\<open>Vip&\<close> is the
  key of the VIP: \<open>vip_ref\<close> reads through it, and goes wrong if the VIP is gone.  Logging is left
  out, except that an argument that dereferences an optional is evaluated.
\<close>

section \<open>Data\<close>

record member =
  m_weight :: u32
  m_draining :: bool
  m_up :: bool
  consecutive_ok :: u32
  consecutive_fail :: u32
  last_change_ms :: int
  last_rtt_us :: u32
  in_ring :: bool
  incarnation :: u64

record vip =
  v_spec :: vip_spec
  v_id :: u32
  v_flags :: u32
  v_generation :: u64
  v_members :: "(u32, member) smap"

record lb = rtable +
  vips :: "(vip_spec, vip) smap"
  adopted_vip_ids :: "(vip_spec, u32) smap"
  lb_interface :: string
  lb_hash :: hash_mode
  lb_next_hop :: "u32 option"
  lb_health_enabled :: bool
  lb_initialized :: bool
  lb_next_incarnation :: u64

type_synonym 'a lb_act = "(lb, 'a) act"

definition default_member :: member where
  "default_member = \<lparr>m_weight = 1, m_draining = False, m_up = True, consecutive_ok = 0, consecutive_fail = 0,
     last_change_ms = 0, last_rtt_us = 0, in_ring = False, incarnation = 0\<rparr>"

record health_target =
  ht_vip :: vip_spec
  ht_addr :: u32
  ht_incarnation :: u64

record probe_result =
  pr_ok :: bool
  pr_rtt_us :: u32
  pr_detail :: string
  pr_local_error :: bool

section \<open>References\<close>

definition vip_ref :: "vip_spec \<Rightarrow> vip lb_act" where
  "vip_ref sp = bindM (gets (\<lambda>s. smap_find (vips s) sp)) deref"

definition put_vip :: "vip_spec \<Rightarrow> vip \<Rightarrow> unit lb_act" where
  "put_vip sp v = modify (\<lambda>s. s\<lparr>vips := smap_insert sp v (vips s)\<rparr>)"

definition vip_or_throw :: "vip_spec \<Rightarrow> vip lb_act" where
  "vip_or_throw sp =
     bindM (gets (\<lambda>s. smap_find (vips s) sp)) (\<lambda>it.
       case it of None \<Rightarrow> throw (ApiError (''unknown vip '' @ VipSpec_str sp)) | Some v \<Rightarrow> ret v)"

definition member_or_throw :: "vip \<Rightarrow> u32 \<Rightarrow> member lb_act" where
  "member_or_throw v addr =
     (case smap_find (v_members v) addr of
        None \<Rightarrow> throw (ApiError (''unknown real '' @ ipv4_to_string addr @ '' on vip '' @ VipSpec_str (v_spec v)))
      | Some m \<Rightarrow> ret m)"

definition put_member :: "vip_spec \<Rightarrow> u32 \<Rightarrow> member \<Rightarrow> unit lb_act" where
  "put_member sp addr m =
     bindM (vip_ref sp) (\<lambda>v. put_vip sp (v\<lparr>v_members := smap_insert addr m (v_members v)\<rparr>))"

section \<open>Rings\<close>

definition eligible :: "lb \<Rightarrow> u32 \<Rightarrow> member \<Rightarrow> bool" where
  "eligible s addr m \<longleftrightarrow> m_weight m > 0 \<and> \<not> m_draining m \<and> m_up m \<and> mac_of s addr \<noteq> None"

definition mark_members :: "lb \<Rightarrow> (u32, member) smap \<Rightarrow> (u32, member) smap" where
  "mark_members s ms = smap_map (\<lambda>addr m. m\<lparr>in_ring := eligible s addr m\<rparr>) ms"

definition backends_of :: "lb \<Rightarrow> (u32, member) smap \<Rightarrow> backend list option" where
  "backends_of s ms =
     those (map (\<lambda>(addr, m).
       map_option (\<lambda>i. \<lparr>bk_real_id = i, bk_addr = addr, bk_weight = if in_ring m then m_weight m else 0\<rparr>)
         (id_of s addr)) (items ms))"

definition rebuild_locked :: "env \<Rightarrow> vip_spec \<Rightarrow> unit lb_act" where
  "rebuild_locked E sp =
     bindM (vip_ref sp) (\<lambda>v.
     bindM (gets (\<lambda>s. mark_members s (v_members v))) (\<lambda>ms.
     seqM (put_vip sp (v\<lparr>v_members := ms\<rparr>))
    (bindM (gets (\<lambda>s. backends_of s ms)) (\<lambda>bso.
     bindM (deref bso) (\<lambda>bs.
     bindM (gets lb_hash) (\<lambda>h.
     bindM (deref (build_ring bs h PB_RING_SIZE)) (\<lambda>r.
     bindM (lift_result r) (\<lambda>ring.
     seqM (install_ring E (v_id v) ring)
    (bindM (vip_ref sp) (\<lambda>v. put_vip sp (v\<lparr>v_generation := v_generation v + 1\<rparr>)))))))))))"

section \<open>Members\<close>

definition lookup_mac :: "env \<Rightarrow> u32 \<Rightarrow> unit lb_act" where
  "lookup_mac E addr =
     bindM (gets (\<lambda>s. (mac_of s addr, ticks s, lb_next_hop s))) (\<lambda>(known, n, hop).
       case (known, mac_lookup E) of
         (None, Some look) \<Rightarrow>
           (case look n (case hop of Some h \<Rightarrow> h | None \<Rightarrow> addr) of
              Some m \<Rightarrow> seqM (set_mac E addr m) (ret ())
            | None \<Rightarrow> ret ())
       | _ \<Rightarrow> ret ())"

definition add_member_locked :: "env \<Rightarrow> vip_spec \<Rightarrow> u32 \<Rightarrow> u32 \<Rightarrow> unit lb_act" where
  "add_member_locked E sp addr weight =
     seqM (acquire E addr)
    (seqM (lookup_mac E addr)
    (bindM (gets (\<lambda>s. default_member\<lparr>m_weight := weight, last_change_ms := epoch_ms E (ticks s),
                                     incarnation := lb_next_incarnation s\<rparr>)) (\<lambda>m.
     seqM (modify (\<lambda>s. s\<lparr>lb_next_incarnation := lb_next_incarnation s + 1\<rparr>))
    (bindM (vip_ref sp) (\<lambda>v.
     seqM (whenM (\<not> smap_count (v_members v) addr) (put_member sp addr m))
    (bindM (gets (\<lambda>s. id_of s addr)) (\<lambda>it. seqM (deref it) (ret ()))))))))"

definition remove_member_locked :: "vip_spec \<Rightarrow> u32 \<Rightarrow> unit lb_act" where
  "remove_member_locked sp addr =
     bindM (vip_ref sp) (\<lambda>v. put_vip sp (v\<lparr>v_members := smap_erase addr (v_members v)\<rparr>))"

section \<open>VIPs\<close>

definition vip_ids :: "u32 list" where
  "vip_ids = map of_nat [0..<unat PB_MAX_VIPS]"

definition allocate_vip_id :: "lb \<Rightarrow> u32 result" where
  "allocate_vip_id s =
     (let used = map (v_id \<circ> snd) (items (vips s)) @ map snd (items (adopted_vip_ids s))
      in case List.find (\<lambda>i. i \<notin> set used) vip_ids of
           Some i \<Rightarrow> Inr i
         | None \<Rightarrow> Inl (ApiError (''too many vips (max '' @ to_string (unat PB_MAX_VIPS) @ '')'')))"

definition write_vip_entry :: "env \<Rightarrow> vip_spec \<Rightarrow> unit lb_act" where
  "write_vip_entry E sp =
     bindM (vip_ref sp) (\<lambda>v.
     bindM (kcall E SysVipUpdate (\<lambda>m. m\<lparr>vip_map := (vip_map m)(VipSpec_key (v_spec v) \<mapsto>
                                          \<lparr>vip_id = v_id v, vip_flags = v_flags v\<rparr>)\<rparr>)) (\<lambda>err.
       if err \<noteq> 0 then
         throw (RuntimeError (''write vip_map for '' @ VipSpec_str (v_spec v) @ '': '' @ errstr E err))
       else ret ()))"

text \<open>The choice of an id: adopted or allocated.\<close>

definition choose_id :: "env \<Rightarrow> vip_spec \<Rightarrow> u32 option \<Rightarrow> u32 lb_act" where
  "choose_id E sp it =
     (case it of
        Some i \<Rightarrow> seqM (modify (\<lambda>s. s\<lparr>adopted_vip_ids := smap_erase sp (adopted_vip_ids s)\<rparr>)) (ret i)
      | None \<Rightarrow>
          bindM (gets allocate_vip_id) (\<lambda>r. bindM (lift_result r) (\<lambda>i. seqM (reset_counters E i) (ret i))))"

definition create_vip_locked :: "env \<Rightarrow> vip_spec \<Rightarrow> u32 \<Rightarrow> (u32, u32) smap \<Rightarrow> u32 lb_act" where
  "create_vip_locked E sp flags want =
     bindM (gets (\<lambda>s. smap_find (adopted_vip_ids s) sp)) (\<lambda>it.
     bindM (choose_id E sp it) (\<lambda>i.
     bindM (gets (\<lambda>s. smap_count (vips s) sp)) (\<lambda>there.
     seqM (whenM (\<not> there) (put_vip sp \<lparr>v_spec = sp, v_id = i, v_flags = flags, v_generation = 0, v_members = smap_empty\<rparr>))
    (seqM (forM (items want) (\<lambda>(addr, weight). add_member_locked E sp addr weight))
    (seqM (rebuild_locked E sp)
    (seqM (write_vip_entry E sp)
    (bindM (vip_ref sp) (\<lambda>v. ret (v_id v)))))))))"

definition vip_map_delete :: "env \<Rightarrow> vip_spec \<Rightarrow> unit lb_act" where
  "vip_map_delete E sp =
     seqM (kdelete E SysVipDelete (\<lambda>m. vip_map m (VipSpec_key sp) \<noteq> None)
             (\<lambda>m. m\<lparr>vip_map := (vip_map m)(VipSpec_key sp := None)\<rparr>)) (ret ())"

definition delete_vip_locked :: "env \<Rightarrow> vip_spec \<Rightarrow> unit lb_act" where
  "delete_vip_locked E sp =
     bindM (gets (\<lambda>s. smap_find (vips s) sp)) (\<lambda>it.
       case it of
         None \<Rightarrow> ret ()
       | Some v \<Rightarrow>
           seqM (vip_map_delete E sp)
          (seqM (remove_ring E (v_id v))
          (seqM (forM (smap_keys (v_members v)) (release E))
           (modify (\<lambda>s. s\<lparr>vips := smap_erase sp (vips s)\<rparr>)))))"

definition vip_flag_bits :: "bool \<Rightarrow> u32" where
  "vip_flag_bits no_conntrack = (if no_conntrack then PB_VIP_F_NO_CONNTRACK else 0)"

definition add_vip :: "env \<Rightarrow> vip_spec \<Rightarrow> bool \<Rightarrow> u32 lb_act" where
  "add_vip E sp no_conntrack =
     bindM (gets (\<lambda>s. smap_count (vips s) sp)) (\<lambda>there.
       if there then throw (ApiError ''vip already exists'')
       else create_vip_locked E sp (vip_flag_bits no_conntrack) smap_empty)"

definition del_vip :: "env \<Rightarrow> vip_spec \<Rightarrow> unit lb_act" where
  "del_vip E sp = seqM (vip_or_throw sp) (delete_vip_locked E sp)"

section \<open>Reals\<close>

definition weight_error :: cpp_error where
  "weight_error = ApiError (''weight must be 0..'' @ to_string (unat kMaxRealWeight))"

definition add_real :: "env \<Rightarrow> vip_spec \<Rightarrow> u32 \<Rightarrow> u32 \<Rightarrow> u32 lb_act" where
  "add_real E sp addr weight =
     bindM (vip_or_throw sp) (\<lambda>v.
       if addr = 0 then throw (ApiError ''bad real address 0.0.0.0'')
       else if smap_count (v_members v) addr then throw (ApiError ''real already exists'')
       else if weight > kMaxRealWeight then throw weight_error
       else
         seqM (add_member_locked E sp addr weight)
        (seqM (rebuild_locked E sp)
        (bindM (gets (\<lambda>s. id_of s addr)) deref)))"

definition del_real :: "env \<Rightarrow> vip_spec \<Rightarrow> u32 \<Rightarrow> unit lb_act" where
  "del_real E sp addr =
     bindM (vip_or_throw sp) (\<lambda>v.
     seqM (member_or_throw v addr)
    (seqM (remove_member_locked sp addr)
    (seqM (rebuild_locked E sp)
     (release E addr))))"

definition set_weight :: "env \<Rightarrow> vip_spec \<Rightarrow> u32 \<Rightarrow> u32 \<Rightarrow> unit lb_act" where
  "set_weight E sp addr weight =
     (if weight > kMaxRealWeight then throw weight_error
      else
        bindM (vip_or_throw sp) (\<lambda>v.
        bindM (member_or_throw v addr) (\<lambda>m.
          if m_weight m = weight then ret ()
          else seqM (put_member sp addr (m\<lparr>m_weight := weight\<rparr>)) (rebuild_locked E sp))))"

definition set_draining :: "env \<Rightarrow> vip_spec \<Rightarrow> u32 \<Rightarrow> bool \<Rightarrow> unit lb_act" where
  "set_draining E sp addr draining =
     bindM (vip_or_throw sp) (\<lambda>v.
     bindM (member_or_throw v addr) (\<lambda>m.
       if m_draining m = draining then ret ()
       else seqM (put_member sp addr (m\<lparr>m_draining := draining\<rparr>)) (rebuild_locked E sp)))"

section \<open>Health\<close>

definition health_targets :: "lb \<Rightarrow> health_target list" where
  "health_targets s =
     (if \<not> lb_health_enabled s then []
      else concat (map (\<lambda>(sp, v).
        if proto sp \<noteq> 6 then []
        else map (\<lambda>(addr, m). \<lparr>ht_vip = sp, ht_addr = addr, ht_incarnation = incarnation m\<rparr>) (items (v_members v)))
        (items (vips s))))"

text \<open>The member after a probe, and whether its state changed; \<open>now\<close> is \<^verbatim>\<open>epoch_ms()\<close>.\<close>

definition probe_member :: "probe_result \<Rightarrow> u32 \<Rightarrow> u32 \<Rightarrow> int \<Rightarrow> member \<Rightarrow> member \<times> bool" where
  "probe_member r rise fall now m =
     (if pr_ok r then
        (let m = m\<lparr>last_rtt_us := pr_rtt_us r, consecutive_fail := 0, consecutive_ok := consecutive_ok m + 1\<rparr>
         in if \<not> m_up m \<and> consecutive_ok m \<ge> rise then (m\<lparr>m_up := True, last_change_ms := now\<rparr>, True)
            else (m, False))
      else
        (let m = m\<lparr>consecutive_ok := 0, consecutive_fail := consecutive_fail m + 1\<rparr>
         in if m_up m \<and> consecutive_fail m \<ge> fall then (m\<lparr>m_up := False, last_change_ms := now\<rparr>, True)
            else (m, False)))"

definition report_health :: "env \<Rightarrow> health_target \<Rightarrow> probe_result \<Rightarrow> u32 \<Rightarrow> u32 \<Rightarrow> unit lb_act" where
  "report_health E t r rise fall =
     bindM (gets (\<lambda>s. smap_find (vips s) (ht_vip t))) (\<lambda>vit.
       case vit of
         None \<Rightarrow> ret ()
       | Some v \<Rightarrow>
           (case smap_find (v_members v) (ht_addr t) of
              None \<Rightarrow> ret ()
            | Some m \<Rightarrow>
                (if incarnation m \<noteq> ht_incarnation t then ret ()
                 else if pr_local_error r then ret ()
                 else
                   bindM (gets (\<lambda>s. probe_member r rise fall (epoch_ms E (ticks s)) m)) (\<lambda>(m', changed).
                   seqM (put_member (ht_vip t) (ht_addr t) m')
                   (whenM changed (rebuild_locked E (ht_vip t)))))))"

section \<open>Neighbours\<close>

definition neighbor_targets :: "lb \<Rightarrow> u32 list" where
  "neighbor_targets s = (case lb_next_hop s of Some h \<Rightarrow> [h] | None \<Rightarrow> addrs s)"

fun unresolved_loop :: "lb \<Rightarrow> u32 list \<Rightarrow> u32 list" where
  "unresolved_loop s [] = []"
| "unresolved_loop s (addr # as) =
     (if mac_of s addr \<noteq> None then unresolved_loop s as
      else (case lb_next_hop s of Some h \<Rightarrow> [h] | None \<Rightarrow> addr # unresolved_loop s as))"

definition unresolved_neighbors :: "lb \<Rightarrow> u32 list" where
  "unresolved_neighbors s = unresolved_loop s (addrs s)"

definition set_one :: "env \<Rightarrow> mac_addr \<Rightarrow> u32 \<Rightarrow> u32 list \<Rightarrow> u32 list lb_act" where
  "set_one E m addr newly_usable =
     bindM (gets (\<lambda>s. mac_of s addr \<noteq> None)) (\<lambda>was_known.
     bindM (set_mac E addr m) (\<lambda>changed.
       ret (if changed \<and> \<not> was_known then addr # newly_usable else newly_usable)))"

definition rebuild_if_uses :: "env \<Rightarrow> u32 list \<Rightarrow> vip_spec \<Rightarrow> unit lb_act" where
  "rebuild_if_uses E newly_usable sp =
     bindM (vip_ref sp) (\<lambda>v.
       whenM (list_ex (\<lambda>addr. addr \<in> set newly_usable) (smap_keys (v_members v))) (rebuild_locked E sp))"

definition neighbor_resolved :: "env \<Rightarrow> u32 \<Rightarrow> mac_addr \<Rightarrow> unit lb_act" where
  "neighbor_resolved E ip m =
     bindM (gets (\<lambda>s. (lb_next_hop s, addrs s))) (\<lambda>(hop, as).
       if hop \<noteq> None \<and> hop \<noteq> Some ip then ret ()
       else
         bindM (if hop \<noteq> None then foldM as (set_one E m) [] else set_one E m ip []) (\<lambda>newly_usable.
         bindM (gets (\<lambda>s. smap_keys (vips s))) (\<lambda>sps.
           whenM (newly_usable \<noteq> []) (forM sps (rebuild_if_uses E newly_usable)))))"

section \<open>Configuration\<close>

definition key_spec :: "pb_vip_key \<Rightarrow> vip_spec" where
  "key_spec k = VipSpec (vk_addr k) (vk_port k) (vk_proto k)"

definition adopt_vip :: "pb_vip_key \<Rightarrow> unit lb_act" where
  "adopt_vip key =
     bindM (gets (\<lambda>s. vip_map (kmaps s) key)) (\<lambda>val.
       case val of
         None \<Rightarrow> ret ()
       | Some v \<Rightarrow>
           modify (\<lambda>s. s\<lparr>adopted_vip_ids := smap_insert (key_spec key) (vip_id v) (adopted_vip_ids s)\<rparr>))"

definition adopt_locked :: "env \<Rightarrow> unit lb_act" where
  "adopt_locked E =
     seqM adopt
    (bindM (gets (\<lambda>s. vip_keys E (vip_map (kmaps s)))) (\<lambda>keys. forM keys adopt_vip))"

definition read_interface_mac :: "env \<Rightarrow> string \<Rightarrow> mac_addr result" where
  "read_interface_mac E ifname =
     (case Mac_parse (if_address E ifname) of
        Some m \<Rightarrow> Inr m
      | None \<Rightarrow> Inl (RuntimeError (''cannot read MAC of '' @ ifname)))"

definition config_value :: "mac_addr \<Rightarrow> config_data \<Rightarrow> pb_config" where
  "config_value m cfg =
     \<lparr>lb_mac = m, encap_src_prefix = prefix_be (c_encap_src cfg), encap_src_mask = mask_be (c_encap_src cfg),
      cfg_flags = (if c_conntrack_enabled cfg then 0 else PB_CFG_F_NO_CONNTRACK) OR
                  (if c_icmp_pmtu cfg then PB_CFG_F_ICMP_PMTU else 0)\<rparr>"

definition write_config_map :: "env \<Rightarrow> config_data \<Rightarrow> unit lb_act" where
  "write_config_map E cfg =
     bindM (gets lb_interface) (\<lambda>ifname.
     bindM (lift_result (read_interface_mac E ifname)) (\<lambda>m.
     bindM (kcall E SysConfig (\<lambda>k. k\<lparr>config := config_value m cfg\<rparr>)) (\<lambda>err.
       if err \<noteq> 0 then throw (RuntimeError (''write config map: '' @ errstr E err)) else ret ())))"

definition want_of :: "vip_config \<Rightarrow> (u32, u32) smap" where
  "want_of vc = smap_of_list (map (\<lambda>r. (rc_addr r, rc_weight r)) (vc_reals vc))"

text \<open>One entry of \<open>want\<close> on a VIP that exists; the result is the new value of \<^verbatim>\<open>changed\<close>.\<close>

definition want_member :: "env \<Rightarrow> vip_spec \<Rightarrow> u32 \<times> u32 \<Rightarrow> bool \<Rightarrow> bool lb_act" where
  "want_member E sp aw changed =
     bindM (vip_ref sp) (\<lambda>v.
       case smap_find (v_members v) (fst aw) of
         None \<Rightarrow> seqM (add_member_locked E sp (fst aw) (snd aw)) (ret True)
       | Some m \<Rightarrow>
           (if m_weight m \<noteq> snd aw then seqM (put_member sp (fst aw) (m\<lparr>m_weight := snd aw\<rparr>)) (ret True)
            else ret changed))"

definition update_flags :: "env \<Rightarrow> vip_spec \<Rightarrow> u32 \<Rightarrow> unit lb_act" where
  "update_flags E sp flags =
     bindM (vip_ref sp) (\<lambda>v.
       whenM (v_flags v \<noteq> flags) (seqM (put_vip sp (v\<lparr>v_flags := flags\<rparr>)) (write_vip_entry E sp)))"

definition update_vip :: "env \<Rightarrow> bool \<Rightarrow> vip_config \<Rightarrow> unit lb_act" where
  "update_vip E hash_changed vc =
     (let sp = vc_spec vc; want = want_of vc
      in seqM (update_flags E sp (vip_flag_bits (vc_no_conntrack vc)))
        (bindM (vip_ref sp) (\<lambda>v.
         bindM (ret (filter (\<lambda>addr. \<not> smap_count want addr) (smap_keys (v_members v)))) (\<lambda>removed.
         seqM (forM removed (remove_member_locked sp))
        (bindM (foldM (items want) (want_member E sp) (hash_changed \<or> removed \<noteq> [])) (\<lambda>changed.
         seqM (whenM changed (rebuild_locked E sp))
         (forM removed (release E))))))))"

definition apply_vip :: "env \<Rightarrow> bool \<Rightarrow> vip_config \<Rightarrow> unit lb_act" where
  "apply_vip E hash_changed vc =
     bindM (gets (\<lambda>s. smap_count (vips s) (vc_spec vc))) (\<lambda>there.
       if \<not> there then seqM (create_vip_locked E (vc_spec vc) (vip_flag_bits (vc_no_conntrack vc)) (want_of vc)) (ret ())
       else update_vip E hash_changed vc)"

definition drop_unwanted :: "env \<Rightarrow> vip_spec set \<Rightarrow> vip_spec \<Rightarrow> unit lb_act" where
  "drop_unwanted E wanted sp = whenM (sp \<notin> wanted) (delete_vip_locked E sp)"

definition drop_pinned :: "env \<Rightarrow> vip_spec \<times> u32 \<Rightarrow> unit lb_act" where
  "drop_pinned E p =
     bindM (gets (\<lambda>s. smap_count (vips s) (fst p))) (\<lambda>there.
       whenM (\<not> there) (seqM (vip_map_delete E (fst p)) (remove_ring E (snd p))))"

definition finish_startup :: "env \<Rightarrow> unit lb_act" where
  "finish_startup E =
     bindM (gets (\<lambda>s. items (adopted_vip_ids s))) (\<lambda>pinned.
     seqM (forM pinned (drop_pinned E))
    (seqM (modify (\<lambda>s. s\<lparr>adopted_vip_ids := smap_empty\<rparr>))
    (seqM (drop_unreferenced E)
     (modify (\<lambda>s. s\<lparr>lb_initialized := True\<rparr>)))))"

definition apply_config :: "env \<Rightarrow> config_data \<Rightarrow> unit lb_act" where
  "apply_config E cfg =
     bindM (gets (\<lambda>s. \<not> lb_initialized s)) (\<lambda>first.
     seqM (whenM first (adopt_locked E))
    (seqM (write_config_map E cfg)
    (bindM (gets (\<lambda>s. lb_hash s \<noteq> c_hash cfg)) (\<lambda>hash_changed.
     seqM (modify (\<lambda>s. s\<lparr>lb_health_enabled := hc_enabled (c_health cfg), lb_next_hop := c_next_hop cfg,
                        lb_hash := c_hash cfg\<rparr>))
    (bindM (gets (\<lambda>s. smap_keys (vips s))) (\<lambda>sps.
     seqM (forM sps (drop_unwanted E (vc_spec ` set (c_vips cfg))))
    (seqM (forM (c_vips cfg) (apply_vip E hash_changed))
     (whenM first (finish_startup E)))))))))"

section \<open>Views\<close>

record real_view =
  rv_addr :: u32
  rv_real_id :: u32
  rv_weight :: u32
  rv_up :: bool
  rv_draining :: bool
  rv_checked :: bool
  rv_in_ring :: bool
  rv_mac :: "mac_addr option"
  rv_consecutive_ok :: u32
  rv_consecutive_fail :: u32
  rv_last_change_ms :: int
  rv_last_rtt_us :: u32

record vip_view =
  vv_spec :: vip_spec
  vv_id :: u32
  vv_flags :: u32
  vv_generation :: u64
  vv_reals :: "real_view list"

definition view_of :: "lb \<Rightarrow> vip \<Rightarrow> u32 \<Rightarrow> member \<Rightarrow> real_view" where
  "view_of s v addr m =
     \<lparr>rv_addr = addr, rv_real_id = (case id_of s addr of Some i \<Rightarrow> i | None \<Rightarrow> 0), rv_weight = m_weight m,
      rv_up = m_up m, rv_draining = m_draining m, rv_checked = (lb_health_enabled s \<and> proto (v_spec v) = 6),
      rv_in_ring = in_ring m, rv_mac = mac_of s addr, rv_consecutive_ok = consecutive_ok m,
      rv_consecutive_fail = consecutive_fail m, rv_last_change_ms = last_change_ms m, rv_last_rtt_us = last_rtt_us m\<rparr>"

definition snapshot :: "lb \<Rightarrow> vip_view list" where
  "snapshot s =
     sort_key vv_id (map (\<lambda>(sp, v).
       \<lparr>vv_spec = sp, vv_id = v_id v, vv_flags = v_flags v, vv_generation = v_generation v,
        vv_reals = map (\<lambda>(addr, m). view_of s v addr m) (items (v_members v))\<rparr>) (items (vips s)))"

definition find_view :: "lb \<Rightarrow> vip_spec \<Rightarrow> vip_view option" where
  "find_view s sp = List.find (\<lambda>v. vv_spec v = sp) (snapshot s)"

definition real_addrs :: "lb \<Rightarrow> (u32, u32) smap option" where
  "real_addrs s =
     (let pairs = map (\<lambda>addr. map_option (\<lambda>i. (i, addr)) (id_of s addr)) (addrs s)
      in map_option smap_of_list (those pairs))"

definition real_id_of :: "lb \<Rightarrow> u32 \<Rightarrow> u32 option" where
  "real_id_of s addr = id_of s addr"

text \<open>A daemon that has just been constructed, over the maps it finds.\<close>

definition new_lb :: "maps \<Rightarrow> string \<Rightarrow> lb" where
  "new_lb k ifname =
     \<lparr>kmaps = k, ktrace = [], ticks = 0, slots = (\<lambda>_. empty_slot), by_addr = smap_empty, cursor = 1,
      vips = smap_empty, adopted_vip_ids = smap_empty, lb_interface = ifname, lb_hash = Maglev,
      lb_next_hop = None, lb_health_enabled = True, lb_initialized = False, lb_next_incarnation = 1\<rparr>"

end
