(* ===== verification/Lb_Inv.thy ===== *)
theory Lb_Inv
  imports Lb_State Dataplane_Props
begin

text \<open>
  The invariant of the control plane, and that the pieces every operation of \<^verbatim>\<open>LbState\<close> is made
  of (acquire, release, a new MAC, a member added or removed, a ring rebuilt, a VIP entry
  written or deleted) keep it.

  \<open>pinned_state\<close> is what the data plane and a restarted daemon need of the kernel's maps alone;
  \<open>safe\<close> says that the maps had it after every single write.  \<open>core\<close> ties the daemon's state to the
  maps.  In the middle of an operation some of it is suspended, which its arguments record:
  \<open>pend\<close> are references acquired and not yet owned by a member, \<open>D\<close> the addresses removed from the
  VIP \<open>f\<close> in hand whose reference is still held, \<open>U\<close> the VIPs without an entry in \<^verbatim>\<open>vip_map\<close>, \<open>W\<close> those
  without a ring, \<open>S\<close> those whose ring may be older than their members, and \<open>t\<close> that no table entry
  is unreferenced (false while the entries of a previous daemon are being adopted).
\<close>

section \<open>What the data plane needs of the maps\<close>

definition dp_safe :: "maps \<Rightarrow> bool" where
  "dp_safe m \<longleftrightarrow>
     (\<forall>k v. vip_map m k = Some v \<longrightarrow> vip_id v < PB_MAX_VIPS \<and>
        (\<exists>ring. rings m (vip_id v) = Some ring \<and> length ring = unat PB_RING_SIZE \<and>
           (\<forall>r \<in> set ring. r = PB_REAL_NONE \<or> usable_real m r)))"

definition pinned_state :: "maps \<Rightarrow> bool" where
  "pinned_state m \<longleftrightarrow>
     dp_safe m \<and> finite (dom (vip_map m)) \<and> pinned_ok m \<and> real_addr (reals m 0) = 0 \<and>
     (\<forall>k. vip_map m k \<noteq> None \<longrightarrow> vk_pad k = 0) \<and>
     (\<forall>k k' v v'. vip_map m k = Some v \<and> vip_map m k' = Some v' \<and> vip_id v = vip_id v' \<longrightarrow> k = k')"

text \<open>
  What else has to stay as it is, in a ghost argument of the invariant: the connection table, and a set of
  triples of a service, the address of one of its reals and the id of that real, which must remain
  served and usable throughout.
\<close>

record ghost =
  g_ct :: ct_table
  g_pins :: "(vip_spec \<times> u32 \<times> u32) set"

definition kept :: "ghost \<Rightarrow> maps \<Rightarrow> bool" where
  "kept c m \<longleftrightarrow>
     conntrack m = g_ct c \<and>
     (\<forall>sp a i. (sp, a, i) \<in> g_pins c \<longrightarrow>
        real_addr (reals m i) = a \<and> usable_real m i \<and> vip_map m (VipSpec_key sp) \<noteq> None)"

definition safe :: "ghost \<Rightarrow> 'a world_scheme \<Rightarrow> bool" where
  "safe c s \<longleftrightarrow> (\<forall>m \<in> set (kmaps s # ktrace s). pinned_state m \<and> kept c m)"

section \<open>The invariant\<close>

definition member_addrs :: "vip \<Rightarrow> u32 set" where
  "member_addrs v = dom (smap_find (v_members v))"

definition holders :: "lb \<Rightarrow> u32 \<Rightarrow> vip_spec set" where
  "holders s a = {sp. \<exists>v. smap_find (vips s) sp = Some v \<and> a \<in> member_addrs v}"

definition refs :: "lb \<Rightarrow> u32 \<Rightarrow> nat" where
  "refs s a = (case id_of s a of None \<Rightarrow> 0 | Some i \<Rightarrow> unat (s_refs (slots s i)))"

definition mac_known :: "lb \<Rightarrow> u32 \<Rightarrow> u32 \<Rightarrow> bool" where
  "mac_known s a r \<longleftrightarrow> id_of s a = Some r \<and> mac_of s a \<noteq> None"

text \<open>The ring of VIP id \<open>i\<close> is installed and names reals with an address in \<open>A\<close> and a known MAC.\<close>

definition ring_uses :: "lb \<Rightarrow> u32 set \<Rightarrow> u32 \<Rightarrow> bool" where
  "ring_uses s A i \<longleftrightarrow>
     (\<exists>ring. rings (kmaps s) i = Some ring \<and> length ring = unat PB_RING_SIZE \<and>
        (\<forall>r \<in> set ring. r = PB_REAL_NONE \<or> (\<exists>a \<in> A. mac_known s a r)))"

text \<open>The ring is the one \<^verbatim>\<open>build_ring\<close> makes of the members marked \<open>in_ring\<close>, and those are eligible.\<close>

definition fresh_vip :: "lb \<Rightarrow> vip \<Rightarrow> bool" where
  "fresh_vip s v \<longleftrightarrow>
     (\<exists>bs ring. backends_of s (v_members v) = Some bs \<and> build_ring bs (lb_hash s) PB_RING_SIZE = Some (Inr ring) \<and>
        rings (kmaps s) (v_id v) = Some ring) \<and>
     (\<forall>a m. smap_find (v_members v) a = Some m \<and> in_ring m \<longrightarrow> eligible s a m)"

definition owner :: "lb \<Rightarrow> vip_spec \<Rightarrow> u32 \<Rightarrow> bool" where
  "owner s sp i \<longleftrightarrow> (\<exists>v. smap_find (vips s) sp = Some v \<and> v_id v = i) \<or> smap_find (adopted_vip_ids s) sp = Some i"

definition vips_wf :: "lb \<Rightarrow> bool" where
  "vips_wf s \<longleftrightarrow>
     (\<forall>sp v. smap_find (vips s) sp = Some v \<longrightarrow> v_spec v = sp) \<and>
     (\<forall>sp i. owner s sp i \<longrightarrow> i < PB_MAX_VIPS) \<and>
     (\<forall>sp sp' i. owner s sp i \<and> owner s sp' i \<longrightarrow> sp = sp') \<and>
     (\<forall>sp i. smap_find (adopted_vip_ids s) sp = Some i \<longrightarrow> smap_find (vips s) sp = None)"

definition refs_ok :: "u32 list \<Rightarrow> u32 set \<Rightarrow> lb \<Rightarrow> bool" where
  "refs_ok pend D s \<longleftrightarrow>
     (\<forall>a. refs s a = card (holders s a) + count_list pend a + (if a \<in> D then 1 else 0))"

definition tight :: "bool \<Rightarrow> lb \<Rightarrow> bool" where
  "tight t s \<longleftrightarrow> (t \<longrightarrow> (\<forall>a i. smap_find (by_addr s) a = Some i \<longrightarrow> s_refs (slots s i) \<noteq> 0))"

definition entries_ok :: "vip_spec set \<Rightarrow> lb \<Rightarrow> bool" where
  "entries_ok U s \<longleftrightarrow>
     finite (dom (vip_map (kmaps s))) \<and>
     (\<forall>sp v. smap_find (vips s) sp = Some v \<and> sp \<notin> U \<longrightarrow>
        vip_map (kmaps s) (VipSpec_key sp) = Some \<lparr>vip_id = v_id v, vip_flags = v_flags v\<rparr>) \<and>
     (\<forall>k val. vip_map (kmaps s) k = Some val \<longrightarrow>
        (\<exists>sp. k = VipSpec_key sp \<and> owner s sp (vip_id val)) \<and> ring_uses s UNIV (vip_id val))"

definition rings_ok :: "vip_spec set \<Rightarrow> vip_spec \<Rightarrow> u32 set \<Rightarrow> lb \<Rightarrow> bool" where
  "rings_ok W f D s \<longleftrightarrow>
     (\<forall>sp v. smap_find (vips s) sp = Some v \<and> sp \<notin> W \<longrightarrow>
        ring_uses s (member_addrs v \<union> (if sp = f then D else {})) (v_id v))"

definition fresh_ok :: "vip_spec set \<Rightarrow> lb \<Rightarrow> bool" where
  "fresh_ok S s \<longleftrightarrow> (\<forall>sp v. smap_find (vips s) sp = Some v \<and> sp \<notin> S \<longrightarrow> fresh_vip s v)"

text \<open>A pinned real is known to the table and, once start-up is over, a member of its service.\<close>

definition pins_ok :: "ghost \<Rightarrow> bool \<Rightarrow> lb \<Rightarrow> bool" where
  "pins_ok c t s \<longleftrightarrow>
     (\<forall>sp a i. (sp, a, i) \<in> g_pins c \<longrightarrow> mac_known s a i \<and>
        (t \<longrightarrow> (\<exists>v. smap_find (vips s) sp = Some v \<and> a \<in> member_addrs v)))"

definition core ::
  "ghost \<Rightarrow> bool \<Rightarrow> u32 list \<Rightarrow> vip_spec \<Rightarrow> u32 set \<Rightarrow> vip_spec set \<Rightarrow> vip_spec set \<Rightarrow> vip_spec set \<Rightarrow> lb \<Rightarrow> bool"
where
  "core c t pend f D U W S s \<longleftrightarrow>
     rt_inv s \<and> safe c s \<and> vips_wf s \<and> refs_ok pend D s \<and> tight t s \<and> entries_ok U s \<and> rings_ok W f D s \<and>
     fresh_ok S s \<and> pins_ok c t s"

lemma coreD:
  assumes "core c t pend f D U W S s"
  shows "rt_inv s" "safe c s" "vips_wf s" "refs_ok pend D s" "tight t s" "entries_ok U s" "rings_ok W f D s"
    "fresh_ok S s" "pins_ok c t s"
  using assms by (simp_all add: core_def)

section \<open>Basic facts\<close>

lemma VipSpec_key_inject [simp]: "VipSpec_key a = VipSpec_key b \<longleftrightarrow> a = b"
  by (cases a; cases b) (simp add: VipSpec_key_def)

lemma key_spec_key [simp]: "key_spec (VipSpec_key sp) = sp"
  by (cases sp) (simp add: key_spec_def VipSpec_key_def)

lemma VipSpec_key_spec: "vk_pad k = 0 \<Longrightarrow> VipSpec_key (key_spec k) = k"
  by (simp add: key_spec_def VipSpec_key_def)

lemma vk_pad_key [simp]: "vk_pad (VipSpec_key sp) = 0"
  by (simp add: VipSpec_key_def)

lemma rest_lb:
  fixes s s' :: lb
  assumes "rest s s'"
  shows "vips s' = vips s" "adopted_vip_ids s' = adopted_vip_ids s" "lb_hash s' = lb_hash s"
    "lb_next_hop s' = lb_next_hop s" "lb_interface s' = lb_interface s" "lb_initialized s' = lb_initialized s"
    "lb_health_enabled s' = lb_health_enabled s" "lb_next_incarnation s' = lb_next_incarnation s"
  using assms by (cases s; cases s'; simp add: rest_def)+

lemma rest_refl [simp]: "rest s s"
  by (simp add: rest_def)

lemma rest_trans: "rest s s' \<Longrightarrow> rest s' s'' \<Longrightarrow> rest s s''"
  by (simp add: rest_def)

lemma safeD: "safe c s \<Longrightarrow> pinned_state (kmaps s)" "safe c s \<Longrightarrow> kept c (kmaps s)"
  by (simp_all add: safe_def)

lemma safe_kquiet:
  assumes "safe c s" "kquiet P s s'" "\<And>m. P m \<Longrightarrow> pinned_state m \<and> kept c m"
  shows "safe c s'"
  using assms by (auto simp: safe_def kquiet_def)

lemma safe_write:
  "safe c s \<Longrightarrow> pinned_state m \<Longrightarrow> kept c m \<Longrightarrow> kmaps s' = m \<Longrightarrow> ktrace s' = m # ktrace s \<Longrightarrow> safe c s'"
  by (simp add: safe_def)

lemma finite_holders: "finite (holders s a)"
  by (rule finite_subset [OF _ smap.finite_dom_find [of "vips s"]]) (auto simp: holders_def)

lemma owner_vip: "smap_find (vips s) sp = Some v \<Longrightarrow> owner s sp (v_id v)"
  by (auto simp: owner_def)

lemma vips_wfD:
  assumes "vips_wf s"
  shows "smap_find (vips s) sp = Some v \<Longrightarrow> v_spec v = sp"
    and "owner s sp i \<Longrightarrow> i < PB_MAX_VIPS"
    and "owner s sp i \<Longrightarrow> owner s sp' i \<Longrightarrow> sp = sp'"
    and "smap_find (adopted_vip_ids s) sp = Some i \<Longrightarrow> smap_find (vips s) sp = None"
  using assms unfolding vips_wf_def by blast+

lemma card_vips: assumes "vips_wf s" shows "card (dom (smap_find (vips s))) \<le> 64"
proof -
  let ?g = "\<lambda>sp. v_id (the (smap_find (vips s) sp))"
  have "inj_on ?g (dom (smap_find (vips s)))"
  proof (rule inj_onI)
    fix x y
    assume "x \<in> dom (smap_find (vips s))" "y \<in> dom (smap_find (vips s))" "?g x = ?g y"
    then show "x = y"
      using vips_wfD(3) [OF assms, of x "?g x" y] owner_vip [of s x] owner_vip [of s y] by auto
  qed
  moreover have "?g ` dom (smap_find (vips s)) \<subseteq> {i. i < PB_MAX_VIPS}"
    using vips_wfD(2) [OF assms owner_vip] by auto
  moreover have "card {i :: u32. i < PB_MAX_VIPS} \<le> 64"
  proof -
    have "i \<in> of_nat ` {..<64}" if "i < PB_MAX_VIPS" for i :: u32
      using that by (intro image_eqI [of _ _ "unat i"]) (simp_all add: word_less_nat_alt)
    then have "{i :: u32. i < PB_MAX_VIPS} \<subseteq> of_nat ` {..<64}" by blast
    then have "card {i :: u32. i < PB_MAX_VIPS} \<le> card (of_nat ` {..<64} :: u32 set)"
      by (intro card_mono) auto
    also have "\<dots> \<le> 64" using card_image_le [of "{..<64 :: nat}"] by simp
    finally show ?thesis .
  qed
  ultimately show ?thesis
    by (meson card_inj_on_le finite_code order_trans)
qed

lemma card_holders: assumes "vips_wf s" shows "card (holders s a) \<le> 64"
proof -
  have "holders s a \<subseteq> dom (smap_find (vips s))" by (auto simp: holders_def)
  then have "card (holders s a) \<le> card (dom (smap_find (vips s)))"
    by (rule card_mono [OF smap.finite_dom_find])
  with card_vips [OF assms] show ?thesis by simp
qed

lemma mac_known_usable:
  assumes "rt_inv s" "mac_known s a r"
  shows "usable_real (kmaps s) r" "valid_id r"
proof -
  have f: "smap_find (by_addr s) a = Some r" "s_mac (slots s r) \<noteq> None"
    using assms(2) by (auto simp: mac_known_def id_of_def mac_of_def)
  note g = rt_inv_find [OF assms(1) f(1)]
  have "mirrors r s" using rt_inv_mirrors [OF assms(1) g(1)] .
  moreover have "slot_mac (slots s r) \<noteq> zero_mac"
    using f(2) assms(1) by (auto simp: slot_mac_def rt_inv_def)
  ultimately show "usable_real (kmaps s) r" "valid_id r"
    using g by (auto simp: usable_real_def mirrors_def valid_id_def)
qed

lemma usable_mac_known:
  assumes "rt_inv s" "usable_real (kmaps s) r" "valid_id r"
  shows "mac_known s (s_addr (slots s r)) r"
proof -
  have "mirrors r s" using rt_inv_mirrors [OF assms(1,3)] .
  then show ?thesis
    using assms by (auto simp: usable_real_def mirrors_def mac_known_def id_of_def mac_of_def rt_inv_def slot_mac_def
      split: option.splits)
qed

lemma ring_uses_mono: "ring_uses s A i \<Longrightarrow> A \<subseteq> B \<Longrightarrow> ring_uses s B i"
  unfolding ring_uses_def by blast

text \<open>The maps of a state in which the invariant holds are as the data plane needs them.\<close>

lemma pinned_state_core:
  assumes "rt_inv s" "vips_wf s" "entries_ok U s" "real_addr (reals (kmaps s) 0) = 0"
  shows "pinned_state (kmaps s)"
  unfolding pinned_state_def dp_safe_def
proof (intro conjI allI impI)
  fix k v
  assume A: "vip_map (kmaps s) k = Some v"
  then obtain sp where sp: "k = VipSpec_key sp" "owner s sp (vip_id v)" and r: "ring_uses s UNIV (vip_id v)"
    using assms(3) unfolding entries_ok_def by blast
  show "vip_id v < PB_MAX_VIPS" using vips_wfD(2) [OF assms(2) sp(2)] .
  show "\<exists>ring. rings (kmaps s) (vip_id v) = Some ring \<and> length ring = unat PB_RING_SIZE \<and>
           (\<forall>r \<in> set ring. r = PB_REAL_NONE \<or> usable_real (kmaps s) r)"
    using r mac_known_usable(1) [OF assms(1)] unfolding ring_uses_def by blast
next
  show "pinned_ok (kmaps s)"
    unfolding pinned_ok_def using rt_inv_mirrors [OF assms(1)] assms(1)
    by (metis mirrors_def option.inject rt_inv_def)
  show "finite (dom (vip_map (kmaps s)))" using assms(3) by (simp add: entries_ok_def)
  show "vk_pad k = 0" if nn: "vip_map (kmaps s) k \<noteq> None" for k
  proof -
    obtain v where "vip_map (kmaps s) k = Some v" using nn by blast
    then obtain sp where "k = VipSpec_key sp" using assms(3) unfolding entries_ok_def by blast
    then show ?thesis by simp
  qed
  show "k = k'" if "vip_map (kmaps s) k = Some v \<and> vip_map (kmaps s) k' = Some v' \<and> vip_id v = vip_id v'" for k k' v v'
    using that assms(3) vips_wfD(3) [OF assms(2)] unfolding entries_ok_def by metis
qed (rule assms(4))

section \<open>Steps of the real table\<close>

lemma refs_gt_0:
  assumes "refs_ok pend D s" "a \<in> member_addrs v" "smap_find (vips s) sp = Some v"
  shows "0 < refs s a"
proof -
  have "sp \<in> holders s a" using assms by (auto simp: holders_def)
  then have "0 < card (holders s a)" using finite_holders card_gt_0_iff by blast
  then show ?thesis using assms(1) unfolding refs_ok_def by (metis add_gr_0)
qed

lemma id_of_refs: "0 < refs s a \<Longrightarrow> id_of s a \<noteq> None"
  by (cases "id_of s a") (simp_all add: refs_def)

lemma member_id:
  assumes "refs_ok pend D s" "a \<in> member_addrs v" "smap_find (vips s) sp = Some v"
  shows "id_of s a \<noteq> None"
  using id_of_refs [OF refs_gt_0 [OF assms]] .

text \<open>A step of the table that keeps, for the addresses in \<open>K\<close>, the id and a known MAC.\<close>

definition tab_step :: "u32 set \<Rightarrow> lb \<Rightarrow> lb \<Rightarrow> bool" where
  "tab_step K s s' \<longleftrightarrow>
     rest s s' \<and> vip_map (kmaps s') = vip_map (kmaps s) \<and> rings (kmaps s') = rings (kmaps s) \<and>
     (\<forall>a \<in> K. id_of s a \<noteq> None \<longrightarrow> id_of s' a = id_of s a \<and> (mac_of s a \<noteq> None \<longrightarrow> mac_of s' a \<noteq> None))"

lemma tab_step_known: "tab_step K s s' \<Longrightarrow> a \<in> K \<Longrightarrow> mac_known s a r \<Longrightarrow> mac_known s' a r"
  by (auto simp: tab_step_def mac_known_def)

lemma tab_step_ring_uses: "tab_step K s s' \<Longrightarrow> A \<subseteq> K \<Longrightarrow> ring_uses s A i \<Longrightarrow> ring_uses s' A i"
  using tab_step_known by (fastforce simp: ring_uses_def tab_step_def)

lemma backends_of_cong:
  assumes "\<And>a. smap_find ms a \<noteq> None \<Longrightarrow> id_of s' a = id_of s a"
  shows "backends_of s' ms = backends_of s ms"
proof -
  have "id_of s' a = id_of s a" if "(a, m) \<in> set (items ms)" for a m
    using that assms [of a] by (simp add: smap.in_entries)
  then have "map (\<lambda>(addr, m).
       map_option (\<lambda>i. \<lparr>bk_real_id = i, bk_addr = addr, bk_weight = if in_ring m then m_weight m else 0\<rparr>)
         (id_of s' addr)) (items ms) = map (\<lambda>(addr, m).
       map_option (\<lambda>i. \<lparr>bk_real_id = i, bk_addr = addr, bk_weight = if in_ring m then m_weight m else 0\<rparr>)
         (id_of s addr)) (items ms)"
    by (auto simp: case_prod_unfold)
  then show ?thesis unfolding backends_of_def by (rule arg_cong)
qed

lemma tab_step_fresh:
  assumes "tab_step K s s'" "member_addrs v \<subseteq> K" "\<And>a. a \<in> member_addrs v \<Longrightarrow> id_of s a \<noteq> None" "fresh_vip s v"
  shows "fresh_vip s' v"
proof -
  note lb = rest_lb [of s s']
  have r: "rest s s'" "rings (kmaps s') = rings (kmaps s)" using assms(1) by (simp_all add: tab_step_def)
  have keep: "id_of s' a = id_of s a" "mac_of s a \<noteq> None \<Longrightarrow> mac_of s' a \<noteq> None" if "a \<in> member_addrs v" for a
    using that assms(1-3) unfolding tab_step_def by blast+
  have "backends_of s' (v_members v) = backends_of s (v_members v)"
    by (rule backends_of_cong) (use keep in \<open>auto simp: member_addrs_def\<close>)
  moreover have "eligible s' a m" if "eligible s a m" "smap_find (v_members v) a = Some m" for a m
    using that keep(2) [of a] by (auto simp: eligible_def member_addrs_def)
  ultimately show ?thesis
    using assms(4) r lb(3) by (auto simp: fresh_vip_def)
qed

lemma core_tab_step:
  assumes core: "core c t pend f D U W S s" and step: "tab_step K s s'" and rt: "rt_inv s'" and sf: "safe c s'"
    and K: "\<And>sp v. smap_find (vips s) sp = Some v \<Longrightarrow> member_addrs v \<subseteq> K" "D \<subseteq> K"
    and live: "\<And>k val. vip_map (kmaps s) k = Some val \<Longrightarrow> ring_uses s K (vip_id val)"
    and refs: "refs_ok pend' D s'" and tight: "tight t s'" and pins: "\<And>sp a i. (sp, a, i) \<in> g_pins c \<Longrightarrow> a \<in> K"
  shows "core c t pend' f D U W S s'"
proof -
  note C = coreD [OF core]
  have r: "rest s s'" "vip_map (kmaps s') = vip_map (kmaps s)" using step by (simp_all add: tab_step_def)
  note lb = rest_lb [OF r(1)]
  have ow: "owner s' = owner s" by (simp add: owner_def lb fun_eq_iff)
  have "vips_wf s'" using C(3) by (simp add: vips_wf_def lb ow)
  moreover have "entries_ok U s'"
  proof -
    have "ring_uses s' UNIV (vip_id val)" if "vip_map (kmaps s) k = Some val" for k val
      using ring_uses_mono [OF tab_step_ring_uses [OF step order.refl live [OF that]]] by simp
    then show ?thesis
      using C(6) unfolding entries_ok_def r(2) lb ow by blast
  qed
  moreover have "rings_ok W f D s'"
    unfolding rings_ok_def lb
  proof (intro allI impI)
    fix sp v
    assume A: "smap_find (vips s) sp = Some v \<and> sp \<notin> W"
    then have "ring_uses s (member_addrs v \<union> (if sp = f then D else {})) (v_id v)"
      using C(7) unfolding rings_ok_def by blast
    then show "ring_uses s' (member_addrs v \<union> (if sp = f then D else {})) (v_id v)"
      by (rule tab_step_ring_uses [OF step, rotated]) (use A K(1) [of sp v] K(2) in auto)
  qed
  moreover have "fresh_ok S s'"
    unfolding fresh_ok_def lb
  proof (intro allI impI)
    fix sp v
    assume A: "smap_find (vips s) sp = Some v \<and> sp \<notin> S"
    then have "fresh_vip s v" using C(8) unfolding fresh_ok_def by blast
    with A show "fresh_vip s' v"
      using member_id [OF C(4), of _ v sp] K(1) [of sp v] by (intro tab_step_fresh [OF step]) auto
  qed
  moreover have "pins_ok c t s'"
    using C(9) tab_step_known [OF step pins] unfolding pins_ok_def lb by blast
  ultimately show ?thesis
    using rt sf refs tight by (simp add: core_def)
qed

lemma pinned_slot_step:
  assumes ps: "pinned_state (kmaps s)" and rt: "rt_inv s" and i: "valid_id i" and st: "slot_step s i addr m"
    and addr: "addr = 0 \<or> smap_find (by_addr s) addr \<in> {None, Some i}"
    and live: "\<And>k v ring. vip_map (kmaps s) k = Some v \<Longrightarrow> rings (kmaps s) (vip_id v) = Some ring \<Longrightarrow>
      i \<in> set ring \<Longrightarrow> usable_real m i"
  shows "pinned_state m"
proof -
  have q: "vip_map m = vip_map (kmaps s)" "rings m = rings (kmaps s)"
    "\<And>j. j \<noteq> i \<Longrightarrow> reals m j = reals (kmaps s) j" "\<And>j. j \<noteq> i \<Longrightarrow> neigh m j = neigh (kmaps s) j"
    using st by (simp_all add: slot_step_def quiet_def)
  have "usable_real m r" if "vip_map (kmaps s) k = Some v" "rings (kmaps s) (vip_id v) = Some ring" "r \<in> set ring"
    "usable_real (kmaps s) r" for k v ring r
    using that live [of k v ring] by (cases "r = i") (auto simp: usable_real_def q)
  then have "dp_safe m"
    using ps unfolding pinned_state_def dp_safe_def q by metis
  moreover have "pinned_ok m"
  proof -
    have P: "j = k" if "valid_id j" "valid_id k" "real_addr (reals (kmaps s) j) \<noteq> 0"
      "real_addr (reals (kmaps s) j) = real_addr (reals (kmaps s) k)" for j k
      using ps that unfolding pinned_state_def pinned_ok_def by blast
    have "False" if "valid_id j" "j \<noteq> i" "real_addr (reals m i) \<noteq> 0" "real_addr (reals (kmaps s) j) = real_addr (reals m i)" for j
    proof -
      have "real_addr (reals m i) = addr"
        using st that P [of i j] i by (auto simp: slot_step_def)
      moreover have "mirrors j s" using rt_inv_mirrors [OF rt that(1)] .
      ultimately have "s_addr (slots s j) = addr" "addr \<noteq> 0" using that by (auto simp: mirrors_def)
      then have "smap_find (by_addr s) addr = Some j" using rt that(1) by (auto simp: rt_inv_def)
      then show False using addr \<open>addr \<noteq> 0\<close> that(2) by simp
    qed
    then show ?thesis
      using P q(3) unfolding pinned_ok_def by metis
  qed
  moreover have "0 \<noteq> i" using i by (auto simp: valid_id_def)
  ultimately show ?thesis
    using ps q(3) [of 0] unfolding pinned_state_def q by metis
qed

lemma live_usable:
  "pinned_state m \<Longrightarrow> vip_map m k = Some v \<Longrightarrow> rings m (vip_id v) = Some ring \<Longrightarrow> r \<in> set ring \<Longrightarrow>
   r = PB_REAL_NONE \<or> usable_real m r"
  unfolding pinned_state_def dp_safe_def by fastforce

lemma valid_id_not_NONE: "valid_id i \<Longrightarrow> i \<noteq> PB_REAL_NONE"
  by (auto simp: valid_id_def)

lemma id_of_slot: "rt_inv s \<Longrightarrow> id_of s a = Some i \<Longrightarrow> s_addr (slots s i) = a"
  using rt_inv_find(3) by (simp add: id_of_def)

lemma kept_same:
  assumes "kept c m" "conntrack m' = conntrack m" "reals m' = reals m" "neigh m' = neigh m"
    "\<And>sp a i. (sp, a, i) \<in> g_pins c \<Longrightarrow> vip_map m (VipSpec_key sp) \<noteq> None \<Longrightarrow> vip_map m' (VipSpec_key sp) \<noteq> None"
  shows "kept c m'"
  using assms unfolding kept_def usable_real_def by metis

lemma kept_slot_step:
  assumes "kept c (kmaps s)" "slot_step s i addr m"
    "\<And>sp a. (sp, a, i) \<in> g_pins c \<Longrightarrow> real_addr (reals m i) = a \<and> usable_real m i"
  shows "kept c m"
proof -
  have q: "vip_map m = vip_map (kmaps s)" "conntrack m = conntrack (kmaps s)"
    "\<And>j. j \<noteq> i \<Longrightarrow> reals m j = reals (kmaps s) j" "\<And>j. j \<noteq> i \<Longrightarrow> neigh m j = neigh (kmaps s) j"
    using assms(2) by (simp_all add: slot_step_def quiet_def)
  have "real_addr (reals m j) = a \<and> usable_real m j" if "(sp, a, j) \<in> g_pins c" for sp a j
  proof (cases "j = i")
    case False
    then show ?thesis using assms(1) that q(3,4) unfolding kept_def usable_real_def by metis
  qed (use assms(3) that in blast)
  then show ?thesis using assms(1) q(1,2) unfolding kept_def by metis
qed

lemma pin_slot:
  assumes "pins_ok c t s" "(sp, a, i) \<in> g_pins c" "rt_inv s"
  shows "id_of s a = Some i" "valid_id i" "s_addr (slots s i) = a" "a \<noteq> 0"
proof -
  show id: "id_of s a = Some i" using assms(1,2) unfolding pins_ok_def mac_known_def by blast
  then show "valid_id i" "s_addr (slots s i) = a" "a \<noteq> 0"
    using rt_inv_find [OF assms(3), of a i] by (simp_all add: id_of_def)
qed

lemma safe_allocated:
  assumes "safe c s" "rt_inv s" "valid_id i" "s_addr (slots s i) = 0" "smap_find (by_addr s) addr = None"
    "allocated s addr i s'" "pins_ok c t s"
  shows "safe c s'"
proof (rule safe_kquiet [OF assms(1)])
  show "kquiet (slot_step s i addr) s s'" using assms(6) by (simp add: allocated_def)
  fix m
  assume m: "slot_step s i addr m"
  note ps = safeD(1) [OF assms(1)]
  have "\<not> usable_real (kmaps s) i"
    using rt_inv_mirrors [OF assms(2,3)] assms(4) by (simp add: usable_real_def mirrors_def)
  then have "pinned_state m"
    using live_usable [OF ps] valid_id_not_NONE [OF assms(3)] assms(5)
    by (intro pinned_slot_step [OF ps assms(2,3) m]) blast+
  moreover have "kept c m"
    by (rule kept_slot_step [OF safeD(2) [OF assms(1)] m]) (use pin_slot [OF assms(7) _ assms(2)] assms(4) in blast)
  ultimately show "pinned_state m \<and> kept c m" by blast
qed

lemma safe_resolved:
  assumes "safe c s" "rt_inv s" "smap_find (by_addr s) addr = Some i" "m \<noteq> zero_mac" "resolved s addr m i s'" "pins_ok c t s"
  shows "safe c s'"
proof (rule safe_kquiet [OF assms(1)])
  show "kquiet (\<lambda>k. slot_step s i addr k \<and> mac (neigh k i) = m) s s'" using assms(5) by (simp add: resolved_def)
  fix k
  assume k: "slot_step s i addr k \<and> mac (neigh k i) = m"
  note ps = safeD(1) [OF assms(1)] and f = rt_inv_find [OF assms(2,3)]
  have "real_addr (reals k i) = addr"
    using k rt_inv_mirrors [OF assms(2) f(1)] f(3) by (auto simp: slot_step_def mirrors_def)
  then have "usable_real k i"
    using k f assms(4) by (simp add: usable_real_def valid_id_def)
  then have "pinned_state k"
    using k assms(3) by (intro pinned_slot_step [OF ps assms(2) f(1)]) auto
  moreover have "kept c k"
    by (rule kept_slot_step [OF safeD(2) [OF assms(1)] conjunct1 [OF k]])
      (use pin_slot(3) [OF assms(6) _ assms(2)] f(3) \<open>usable_real k i\<close> \<open>real_addr (reals k i) = addr\<close> in auto)
  ultimately show "pinned_state k \<and> kept c k" by blast
qed

lemma safe_freed:
  assumes "safe c s" "rt_inv s" "smap_find (by_addr s) addr = Some i" "freed s addr i s'"
    and "\<And>k v ring. vip_map (kmaps s) k = Some v \<Longrightarrow> rings (kmaps s) (vip_id v) = Some ring \<Longrightarrow> i \<notin> set ring"
    and "\<And>sp a. (sp, a, i) \<notin> g_pins c"
  shows "safe c s'"
proof (rule safe_kquiet [OF assms(1)])
  show "kquiet (slot_step s i 0) s s'" using assms(4) by (simp add: freed_def)
  fix m
  assume m: "slot_step s i 0 m"
  have "pinned_state m"
    using assms(5)
    by (intro pinned_slot_step [OF safeD(1) [OF assms(1)] assms(2) rt_inv_find(1) [OF assms(2,3)] m]) blast+
  then show "pinned_state m \<and> kept c m"
    using kept_slot_step [OF safeD(2) [OF assms(1)] m] assms(6) by blast
qed

subsection \<open>Acquire\<close>

lemma live_UNIV: "core c t pend f D U W S s \<Longrightarrow> vip_map (kmaps s) k = Some val \<Longrightarrow> ring_uses s UNIV (vip_id val)"
  using coreD(6) [of c t pend f D U W S s] unfolding entries_ok_def by blast

lemma refs_bound:
  assumes "core c t pend f D U W S s" "addr \<notin> set pend"
  shows "refs s addr \<le> 65"
proof -
  have "refs s addr = card (holders s addr) + count_list pend addr + (if addr \<in> D then 1 else 0)"
    using coreD(4) [OF assms(1)] by (simp add: refs_ok_def)
  moreover have "count_list pend addr = 0" using assms(2) by (simp add: count_list_0_iff)
  ultimately show ?thesis using card_holders [OF coreD(3) [OF assms(1)], of addr] by simp
qed

lemma rest_holders: "rest s s' \<Longrightarrow> holders s' a = holders s a"
  by (simp add: holders_def rest_lb)

lemma refs_ok_Cons:
  assumes "refs_ok pend D s" "rest s s'" "\<And>a. refs s' a = (if a = addr then refs s a + 1 else refs s a)"
  shows "refs_ok (addr # pend) D s'"
  using assms by (simp add: refs_ok_def rest_holders)

lemma set_slot_simps [simp]:
  "slots (set_slot i sl s) = (slots s)(i := sl)" "by_addr (set_slot i sl s) = by_addr s"
  "cursor (set_slot i sl s) = cursor s" "kmaps (set_slot i sl s) = kmaps s" "ktrace (set_slot i sl s) = ktrace s"
  "id_of (set_slot i sl s) = id_of s"
  by (simp_all add: set_slot_def id_of_def fun_eq_iff)

lemma rest_set_slot [simp]: "rest s (set_slot i sl s)"
  by (simp add: rest_def set_slot_def)

lemma tab_step_refs: "tab_step UNIV s (set_slot i ((slots s i)\<lparr>s_refs := r\<rparr>) s)"
  by (auto simp: tab_step_def mac_of_def split: option.splits)

lemma refs_set_slot:
  assumes "rt_inv s" "id_of s addr = Some i"
  shows "refs (set_slot i ((slots s i)\<lparr>s_refs := r\<rparr>) s) a = (if a = addr then unat r else refs s a)"
proof (cases "a = addr")
  case True
  then show ?thesis using assms by (simp add: refs_def)
next
  case False
  then have "id_of s a \<noteq> Some i" using rt_inv_inj [OF assms(1)] assms(2) by (auto simp: id_of_def)
  then show ?thesis using False by (cases "id_of s a") (auto simp: refs_def)
qed

lemma safe_set_slot [simp]: "safe c (set_slot i sl s) = safe c s"
  by (simp add: safe_def)

lemma wp_acquire_core:
  assumes E: "env_ok E" and core: "core c t pend f D U W S s" and addr: "addr \<noteq> 0" "addr \<notin> set pend"
    and ok: "\<And>i s'. core c t (addr # pend) f D U W S s' \<Longrightarrow> tab_step UNIV s s' \<Longrightarrow> id_of s' addr = Some i \<Longrightarrow> Q i s'"
    and err: "\<And>e. is_runtime_error e \<Longrightarrow> id_of s addr = None \<Longrightarrow> table_full s \<Longrightarrow> R e s"
  shows "wp (acquire E addr) Q R s"
proof (rule wp_acquire [OF E coreD(1) [OF core] addr(1)])
  note C = coreD [OF core]
  fix i
  assume f: "smap_find (by_addr s) addr = Some i"
  let ?s = "set_slot i ((slots s i)\<lparr>s_refs := s_refs (slots s i) + 1\<rparr>) s"
  have i: "id_of s addr = Some i" using f by (simp add: id_of_def)
  have "unat (s_refs (slots s i)) \<le> 65"
    using refs_bound [OF core addr(2)] i by (simp add: refs_def)
  then have u: "unat (s_refs (slots s i) + 1) = refs s addr + 1"
    using i by (simp add: refs_def unat_word_ariths)
  have "refs_ok (addr # pend) D ?s"
    by (rule refs_ok_Cons [OF C(4)]) (auto simp: refs_set_slot [OF C(1) i] u)
  moreover have "tight t ?s"
    using C(5) u unfolding tight_def by (auto simp: unat_eq_0 [symmetric])
  ultimately have "core c t (addr # pend) f D U W S ?s"
    using rt_inv_refs [OF C(1) f] C(2) live_UNIV [OF core] by (intro core_tab_step [OF core tab_step_refs]) auto
  then show "Q i ?s" using ok tab_step_refs i by simp
next
  note C = coreD [OF core]
  fix j i s'
  assume N: "smap_find (by_addr s) addr = None" and ff: "first_free s j" "i = (next_id ^^ j) (cursor s)"
    and i: "valid_id i" and al: "allocated s addr i s'" and rt': "rt_inv s'"
  have z: "s_addr (slots s i) = 0" using ff by (simp add: first_free_def)
  have other: "id \<noteq> i" if "smap_find (by_addr s) a = Some id" for a id
    using rt_inv_find [OF C(1) that] z by auto
  have ids: "id_of s' a = (if a = addr then Some i else id_of s a)" for a
    using al by (simp add: id_of_def allocated_def)
  have st: "tab_step UNIV s s'"
    using al N ids other
    by (auto simp: tab_step_def allocated_def mac_of_def kquiet_def slot_step_def quiet_def id_of_def split: option.splits)
  have "refs s' a = (if a = addr then refs s a + 1 else refs s a)" for a
    using al N ids other [of a] by (auto simp: refs_def id_of_def allocated_def split: option.splits)
  then have "refs_ok (addr # pend) D s'"
    using al by (intro refs_ok_Cons [OF C(4)]) (auto simp: allocated_def)
  moreover have "tight t s'"
    using C(5) al other by (auto simp: tight_def allocated_def)
  ultimately have "core c t (addr # pend) f D U W S s'"
    using rt' safe_allocated [OF C(2,1) i z N al C(9)] live_UNIV [OF core] by (intro core_tab_step [OF core st]) auto
  then show "Q i s'" using ok st ids by simp
next
  assume "smap_find (by_addr s) addr = None" "table_full s"
  then show "R (RuntimeError (''too many reals (max '' @ to_string (unat (PB_MAX_REALS - 1)) @ '')'')) s"
    using err by (simp add: id_of_def)
qed

subsection \<open>Release\<close>

text \<open>
  Every VIP the data plane can see has an up-to-date owner, so an id that no member refers to is in
  no live ring.  \<^verbatim>\<open>delete_vip_locked\<close> releases the members of a VIP before it forgets the VIP; the rule
  is therefore stated for a state whose VIPs are replaced by \<open>V\<close>.
\<close>

definition owned :: "vip_spec set \<Rightarrow> lb \<Rightarrow> bool" where
  "owned W s \<longleftrightarrow>
     (\<forall>k val. vip_map (kmaps s) k = Some val \<longrightarrow>
        (\<exists>sp v. smap_find (vips s) sp = Some v \<and> sp \<notin> W \<and> v_id v = vip_id val))"

lemma with_vips_simps [simp]:
  fixes s :: lb
  shows "rt_inv (s\<lparr>vips := V\<rparr>) = rt_inv s" "id_of (s\<lparr>vips := V\<rparr>) = id_of s" "mac_of (s\<lparr>vips := V\<rparr>) = mac_of s"
    "safe c (s\<lparr>vips := V\<rparr>) = safe c s" "refs (s\<lparr>vips := V\<rparr>) = refs s"
    "mac_known (s\<lparr>vips := V\<rparr>) = mac_known s" "ring_uses (s\<lparr>vips := V\<rparr>) = ring_uses s"
    "eligible (s\<lparr>vips := V\<rparr>) = eligible s" "backends_of (s\<lparr>vips := V\<rparr>) = backends_of s"
    "fresh_vip (s\<lparr>vips := V\<rparr>) = fresh_vip s" "tight t (s\<lparr>vips := V\<rparr>) = tight t s"
proof -
  show a: "rt_inv (s\<lparr>vips := V\<rparr>) = rt_inv s" by (simp add: rt_inv_def mirrors_def)
  show b: "id_of (s\<lparr>vips := V\<rparr>) = id_of s" by (simp add: id_of_def fun_eq_iff)
  show c: "mac_of (s\<lparr>vips := V\<rparr>) = mac_of s" by (simp add: mac_of_def b fun_eq_iff split: option.split)
  show "safe c (s\<lparr>vips := V\<rparr>) = safe c s" by (simp add: safe_def)
  show "refs (s\<lparr>vips := V\<rparr>) = refs s" by (simp add: refs_def b fun_eq_iff split: option.split)
  show d: "mac_known (s\<lparr>vips := V\<rparr>) = mac_known s" by (simp add: mac_known_def b c fun_eq_iff)
  show "ring_uses (s\<lparr>vips := V\<rparr>) = ring_uses s" by (simp add: ring_uses_def d fun_eq_iff)
  show e: "eligible (s\<lparr>vips := V\<rparr>) = eligible s" by (simp add: eligible_def c fun_eq_iff)
  show f: "backends_of (s\<lparr>vips := V\<rparr>) = backends_of s" by (simp add: backends_of_def b fun_eq_iff)
  show "fresh_vip (s\<lparr>vips := V\<rparr>) = fresh_vip s" by (simp add: fresh_vip_def e f fun_eq_iff)
  show "tight t (s\<lparr>vips := V\<rparr>) = tight t s" by (simp add: tight_def)
qed

lemma rest_with_vips: "rest s s' \<Longrightarrow> rest (s\<lparr>vips := V\<rparr>) (s'\<lparr>vips := V\<rparr>)" for s s' :: lb
  by (cases s; cases s') (simp add: rest_def)

lemma freed_with_vips: "freed s a i s' \<Longrightarrow> freed (s\<lparr>vips := V\<rparr>) a i (s'\<lparr>vips := V\<rparr>)" for s s' :: lb
  by (simp add: freed_def rest_with_vips kquiet_def slot_step_def mirrors_def)

lemma set_slot_with_vips: "(set_slot i sl s)\<lparr>vips := V\<rparr> = set_slot i sl (s\<lparr>vips := V\<rparr>)" for s :: lb
  by (simp add: set_slot_def)

lemma refs_ok_tl:
  assumes "refs_ok (addr # pend) D s" "rest s s'" "\<And>a. refs s' a = (if a = addr then refs s a - 1 else refs s a)"
  shows "refs_ok pend D s'"
  using assms by (auto simp: refs_ok_def rest_holders)

lemma core_release_shared:
  assumes core: "core c t (addr # pend) f D U W S s" and i: "id_of s addr = Some i" and r: "1 < s_refs (slots s i)"
  shows "core c t pend f D U W S (set_slot i ((slots s i)\<lparr>s_refs := s_refs (slots s i) - 1\<rparr>) s)"
proof -
  note C = coreD [OF core]
  have "s_refs (slots s i) \<noteq> 0" using r by auto
  then have u: "unat (s_refs (slots s i) - 1) = refs s addr - 1"
    using i by (simp add: refs_def unat_minus_one)
  have f: "smap_find (by_addr s) addr = Some i" using i by (simp add: id_of_def)
  have nz: "s_refs (slots s i) - 1 \<noteq> 0" using refs_gt_1 [of "s_refs (slots s i)"] r by auto
  show ?thesis
  proof (rule core_tab_step [OF core tab_step_refs])
    show "refs_ok pend D (set_slot i ((slots s i)\<lparr>s_refs := s_refs (slots s i) - 1\<rparr>) s)"
      by (rule refs_ok_tl [OF C(4)]) (auto simp: refs_set_slot [OF C(1) i] u)
    show "tight t (set_slot i ((slots s i)\<lparr>s_refs := s_refs (slots s i) - 1\<rparr>) s)"
      using C(5) nz by (simp add: tight_def)
  qed (use rt_inv_refs [OF C(1) f] C(2) live_UNIV [OF core] in simp_all)
qed

lemma core_release_last:
  assumes core: "core c True (addr # pend) f D U W S s" and ow: "owned W s" and i: "id_of s addr = Some i"
    and r: "s_refs (slots s i) \<le> 1" and fr: "freed s addr i s'"
  shows "core c True pend f D U W S s'" "owned W s'"
proof -
  note C = coreD [OF core]
  have fa: "smap_find (by_addr s) addr = Some i" using i by (simp add: id_of_def)
  have "refs s addr \<le> 1" using i r by (simp add: refs_def word_le_nat_alt)
  moreover have "refs s addr = card (holders s addr) + Suc (count_list pend addr) + (if addr \<in> D then 1 else 0)"
    using C(4) by (simp add: refs_ok_def)
  ultimately have "refs s addr = 1" "holders s addr = {}" "addr \<notin> D"
    using finite_holders by (auto split: if_splits)
  note one = this
  let ?K = "- {addr}"
  have mem: "member_addrs v \<subseteq> ?K" if "smap_find (vips s) sp = Some v" for sp v
    using one(2) that by (auto simp: holders_def)
  have live: "ring_uses s ?K (vip_id val)" if "vip_map (kmaps s) k = Some val" for k val
  proof -
    obtain sp v where v: "smap_find (vips s) sp = Some v" "sp \<notin> W" "v_id v = vip_id val"
      using ow \<open>vip_map (kmaps s) k = Some val\<close> unfolding owned_def by blast
    then have "ring_uses s (member_addrs v \<union> (if sp = f then D else {})) (vip_id val)"
      using C(7) unfolding rings_ok_def by force
    then show ?thesis by (rule ring_uses_mono) (use mem [OF v(1)] one(3) in auto)
  qed
  have uniq: "a = addr" if "id_of s a = Some i" for a
    using rt_inv_inj [OF C(1)] that fa by (simp add: id_of_def)
  have st: "tab_step ?K s s'"
    using fr uniq by (auto simp: tab_step_def freed_def mac_of_def kquiet_def slot_step_def quiet_def id_of_def
      split: option.splits)
  have "i \<notin> set ring" if "vip_map (kmaps s) k = Some v" "rings (kmaps s) (vip_id v) = Some ring" for k v ring
  proof
    assume "i \<in> set ring"
    then have "i = PB_REAL_NONE \<or> (\<exists>a \<in> ?K. mac_known s a i)"
      using live [OF that(1)] that(2) unfolding ring_uses_def by fastforce
    then show False
      using uniq valid_id_not_NONE [OF rt_inv_find(1) [OF C(1) fa]] by (auto simp: mac_known_def)
  qed
  moreover have pin: "a \<noteq> addr" if "(sp, a, j) \<in> g_pins c" for sp a j
    using C(9) that one(2) unfolding pins_ok_def holders_def by blast
  moreover have "(sp, a, i) \<notin> g_pins c" for sp a
    using pin [of sp a i] uniq [of a] pin_slot(1) [OF C(9) _ C(1), of sp a i] by blast
  ultimately have sf: "safe c s'" using safe_freed [OF C(2,1) fa fr] by blast
  have ids: "id_of s' a = (if a = addr then None else id_of s a)" for a
    using fr by (simp add: id_of_def freed_def)
  have refs': "refs s' a = (if a = addr then refs s a - 1 else refs s a)" for a
  proof (cases "a = addr")
    case False
    then show ?thesis using fr ids uniq [of a] by (cases "id_of s a") (auto simp: refs_def freed_def)
  qed (use one(1) ids in \<open>simp add: refs_def\<close>)
  have tg: "tight True s'"
    unfolding tight_def
  proof (intro impI allI)
    fix a j
    assume "True" and A: "smap_find (by_addr s') a = Some j"
    then have B: "smap_find (by_addr s) a = Some j" "a \<noteq> addr"
      using fr by (auto simp: freed_def split: if_splits)
    then have "j \<noteq> i" using uniq [of a] by (auto simp: id_of_def)
    then show "s_refs (slots s' j) \<noteq> 0"
      using C(5) B fr unfolding tight_def by (simp add: freed_def)
  qed
  show "core c True pend f D U W S s'"
  proof (rule core_tab_step [OF core st])
    show "refs_ok pend D s'"
      by (rule refs_ok_tl [OF C(4)]) (use fr refs' in \<open>auto simp: freed_def\<close>)
  qed (use rt_inv_freed [OF C(1) fa fr] sf mem one(3) live tg pin in auto)
  show "owned W s'"
    using ow st rest_lb(1) unfolding owned_def tab_step_def by metis
qed

lemma wp_release_core:
  assumes E: "env_ok E" and core: "core c True (addr # pend) f D U W S (s\<lparr>vips := V\<rparr>)" and ow: "owned W (s\<lparr>vips := V\<rparr>)"
    and ok: "\<And>s'. core c True pend f D U W S (s'\<lparr>vips := V\<rparr>) \<Longrightarrow> owned W (s'\<lparr>vips := V\<rparr>) \<Longrightarrow> rest s s' \<Longrightarrow>
      vip_map (kmaps s') = vip_map (kmaps s) \<Longrightarrow> rings (kmaps s') = rings (kmaps s) \<Longrightarrow> Q () s'"
  shows "wp (release E addr) Q R s"
proof (rule wp_release [OF E])
  note C = coreD [OF core]
  show "rt_inv s" using C(1) by simp
  have "0 < refs s addr" using C(4) by (simp add: refs_ok_def)
  then have "id_of s addr \<noteq> None" by (rule id_of_refs)
  then show "Q () s" if "smap_find (by_addr s) addr = None" using that by (simp add: id_of_def)
  fix i
  assume "smap_find (by_addr s) addr = Some i"
  then have i: "id_of (s\<lparr>vips := V\<rparr>) addr = Some i" by (simp add: id_of_def)
  show "Q () (set_slot i ((slots s i)\<lparr>s_refs := s_refs (slots s i) - 1\<rparr>) s)" if "1 < s_refs (slots s i)"
  proof (rule ok)
    show "core c True pend f D U W S ((set_slot i ((slots s i)\<lparr>s_refs := s_refs (slots s i) - 1\<rparr>) s)\<lparr>vips := V\<rparr>)"
      using core_release_shared [OF core i] that by (simp add: set_slot_with_vips)
    show "owned W ((set_slot i ((slots s i)\<lparr>s_refs := s_refs (slots s i) - 1\<rparr>) s)\<lparr>vips := V\<rparr>)"
      using ow by (simp add: owned_def)
  qed simp_all
  show "Q () s'" if "s_refs (slots s i) \<le> 1" "freed s addr i s'" for s'
    using core_release_last [OF core ow i _ freed_with_vips [OF that(2)]] that
    by (intro ok) (auto simp: freed_def kquiet_def slot_step_def quiet_def)
qed

end
