(* ===== verification/Lb_Steps.thy ===== *)
theory Lb_Steps
  imports Lb_Inv
begin

text \<open>
  The steps of \<^verbatim>\<open>LbState\<close> that change its VIPs or the maps \<^verbatim>\<open>vip_map\<close> and \<^verbatim>\<open>rings\<close>, as rules over
  \<^const>\<open>core\<close>: a new MAC, members added, removed and changed, a ring rebuilt and installed, a VIP
  entry written and deleted, a VIP created and forgotten.
\<close>

section \<open>A new MAC\<close>

lemma core_resolved:
  assumes core: "core c t pend f D U W S s" and i: "smap_find (by_addr s) addr = Some i" and m: "m \<noteq> zero_mac"
    and re: "resolved s addr m i s'" and rt': "rt_inv s'"
  shows "core c t pend f D U W S s'" "tab_step UNIV s s'"
    "mac_of s' a = (if a = addr then Some m else mac_of s a)" "refs s' = refs s"
proof -
  note C = coreD [OF core]
  have ids: "id_of s' = id_of s" using re by (simp add: resolved_def id_of_def fun_eq_iff)
  have uniq: "a = addr" if "id_of s a = Some i" for a
    using rt_inv_inj [OF C(1)] that i by (simp add: id_of_def)
  have ia: "id_of s addr = Some i" using i by (simp add: id_of_def)
  show mac: "mac_of s' a = (if a = addr then Some m else mac_of s a)" for a
    using re ids ia uniq [of a] by (cases "id_of s a") (auto simp: mac_of_def resolved_def)
  show st: "tab_step UNIV s s'"
    using re ids mac by (simp add: tab_step_def resolved_def kquiet_def slot_step_def quiet_def)
  show rf: "refs s' = refs s"
    using re ids by (auto simp: refs_def resolved_def fun_eq_iff split: option.split)
  have "refs_ok pend D s'"
    using C(4) rest_holders [of s s'] re rf by (simp add: refs_ok_def resolved_def)
  moreover have "tight t s'" using C(5) re by (auto simp: tight_def resolved_def)
  ultimately show "core c t pend f D U W S s'"
    using rt' safe_resolved [OF C(2,1) i m re C(9)] live_UNIV [OF core] by (intro core_tab_step [OF core st]) auto
qed

lemma wp_set_mac_core:
  assumes E: "env_ok E" and core: "core c t pend f D U W S s" and m: "m \<noteq> zero_mac"
    and same: "mac_of s addr = Some m \<or> id_of s addr = None \<Longrightarrow> Q False s"
    and changed: "\<And>s'. core c t pend f D U W S s' \<Longrightarrow> tab_step UNIV s s' \<Longrightarrow> id_of s addr \<noteq> None \<Longrightarrow>
      mac_of s addr \<noteq> Some m \<Longrightarrow>
      mac_of s' = (mac_of s)(addr := Some m) \<Longrightarrow> Q True s'"
  shows "wp (set_mac E addr m) Q R s"
proof (rule wp_set_mac [OF E coreD(1) [OF core] m])
  show "Q False s" if "mac_of s addr = Some m \<or> id_of s addr = None" using same that .
  fix i s'
  assume A: "smap_find (by_addr s) addr = Some i" "s_mac (slots s i) \<noteq> Some m" "resolved s addr m i s'" "rt_inv s'"
  note R = core_resolved [OF core A(1) m A(3,4)]
  show "Q True s'"
    by (rule changed) (use R A in \<open>auto simp: id_of_def mac_of_def fun_eq_iff\<close>)
qed

lemma wp_lookup_mac_core:
  assumes E: "env_ok E" and core: "core c t pend f D U W S s"
    and ok: "\<And>s'. core c t pend f D U W S s' \<Longrightarrow> tab_step UNIV s s' \<Longrightarrow> Q () s'"
  shows "wp (lookup_mac E addr) Q R s"
proof -
  have refl: "tab_step UNIV s s" by (simp add: tab_step_def)
  show ?thesis
  proof (cases "mac_of s addr = None \<and> mac_lookup E \<noteq> None")
    case False
    then show ?thesis
      using ok [OF core refl] by (cases "mac_of s addr") (auto simp: lookup_mac_def wp_simps)
  next
    case True
    then obtain look where look: "mac_lookup E = Some look" by auto
    let ?ip = "case lb_next_hop s of Some h \<Rightarrow> h | None \<Rightarrow> addr"
    show ?thesis
    proof (cases "look (ticks s) ?ip")
      case None
      then show ?thesis using True look ok [OF core refl] by (simp add: lookup_mac_def wp_simps)
    next
      case (Some m)
      have "m \<noteq> zero_mac" using E look Some by (auto simp: env_ok_def macs_ok_def)
      then have "wp (set_mac E addr m) (\<lambda>_. Q ()) R s"
        using ok core refl by (intro wp_set_mac_core [OF E core]) auto
      then show ?thesis using True look Some by (simp add: lookup_mac_def wp_simps)
    qed
  qed
qed

section \<open>Members\<close>

lemma core_focus: "core c t pend f {} U W S s \<longleftrightarrow> core c t pend g {} U W S s"
  by (simp add: core_def rings_ok_def)

lemma core_mono: "core c t pend f D U W S s \<Longrightarrow> S \<subseteq> S' \<Longrightarrow> core c t pend f D U W S' s"
  unfolding core_def fresh_ok_def by blast

lemma core_incarnation [simp]:
  "core c t pend f D U W S (s\<lparr>lb_next_incarnation := n\<rparr>) = core c t pend f D U W S s"
proof -
  let ?s = "s\<lparr>lb_next_incarnation := n\<rparr>"
  have a: "id_of ?s = id_of s" by (simp add: id_of_def fun_eq_iff)
  have b: "mac_of ?s = mac_of s" by (simp add: mac_of_def a fun_eq_iff split: option.split)
  have c: "ring_uses ?s = ring_uses s" by (simp add: ring_uses_def mac_known_def a b fun_eq_iff)
  have d: "fresh_vip ?s = fresh_vip s" by (simp add: fresh_vip_def backends_of_def eligible_def a b fun_eq_iff)
  have e: "refs ?s = refs s" by (simp add: refs_def a fun_eq_iff split: option.split)
  show ?thesis
    by (simp add: core_def rt_inv_def mirrors_def safe_def vips_wf_def owner_def refs_ok_def holders_def tight_def
      entries_ok_def rings_ok_def fresh_ok_def pins_ok_def mac_known_def a b c d e)
qed

text \<open>The VIP in hand gets other members; \<open>w\<close> counts the references of an address it accounts for.\<close>

definition accounts :: "vip \<Rightarrow> u32 list \<Rightarrow> u32 set \<Rightarrow> u32 \<Rightarrow> nat" where
  "accounts v pend D a = (if a \<in> member_addrs v then 1 else 0) + count_list pend a + (if a \<in> D then 1 else 0)"

lemma card_holders_upd:
  assumes "smap_find (vips s') = (smap_find (vips s))(f \<mapsto> v)"
  shows "card (holders s' a) = card (holders s a - {f}) + (if a \<in> member_addrs v then 1 else 0)"
proof -
  have "holders s' a = (if a \<in> member_addrs v then insert f (holders s a - {f}) else holders s a - {f})"
    using assms by (auto simp: holders_def)
  then show ?thesis using finite_holders [of s a] by (simp add: card.insert_remove)
qed

lemma refs_ok_upd:
  assumes "refs_ok pend D s" "smap_find (vips s) f = Some v" "smap_find (vips s') = (smap_find (vips s))(f \<mapsto> v')"
    "refs s' = refs s" "\<And>a. accounts v' pend' D' a = accounts v pend D a"
  shows "refs_ok pend' D' s'"
  unfolding refs_ok_def
proof
  fix a
  have *: "smap_find (vips s) = (smap_find (vips s))(f \<mapsto> v)" using assms(2) by (simp add: fun_upd_idem)
  show "refs s' a = card (holders s' a) + count_list pend' a + (if a \<in> D' then 1 else 0)"
    using assms(1,4) assms(5) [of a] card_holders_upd [OF assms(3), of a] card_holders_upd [OF *, of a]
    by (simp add: refs_ok_def accounts_def)
qed

lemma vips_wf_upd:
  assumes "vips_wf s" "smap_find (vips s) f = Some v" "smap_find (vips s') = (smap_find (vips s))(f \<mapsto> v')"
    "adopted_vip_ids s' = adopted_vip_ids s" "v_id v' = v_id v" "v_spec v' = v_spec v"
  shows "vips_wf s'" "owner s' = owner s"
proof -
  show ow: "owner s' = owner s" using assms(2-5) by (auto simp: owner_def fun_eq_iff)
  show "vips_wf s'"
    using assms(1-4,6) unfolding vips_wf_def ow by (auto simp: domIff)
qed

lemma core_put_vip:
  assumes core: "core c t pend f D U W S s" and v: "smap_find (vips s) f = Some v"
    and v': "v_id v' = v_id v" "v_spec v' = v_spec v" "f \<in> U \<or> v_flags v' = v_flags v"
    and sub: "member_addrs v \<union> D \<subseteq> member_addrs v' \<union> D'"
    and acc: "\<And>a. accounts v' pend' D' a = accounts v pend D a"
    and pin: "\<And>a i. (f, a, i) \<in> g_pins c \<Longrightarrow> a \<in> member_addrs v \<Longrightarrow> a \<in> member_addrs v'"
  shows "core c t pend' f D' U W (insert f S) (s\<lparr>vips := smap_insert f v' (vips s)\<rparr>)"
proof -
  note C = coreD [OF core]
  let ?s = "s\<lparr>vips := smap_insert f v' (vips s)\<rparr>"
  have fd: "smap_find (vips ?s) = (smap_find (vips s))(f \<mapsto> v')" by simp
  note W = vips_wf_upd [OF C(3) v fd _ v'(1,2)]
  have "entries_ok U ?s"
    using C(6) v v' W(2) unfolding entries_ok_def by (auto split: if_splits)
  moreover have "rings_ok W f D' ?s"
    using C(7) v v'(1) ring_uses_mono [OF _ sub] unfolding rings_ok_def by (auto split: if_splits)
  moreover have "fresh_ok (insert f S) ?s"
    using C(8) unfolding fresh_ok_def by auto
  moreover have "pins_ok c t ?s"
    using C(9) v pin unfolding pins_ok_def by fastforce
  ultimately show ?thesis
    using C W refs_ok_upd [OF C(4) v fd _ acc] by (simp add: core_def)
qed

lemma wp_vip_ref [wp_simps]:
  "wp (vip_ref sp) Q R s = (case smap_find (vips s) sp of Some v \<Rightarrow> Q v s | None \<Rightarrow> False)"
  by (simp add: vip_ref_def wp_simps)

lemma wp_put_vip [wp_simps]: "wp (put_vip sp v) Q R s = Q () (s\<lparr>vips := smap_insert sp v (vips s)\<rparr>)"
  by (simp add: put_vip_def wp_simps)

lemma wp_put_member [wp_simps]:
  "wp (put_member sp a m) Q R s =
     (case smap_find (vips s) sp of
        Some v \<Rightarrow> Q () (s\<lparr>vips := smap_insert sp (v\<lparr>v_members := smap_insert a m (v_members v)\<rparr>) (vips s)\<rparr>)
      | None \<Rightarrow> False)"
  by (simp add: put_member_def wp_simps split: option.split)

lemma member_addrs_simps [simp]:
  "member_addrs (v\<lparr>v_members := smap_insert a m (v_members w)\<rparr>) = insert a (member_addrs w)"
  "member_addrs (v\<lparr>v_members := smap_erase a (v_members w)\<rparr>) = member_addrs w - {a}"
  "member_addrs (v\<lparr>v_generation := g\<rparr>) = member_addrs v"
  "member_addrs (v\<lparr>v_flags := fl\<rparr>) = member_addrs v"
  by (auto simp: member_addrs_def)

lemma tab_step_trans: "tab_step UNIV s s' \<Longrightarrow> tab_step UNIV s' s'' \<Longrightarrow> tab_step UNIV s s''"
  by (auto simp: tab_step_def rest_def)

lemma tab_step_vips: "tab_step K s s' \<Longrightarrow> vips s' = vips s"
  by (auto simp: tab_step_def dest: rest_lb)

text \<open>What a member added to \<open>f\<close> leaves alone: the other VIPs, the settings and the adopted ids.\<close>

definition settings :: "lb \<Rightarrow> lb \<Rightarrow> bool" where
  "settings s s' \<longleftrightarrow> adopted_vip_ids s' = adopted_vip_ids s \<and> lb_hash s' = lb_hash s \<and> lb_next_hop s' = lb_next_hop s \<and>
     lb_interface s' = lb_interface s \<and> lb_initialized s' = lb_initialized s \<and>
     lb_health_enabled s' = lb_health_enabled s"

lemma settings_rest: "rest s s' \<Longrightarrow> settings s s'"
  by (simp add: settings_def rest_lb)

lemma settings_refl [simp]: "settings s s"
  by (simp add: settings_def)

lemma settings_trans: "settings s s' \<Longrightarrow> settings s' s'' \<Longrightarrow> settings s s''"
  by (simp add: settings_def)

definition new_member :: "u32 \<Rightarrow> member \<Rightarrow> bool" where
  "new_member w m \<longleftrightarrow> m_weight m = w \<and> \<not> m_draining m \<and> m_up m \<and> \<not> in_ring m \<and>
     consecutive_ok m = 0 \<and> consecutive_fail m = 0"

lemma wp_add_member:
  assumes E: "env_ok E" and core: "core c t pend f D U W S s" and v: "smap_find (vips s) f = Some v"
    and addr: "addr \<noteq> 0" "addr \<notin> set pend" "addr \<notin> member_addrs v" "addr \<notin> D"
    and ok: "\<And>m s'. core c t pend f D U W (insert f S) s' \<Longrightarrow> settings s s' \<Longrightarrow> new_member weight m \<Longrightarrow>
      smap_find (vips s') = (smap_find (vips s))(f \<mapsto> v\<lparr>v_members := smap_insert addr m (v_members v)\<rparr>) \<Longrightarrow>
      vip_map (kmaps s') = vip_map (kmaps s) \<Longrightarrow> Q () s'"
    and err: "\<And>e. is_runtime_error e \<Longrightarrow> id_of s addr = None \<Longrightarrow> table_full s \<Longrightarrow> R e s"
  shows "wp (add_member_locked E f addr weight) Q R s"
  unfolding add_member_locked_def wp_seqM
proof (rule wp_acquire_core [OF E core addr(1,2)])
  fix i s1
  assume c1: "core c t (addr # pend) f D U W S s1" and t1: "tab_step UNIV s s1" and i1: "id_of s1 addr = Some i"
  show "wp (lookup_mac E addr) (\<lambda>_. wp (bindM (gets (\<lambda>s. default_member\<lparr>m_weight := weight,
        last_change_ms := epoch_ms E (ticks s), incarnation := lb_next_incarnation s\<rparr>)) (\<lambda>m.
     seqM (modify (\<lambda>s. s\<lparr>lb_next_incarnation := lb_next_incarnation s + 1\<rparr>))
    (bindM (vip_ref f) (\<lambda>v.
     seqM (whenM (\<not> smap_count (v_members v) addr) (put_member f addr m))
    (bindM (gets (\<lambda>s. id_of s addr)) (\<lambda>it. seqM (deref it) (ret ()))))))) Q R) R s1"
  proof (rule wp_lookup_mac_core [OF E c1])
    fix s2
    assume c2: "core c t (addr # pend) f D U W S s2" and t2: "tab_step UNIV s1 s2"
    note t = tab_step_trans [OF t1 t2]
    have i2: "id_of s2 addr = Some i" using t2 i1 by (simp add: tab_step_def)
    have v2: "smap_find (vips s2) f = Some v" using v tab_step_vips [OF t] by simp
    let ?m = "default_member\<lparr>m_weight := weight, last_change_ms := epoch_ms E (ticks s2),
        incarnation := lb_next_incarnation s2\<rparr>"
    let ?v = "v\<lparr>v_members := smap_insert addr ?m (v_members v)\<rparr>"
    let ?s2 = "s2\<lparr>lb_next_incarnation := lb_next_incarnation s2 + 1\<rparr>"
    let ?s = "?s2\<lparr>vips := smap_insert f ?v (vips ?s2)\<rparr>"
    have v2': "smap_find (vips ?s2) f = Some v" using v2 by simp
    have "core c t pend f D U W (insert f S) ?s"
    proof (rule core_put_vip [OF _ v2', where D = D and pend = "addr # pend"])
      show "core c t (addr # pend) f D U W S ?s2" using c2 by simp
      show "accounts ?v pend D a = accounts v (addr # pend) D a" for a
        using addr(3) by (auto simp: accounts_def)
    qed auto
    moreover have "settings s ?s" using settings_rest [of s s2] t by (simp add: settings_def tab_step_def)
    moreover have "new_member weight ?m" by (simp add: new_member_def default_member_def)
    ultimately have "Q () ?s"
      using t tab_step_vips [OF t] by (intro ok [of _ ?m]) (simp_all add: tab_step_def)
    moreover have "id_of ?s addr = Some i" using i2 by (simp add: id_of_def)
    moreover have "\<not> smap_count (v_members v) addr"
      using addr(3) by (simp add: smap_count_def member_addrs_def domIff)
    ultimately show "wp (bindM (gets (\<lambda>s. default_member\<lparr>m_weight := weight,
        last_change_ms := epoch_ms E (ticks s), incarnation := lb_next_incarnation s\<rparr>)) (\<lambda>m.
     seqM (modify (\<lambda>s. s\<lparr>lb_next_incarnation := lb_next_incarnation s + 1\<rparr>))
    (bindM (vip_ref f) (\<lambda>v.
     seqM (whenM (\<not> smap_count (v_members v) addr) (put_member f addr m))
    (bindM (gets (\<lambda>s. id_of s addr)) (\<lambda>it. seqM (deref it) (ret ()))))))) Q R s2"
      using v2 by (simp add: wp_simps)
  qed
next
  fix e
  assume "is_runtime_error e" "id_of s addr = None" "table_full s"
  then show "R e s" by (rule err)
qed

lemma wp_remove_member:
  assumes core: "core c t pend f D U W S s" and v: "smap_find (vips s) f = Some v"
    and addr: "addr \<in> member_addrs v" "addr \<notin> D" and pin: "\<And>i. (f, addr, i) \<notin> g_pins c"
    and ok: "\<And>s'. core c t pend f (insert addr D) U W (insert f S) s' \<Longrightarrow> settings s s' \<Longrightarrow>
      smap_find (vips s') = (smap_find (vips s))(f \<mapsto> v\<lparr>v_members := smap_erase addr (v_members v)\<rparr>) \<Longrightarrow>
      kmaps s' = kmaps s \<Longrightarrow> id_of s' = id_of s \<Longrightarrow> Q () s'"
  shows "wp (remove_member_locked f addr) Q R s"
proof -
  let ?v = "v\<lparr>v_members := smap_erase addr (v_members v)\<rparr>"
  have "core c t pend f (insert addr D) U W (insert f S) (s\<lparr>vips := smap_insert f ?v (vips s)\<rparr>)"
    by (rule core_put_vip [OF core v]) (use addr pin in \<open>auto simp: accounts_def\<close>)
  then show ?thesis
    using v by (simp add: remove_member_locked_def wp_simps ok settings_def)
qed

section \<open>Rings\<close>

lemma those_Some_iff: "those xs = Some ys \<longleftrightarrow> xs = map Some ys"
  by (induction xs arbitrary: ys) (auto split: option.splits)

lemma build_ring_returns:
  assumes "ring_size_ok M" "ids_ok bs" "distinct (map bk_addr bs)"
  shows "\<exists>ring. build_ring bs mode M = Some (Inr ring)"
proof -
  have "distinct (map bk_addr (active bs))"
    using assms(3) by (simp add: active_def distinct_map_filter)
  then obtain srt where "active_sorted bs = Inr srt" by (simp add: active_sorted_cases)
  then show ?thesis
    using build_ring_Maglev [OF assms(1,2)] build_ring_Modulo [of bs M] by (cases mode) simp_all
qed

text \<open>The backends of a VIP whose members all have an id.\<close>

definition backend_for :: "lb \<Rightarrow> u32 \<times> member \<Rightarrow> backend" where
  "backend_for s am =
     \<lparr>bk_real_id = the (id_of s (fst am)), bk_addr = fst am, bk_weight = if in_ring (snd am) then m_weight (snd am) else 0\<rparr>"

lemma backends_of_Some:
  assumes "\<And>a. smap_find ms a \<noteq> None \<Longrightarrow> id_of s a \<noteq> None"
  shows "backends_of s ms = Some (map (backend_for s) (items ms))"
proof -
  have "map_option (\<lambda>i. \<lparr>bk_real_id = i, bk_addr = a, bk_weight = if in_ring m then m_weight m else 0\<rparr>) (id_of s a) =
      Some (backend_for s (a, m))" if "(a, m) \<in> set (items ms)" for a m
    using assms [of a] that by (auto simp: smap.in_entries backend_for_def)
  then show ?thesis
    unfolding backends_of_def those_Some_iff by (auto simp: comp_def)
qed

lemma backends_ids_ok:
  assumes "rt_inv s" "\<And>a. smap_find ms a \<noteq> None \<Longrightarrow> id_of s a \<noteq> None"
  shows "ids_ok (map (backend_for s) (items ms))" "distinct (map bk_addr (map (backend_for s) (items ms)))"
proof -
  have "the (id_of s a) \<noteq> PB_REAL_NONE" if "(a, m) \<in> set (items ms)" for a m
  proof -
    have "id_of s a \<noteq> None" using assms(2) [of a] that by (simp add: smap.in_entries)
    then obtain i where "id_of s a = Some i" by blast
    then show ?thesis
      using rt_inv_find(1) [OF assms(1), of a i] valid_id_not_NONE by (simp add: id_of_def)
  qed
  then show "ids_ok (map (backend_for s) (items ms))" by (auto simp: ids_ok_def backend_for_def)
  have "bk_addr \<circ> backend_for s = fst" by (auto simp: backend_for_def)
  then show "distinct (map bk_addr (map (backend_for s) (items ms)))"
    using smap.distinct_entries [of ms] by simp
qed

lemma smap_find_mark [simp]:
  "smap_find (mark_members s ms) a = map_option (\<lambda>m. m\<lparr>in_ring := eligible s a m\<rparr>) (smap_find ms a)"
  by (simp add: mark_members_def)

lemma ring_of_marked:
  assumes "rt_inv s" "\<And>a. smap_find ms a \<noteq> None \<Longrightarrow> id_of s a \<noteq> None"
  obtains bs ring where "backends_of s (mark_members s ms) = Some bs" "build_ring bs h PB_RING_SIZE = Some (Inr ring)"
    "length ring = unat PB_RING_SIZE"
    "\<And>r. r \<in> set ring \<Longrightarrow> r = PB_REAL_NONE \<or> (\<exists>a \<in> dom (smap_find ms). mac_known s a r)"
proof -
  let ?ms = "mark_members s ms"
  have ids: "\<And>a. smap_find ?ms a \<noteq> None \<Longrightarrow> id_of s a \<noteq> None" using assms(2) by simp
  let ?bs = "map (backend_for s) (items ?ms)"
  have ok: "ids_ok ?bs" "distinct (map bk_addr ?bs)"
    by (rule backends_ids_ok [OF assms(1) ids], assumption)+
  obtain ring where ring: "build_ring ?bs h PB_RING_SIZE = Some (Inr ring)"
    using build_ring_returns [OF ring_size_ok_PB_RING_SIZE ok] by blast
  note rc = build_ring_contents [OF ring_size_ok_PB_RING_SIZE ok(1) ring]
  have "r = PB_REAL_NONE \<or> (\<exists>a \<in> dom (smap_find ms). mac_known s a r)" if r: "r \<in> set ring" for r
  proof (cases "\<exists>b \<in> set ?bs. 0 < bk_weight b")
    case False
    then have "ring = replicate (unat PB_RING_SIZE) PB_REAL_NONE"
      by (intro rc(3)) (auto simp: word_gt_0)
    then show ?thesis using r by (simp add: in_set_replicate)
  next
    case True
    then obtain b where "b \<in> set ?bs" "0 < bk_weight b" "r = bk_real_id b"
      using rc(2) r by blast
    then obtain a m where am: "(a, m) \<in> set (items ?ms)" "in_ring m" "r = the (id_of s a)"
      by (auto simp: backend_for_def split: if_splits)
    then obtain m' where m': "smap_find ms a = Some m'" "m = m'\<lparr>in_ring := eligible s a m'\<rparr>"
      by (auto simp: smap.in_entries)
    moreover have "id_of s a \<noteq> None" using m'(1) by (intro assms(2)) simp
    moreover have "mac_of s a \<noteq> None" using am(2) m'(2) by (simp add: eligible_def)
    ultimately show ?thesis using am(3) by (auto simp: mac_known_def)
  qed
  moreover have "backends_of s ?ms = Some ?bs" by (rule backends_of_Some) (use ids in blast)
  ultimately show ?thesis using rc(1) ring by (intro that) auto
qed

lemma wp_install_ring:
  assumes "length ring = unat PB_RING_SIZE"
    and ok: "\<And>n m. m = (kmaps s)\<lparr>rings := (rings (kmaps s))(vid \<mapsto> ring)\<rparr> \<Longrightarrow>
      Q () (s\<lparr>kmaps := m, ktrace := m # ktrace s, ticks := n\<rparr>)"
    and err: "\<And>e n. is_runtime_error e \<Longrightarrow> \<not> inserts_ok E \<Longrightarrow> R e (s\<lparr>ticks := n\<rparr>)"
  shows "wp (install_ring E vid ring) Q R s"
proof -
  have "\<not> inserts_ok E" if "sys E SysRingCreate n < 0 \<or> sys E SysRingFill n \<noteq> 0 \<or> sys E SysRingSwap n \<noteq> 0" for n
    using that unfolding inserts_ok_def by (meson not_less)
  then show ?thesis
    using assms(1) by (auto simp: install_ring_def wp_simps intro!: ok err)
qed

text \<open>
  A new ring for the VIP \<open>f\<close>: the state \<open>s'\<close> differs from \<open>s\<close> in the ring and in the VIP's record.
\<close>

definition same_table :: "lb \<Rightarrow> lb \<Rightarrow> bool" where
  "same_table s s' \<longleftrightarrow> slots s' = slots s \<and> by_addr s' = by_addr s \<and> cursor s' = cursor s"

lemma same_table_simps:
  assumes "same_table s s'"
  shows "id_of s' = id_of s" "mac_of s' = mac_of s" "refs s' = refs s" "mac_known s' = mac_known s"
    "eligible s' = eligible s" "backends_of s' = backends_of s" "tight t s' = tight t s"
proof -
  show a: "id_of s' = id_of s" using assms by (simp add: same_table_def id_of_def fun_eq_iff)
  show b: "mac_of s' = mac_of s"
    using assms by (simp add: same_table_def mac_of_def a fun_eq_iff split: option.split)
  show "refs s' = refs s" using assms by (simp add: same_table_def refs_def a fun_eq_iff split: option.split)
  show "mac_known s' = mac_known s" by (simp add: mac_known_def a b fun_eq_iff)
  show "eligible s' = eligible s" by (simp add: eligible_def b fun_eq_iff)
  show "backends_of s' = backends_of s" by (simp add: backends_of_def a fun_eq_iff)
  show "tight t s' = tight t s" using assms by (simp add: tight_def same_table_def)
qed

lemma same_table_rt_inv:
  "same_table s s' \<Longrightarrow> reals (kmaps s') = reals (kmaps s) \<Longrightarrow> neigh (kmaps s') = neigh (kmaps s) \<Longrightarrow> rt_inv s' = rt_inv s"
  by (simp add: same_table_def rt_inv_def mirrors_def)

lemma same_table_ring_uses:
  "same_table s s' \<Longrightarrow> rings (kmaps s') i = rings (kmaps s) i \<Longrightarrow> ring_uses s' A i = ring_uses s A i"
  by (simp add: ring_uses_def same_table_simps)

lemma same_table_fresh:
  "same_table s s' \<Longrightarrow> rings (kmaps s') (v_id v) = rings (kmaps s) (v_id v) \<Longrightarrow> lb_hash s' = lb_hash s \<Longrightarrow>
   fresh_vip s' v = fresh_vip s v"
  by (simp add: fresh_vip_def same_table_simps)

lemma count_list_distinct: "distinct xs \<Longrightarrow> count_list xs a = (if a \<in> set xs then 1 else 0)"
  by (induction xs) auto

lemma core_rebuilt:
  assumes core: "core c t pend f (set rem) U W S s" and v: "smap_find (vips s) f = Some v" and rem: "distinct rem"
    and bs: "backends_of s (mark_members s (v_members v)) = Some bs"
    and ring: "build_ring bs (lb_hash s) PB_RING_SIZE = Some (Inr ring)" "length ring = unat PB_RING_SIZE"
      "\<And>r. r \<in> set ring \<Longrightarrow> r = PB_REAL_NONE \<or> (\<exists>a \<in> member_addrs v. mac_known s a r)"
    and s': "smap_find (vips s') = (smap_find (vips s))(f \<mapsto> v')" "settings s s'" "same_table s s'"
      "kmaps s' = (kmaps s)\<lparr>rings := (rings (kmaps s))(v_id v \<mapsto> ring)\<rparr>" "ktrace s' = kmaps s' # ktrace s"
    and v': "v' = v\<lparr>v_members := mark_members s (v_members v), v_generation := g\<rparr>"
  shows "core c t (rem @ pend) f {} U (W - {f}) (S - {f}) s'"
proof -
  note C = coreD [OF core] and T = same_table_simps [OF s'(3)]
  have mem: "member_addrs v' = member_addrs v" by (auto simp: v' member_addrs_def)
  have ad: "adopted_vip_ids s' = adopted_vip_ids s" and hash: "lb_hash s' = lb_hash s"
    using s'(2) by (simp_all add: settings_def)
  have ids: "v_id v' = v_id v" "v_spec v' = v_spec v" "v_flags v' = v_flags v" by (simp_all add: v')
  note W = vips_wf_upd [OF C(3) v s'(1) ad ids(1,2)]
  have rt: "rt_inv s'" using C(1) same_table_rt_inv [OF s'(3)] s'(4) by simp
  have use: "ring_uses s' (member_addrs v) (v_id v)"
    using ring(2,3) s'(4) by (auto simp: ring_uses_def T)
  have other: "rings (kmaps s') (v_id w) = rings (kmaps s) (v_id w)"
    if "smap_find (vips s) sp = Some w" "sp \<noteq> f" for sp w
  proof -
    have "v_id w \<noteq> v_id v"
      using vips_wfD(3) [OF C(3) owner_vip [OF that(1)]] owner_vip [OF v] that(2) by auto
    then show ?thesis by (simp add: s'(4))
  qed
  have en: "entries_ok U s'"
    unfolding entries_ok_def
  proof (intro conjI allI impI)
    show "finite (dom (vip_map (kmaps s')))" using C(6) s'(4) by (simp add: entries_ok_def)
    show "vip_map (kmaps s') (VipSpec_key sp) = Some \<lparr>vip_id = v_id w, vip_flags = v_flags w\<rparr>"
      if "smap_find (vips s') sp = Some w \<and> sp \<notin> U" for sp w
      using that C(6) v s'(1,4) ids unfolding entries_ok_def by (auto split: if_splits)
    fix k val
    assume A: "vip_map (kmaps s') k = Some val"
    then have B: "vip_map (kmaps s) k = Some val" using s'(4) by simp
    show "\<exists>sp. k = VipSpec_key sp \<and> owner s' sp (vip_id val)"
      using C(6) B unfolding entries_ok_def W(2) by blast
    show "ring_uses s' UNIV (vip_id val)"
    proof (cases "vip_id val = v_id v")
      case True
      then show ?thesis using use ring_uses_mono by fastforce
    next
      case False
      then show ?thesis using live_UNIV [OF core B] same_table_ring_uses [OF s'(3)] s'(4) by simp
    qed
  qed
  have "pinned_state (kmaps s')"
    by (rule pinned_state_core [OF rt W(1) en])
      (use safeD(1) [OF C(2)] s'(4) in \<open>simp add: pinned_state_def\<close>)
  moreover have "kept c (kmaps s')" by (rule kept_same [OF safeD(2) [OF C(2)]]) (simp_all add: s'(4))
  ultimately have sf: "safe c s'" using safe_write [OF C(2) _ _ refl s'(5)] by blast
  have "refs_ok (rem @ pend) {} s'"
    by (rule refs_ok_upd [OF C(4) v s'(1) T(3)]) (simp add: accounts_def mem count_list_distinct [OF rem])
  moreover have "rings_ok (W - {f}) f {} s'"
    unfolding rings_ok_def
  proof (intro allI impI)
    fix sp w
    assume A: "smap_find (vips s') sp = Some w \<and> sp \<notin> W - {f}"
    show "ring_uses s' (member_addrs w \<union> (if sp = f then {} else {})) (v_id w)"
    proof (cases "sp = f")
      case True
      then show ?thesis using A use s'(1) ids(1) mem by simp
    next
      case False
      then have B: "smap_find (vips s) sp = Some w" "sp \<notin> W" using A s'(1) by auto
      then have "ring_uses s (member_addrs w) (v_id w)" using C(7) False unfolding rings_ok_def by force
      then show ?thesis using same_table_ring_uses [OF s'(3) other [OF B(1) False]] by simp
    qed
  qed
  moreover have "fresh_ok (S - {f}) s'"
    unfolding fresh_ok_def
  proof (intro allI impI)
    fix sp w
    assume A: "smap_find (vips s') sp = Some w \<and> sp \<notin> S - {f}"
    show "fresh_vip s' w"
    proof (cases "sp = f")
      case True
      then have "w = v'" using A s'(1) by simp
      have el: "\<forall>a m. smap_find (v_members v') a = Some m \<and> in_ring m \<longrightarrow> eligible s a m"
        by (auto simp: v' eligible_def)
      have "backends_of s (v_members v') = Some bs" "rings (kmaps s') (v_id v') = Some ring"
        using bs s'(4) by (simp_all add: v')
      with el ring(1) show ?thesis
        unfolding \<open>w = v'\<close> fresh_vip_def T hash by blast
    next
      case False
      then have B: "smap_find (vips s) sp = Some w" "sp \<notin> S" using A s'(1) by auto
      then have "fresh_vip s w" using C(8) unfolding fresh_ok_def by blast
      then show ?thesis using same_table_fresh [OF s'(3) other [OF B(1) False] hash] by simp
    qed
  qed
  moreover have "pins_ok c t s'"
    using C(9) v mem unfolding pins_ok_def T s'(1) by fastforce
  ultimately show ?thesis
    using rt sf W(1) T(7) C(5) en by (simp add: core_def)
qed

lemma wp_rebuild:
  assumes core: "core c t pend f (set rem) U W S s" and v: "smap_find (vips s) f = Some v" and rem: "distinct rem"
    and ok: "\<And>s' bs ring v'. core c t (rem @ pend) f {} U (W - {f}) (S - {f}) s' \<Longrightarrow> settings s s' \<Longrightarrow> same_table s s' \<Longrightarrow>
      v' = v\<lparr>v_members := mark_members s (v_members v), v_generation := v_generation v + 1\<rparr> \<Longrightarrow>
      smap_find (vips s') = (smap_find (vips s))(f \<mapsto> v') \<Longrightarrow>
      kmaps s' = (kmaps s)\<lparr>rings := (rings (kmaps s))(v_id v \<mapsto> ring)\<rparr> \<Longrightarrow> Q () s'"
    and err: "\<And>e s'. is_runtime_error e \<Longrightarrow> \<not> inserts_ok E \<Longrightarrow> safe c s' \<Longrightarrow> kmaps s' = kmaps s \<Longrightarrow> R e s'"
  shows "wp (rebuild_locked E f) Q R s"
proof -
  note C = coreD [OF core]
  have "smap_find (v_members v) a \<noteq> None \<Longrightarrow> id_of s a \<noteq> None" for a
    using member_id [OF C(4) _ v, of a] by (auto simp: member_addrs_def)
  then obtain bs ring where bs: "backends_of s (mark_members s (v_members v)) = Some bs"
    and ring: "build_ring bs (lb_hash s) PB_RING_SIZE = Some (Inr ring)" "length ring = unat PB_RING_SIZE"
      "\<And>r. r \<in> set ring \<Longrightarrow> r = PB_REAL_NONE \<or> (\<exists>a \<in> member_addrs v. mac_known s a r)"
    using ring_of_marked [OF C(1), of "v_members v" "lb_hash s"] unfolding member_addrs_def by metis
  let ?v1 = "v\<lparr>v_members := mark_members s (v_members v)\<rparr>"
  let ?s1 = "s\<lparr>vips := smap_insert f ?v1 (vips s)\<rparr>"
  let ?v2 = "?v1\<lparr>v_generation := v_generation v + 1\<rparr>"
  have "wp (install_ring E (v_id v) ring) (\<lambda>_. wp (bindM (vip_ref f)
      (\<lambda>v. put_vip f (v\<lparr>v_generation := v_generation v + 1\<rparr>))) Q R) R ?s1"
  proof (rule wp_install_ring [OF ring(2)])
    fix n m
    assume m: "m = (kmaps ?s1)\<lparr>rings := (rings (kmaps ?s1))(v_id v \<mapsto> ring)\<rparr>"
    let ?s2 = "?s1\<lparr>kmaps := m, ktrace := m # ktrace ?s1, ticks := n\<rparr>"
    let ?s3 = "?s2\<lparr>vips := smap_insert f ?v2 (vips ?s2)\<rparr>"
    have f: "smap_find (vips ?s3) = (smap_find (vips s))(f \<mapsto> ?v2)" "settings s ?s3" "same_table s ?s3"
      "kmaps ?s3 = (kmaps s)\<lparr>rings := (rings (kmaps s))(v_id v \<mapsto> ring)\<rparr>" "ktrace ?s3 = kmaps ?s3 # ktrace s"
      by (simp_all add: settings_def same_table_def m)
    have "Q () ?s3"
      using core_rebuilt [OF core v rem bs ring f, of "v_generation v + 1"] f by (intro ok) auto
    then show "wp (bindM (vip_ref f) (\<lambda>v. put_vip f (v\<lparr>v_generation := v_generation v + 1\<rparr>))) Q R ?s2"
      by (simp add: wp_simps)
  next
    fix e n
    assume "is_runtime_error e" "\<not> inserts_ok E"
    then show "R e (?s1\<lparr>ticks := n\<rparr>)" using C(2) by (intro err) (simp_all add: safe_def)
  qed
  then show ?thesis
    using v bs ring(1) by (simp add: rebuild_locked_def wp_simps)
qed

section \<open>VIP entries\<close>

lemma core_weaken:
  assumes "core c t pend f D U W S s" "U \<subseteq> U'" "W \<subseteq> W'" "S \<subseteq> S'"
  shows "core c t pend f D U' W' S' s"
  using assms unfolding core_def entries_ok_def rings_ok_def fresh_ok_def by blast

text \<open>A write to \<^verbatim>\<open>vip_map\<close> or \<^verbatim>\<open>rings\<close>; the daemon's own state is as before.\<close>

definition kernel_write :: "lb \<Rightarrow> lb \<Rightarrow> bool" where
  "kernel_write s s' \<longleftrightarrow>
     vips s' = vips s \<and> settings s s' \<and> same_table s s' \<and> lb_next_incarnation s' = lb_next_incarnation s \<and>
     reals (kmaps s') = reals (kmaps s) \<and> neigh (kmaps s') = neigh (kmaps s) \<and>
     conntrack (kmaps s') = conntrack (kmaps s) \<and> ktrace s' = kmaps s' # ktrace s"

lemma owner_world [simp]:
  "owner (s\<lparr>kmaps := m\<rparr>) = owner s" "owner (s\<lparr>ktrace := tr\<rparr>) = owner s" "owner (s\<lparr>ticks := n\<rparr>) = owner s"
  by (simp_all add: owner_def fun_eq_iff)

lemma core_kernel_write:
  assumes core: "core c t pend f D U W S s" and kw: "kernel_write s s'" and en: "entries_ok U' s'"
    and r: "\<And>sp v. smap_find (vips s) sp = Some v \<Longrightarrow> sp \<notin> W' \<or> sp \<notin> S' \<Longrightarrow>
      rings (kmaps s') (v_id v) = rings (kmaps s) (v_id v)" and sub: "W \<subseteq> W'" "S \<subseteq> S'"
    and pin: "\<And>sp a i. (sp, a, i) \<in> g_pins c \<Longrightarrow> vip_map (kmaps s) (VipSpec_key sp) \<noteq> None \<Longrightarrow>
      vip_map (kmaps s') (VipSpec_key sp) \<noteq> None"
  shows "core c t pend f D U' W' S' s'"
proof -
  note C = coreD [OF core]
  have st: "same_table s s'" and vp: "vips s' = vips s" and ad: "adopted_vip_ids s' = adopted_vip_ids s"
    and hash: "lb_hash s' = lb_hash s"
    using kw by (simp_all add: kernel_write_def settings_def)
  note T = same_table_simps [OF st]
  have ow: "owner s' = owner s" by (simp add: owner_def vp ad fun_eq_iff)
  have wf: "vips_wf s'" using C(3) by (simp add: vips_wf_def vp ad ow)
  have rt: "rt_inv s'" using C(1) same_table_rt_inv [OF st] kw by (simp add: kernel_write_def)
  have "pinned_state (kmaps s')"
    by (rule pinned_state_core [OF rt wf en])
      (use safeD(1) [OF C(2)] kw in \<open>simp add: pinned_state_def kernel_write_def\<close>)
  moreover have "kept c (kmaps s')"
    by (rule kept_same [OF safeD(2) [OF C(2)]]) (use kw pin in \<open>simp_all add: kernel_write_def\<close>)
  ultimately have "safe c s'"
    by (rule safe_write [OF C(2) _ _ refl]) (use kw in \<open>simp_all add: kernel_write_def\<close>)
  moreover have "rings_ok W' f D s'"
    using C(7) same_table_ring_uses [OF st r] sub(1) unfolding rings_ok_def vp by blast
  moreover have "fresh_ok S' s'"
    using C(8) same_table_fresh [OF st r hash] sub(2) unfolding fresh_ok_def vp by blast
  moreover have "refs_ok pend D s'" using C(4) by (simp add: refs_ok_def T holders_def vp)
  moreover have "pins_ok c t s'" using C(9) by (simp add: pins_ok_def T vp)
  ultimately show ?thesis
    using rt wf en T(7) C(5) by (simp add: core_def)
qed

lemma wp_write_vip_entry:
  assumes core: "core c t pend f D U W S s" and v: "smap_find (vips s) f = Some v" "f \<notin> W"
    and ok: "\<And>s'. core c t pend f D (U - {f}) W S s' \<Longrightarrow> kernel_write s s' \<Longrightarrow>
      vip_map (kmaps s') = (vip_map (kmaps s))(VipSpec_key f \<mapsto> \<lparr>vip_id = v_id v, vip_flags = v_flags v\<rparr>) \<Longrightarrow>
      rings (kmaps s') = rings (kmaps s) \<Longrightarrow> Q () s'"
    and err: "\<And>e s'. is_runtime_error e \<Longrightarrow> \<not> inserts_ok E \<Longrightarrow> safe c s' \<Longrightarrow> kmaps s' = kmaps s \<Longrightarrow> R e s'"
  shows "wp (write_vip_entry E f) Q R s"
proof -
  note C = coreD [OF core]
  have sp: "v_spec v = f" using vips_wfD(1) [OF C(3) v(1)] .
  let ?m = "(kmaps s)\<lparr>vip_map := (vip_map (kmaps s))(VipSpec_key f \<mapsto> \<lparr>vip_id = v_id v, vip_flags = v_flags v\<rparr>)\<rparr>"
  let ?s = "s\<lparr>kmaps := ?m, ktrace := ?m # ktrace s, ticks := ticks s + 1\<rparr>"
  have kw: "kernel_write s ?s" by (simp add: kernel_write_def settings_def same_table_def)
  have st: "same_table s ?s" using kw by (simp add: kernel_write_def)
  have ru: "ring_uses ?s A i = ring_uses s A i" for A i by (rule same_table_ring_uses [OF st]) simp
  have use: "ring_uses s UNIV (v_id v)"
    using C(7) v ring_uses_mono [OF _ subset_UNIV] unfolding rings_ok_def by blast
  have "entries_ok (U - {f}) ?s"
    unfolding entries_ok_def
  proof (intro conjI allI impI)
    show "finite (dom (vip_map (kmaps ?s)))" using C(6) by (simp add: entries_ok_def)
    show "vip_map (kmaps ?s) (VipSpec_key sp) = Some \<lparr>vip_id = v_id w, vip_flags = v_flags w\<rparr>"
      if "smap_find (vips ?s) sp = Some w \<and> sp \<notin> U - {f}" for sp w
      using that C(6) v(1) unfolding entries_ok_def by auto
    fix k val
    assume A: "vip_map (kmaps ?s) k = Some val"
    show "\<exists>sp. k = VipSpec_key sp \<and> owner ?s sp (vip_id val)"
      using A C(6) owner_vip [OF v(1)] unfolding entries_ok_def by (auto split: if_splits)
    show "ring_uses ?s UNIV (vip_id val)"
      unfolding ru using A live_UNIV [OF core, of k val] use by (auto split: if_splits)
  qed
  then have "core c t pend f D (U - {f}) W S ?s"
    by (rule core_kernel_write [OF core kw]) auto
  then have "Q () ?s" using kw by (intro ok) simp_all
  moreover have "R e (s\<lparr>ticks := n\<rparr>)" if "is_runtime_error e" "\<not> inserts_ok E" for e n
    using that C(2) by (intro err) (simp_all add: safe_def)
  moreover have "\<not> inserts_ok E" if "sys E SysVipUpdate n \<noteq> 0" for n
    using that unfolding inserts_ok_def by blast
  ultimately show ?thesis
    using v(1) sp by (auto simp: write_vip_entry_def wp_simps)
qed

lemma core_ticks [simp]: "core c t pend f D U W S (s\<lparr>ticks := n\<rparr>) = core c t pend f D U W S s"
proof -
  let ?s = "s\<lparr>ticks := n\<rparr>"
  have st: "same_table s ?s" by (simp add: same_table_def)
  have ru: "ring_uses ?s = ring_uses s" using same_table_ring_uses [OF st] by (simp add: fun_eq_iff)
  have fr: "fresh_vip ?s = fresh_vip s" using same_table_fresh [OF st] by (simp add: fun_eq_iff)
  show ?thesis
    by (simp add: core_def rt_inv_def mirrors_def safe_def vips_wf_def owner_def refs_ok_def
      same_table_simps [OF st] holders_def entries_ok_def rings_ok_def fresh_ok_def pins_ok_def ru fr)
qed

lemma wp_vip_map_delete:
  assumes E: "env_ok E" and core: "core c t pend f D U W S s" and pin: "\<And>a i. (sp, a, i) \<notin> g_pins c"
    and ok: "\<And>s'. core c t pend f D (insert sp U) W S s' \<Longrightarrow> vips s' = vips s \<Longrightarrow> settings s s' \<Longrightarrow> same_table s s' \<Longrightarrow>
      vip_map (kmaps s') = (vip_map (kmaps s))(VipSpec_key sp := None) \<Longrightarrow> rings (kmaps s') = rings (kmaps s) \<Longrightarrow> Q () s'"
  shows "wp (vip_map_delete E sp) Q R s"
proof (cases "vip_map (kmaps s) (VipSpec_key sp)")
  case None
  have "core c t pend f D (insert sp U) W S (s\<lparr>ticks := n\<rparr>)" for n
    using core_weaken [OF core subset_insertI [of U sp] order.refl order.refl] by simp
  then have "Q () (s\<lparr>ticks := ticks s + 1\<rparr>)"
    using None by (intro ok) (simp_all add: settings_def same_table_def fun_upd_idem)
  then show ?thesis using None by (simp add: vip_map_delete_def wp_simps)
next
  case (Some val)
  note C = coreD [OF core]
  let ?m = "(kmaps s)\<lparr>vip_map := (vip_map (kmaps s))(VipSpec_key sp := None)\<rparr>"
  let ?s = "s\<lparr>kmaps := ?m, ktrace := ?m # ktrace s, ticks := ticks s + 1\<rparr>"
  have kw: "kernel_write s ?s" by (simp add: kernel_write_def settings_def same_table_def)
  have st: "same_table s ?s" using kw by (simp add: kernel_write_def)
  have ru: "ring_uses ?s A i = ring_uses s A i" for A i by (rule same_table_ring_uses [OF st]) simp
  have "entries_ok (insert sp U) ?s"
    using C(6) unfolding entries_ok_def ru by (auto split: if_splits)
  then have "core c t pend f D (insert sp U) W S ?s"
    by (rule core_kernel_write [OF core kw]) (use pin in auto)
  then have "Q () ?s" using kw by (intro ok) (simp_all add: kernel_write_def)
  moreover have "sys E SysVipDelete n = 0" for n using E by (simp add: env_ok_def deletes_ok_def)
  ultimately show ?thesis using Some by (simp add: vip_map_delete_def wp_simps)
qed

lemma wp_remove_ring:
  assumes E: "env_ok E" and core: "core c t pend f D U W S s"
    and dead: "\<And>k val. vip_map (kmaps s) k = Some val \<Longrightarrow> vip_id val \<noteq> i"
    and WS: "\<And>sp v. smap_find (vips s) sp = Some v \<Longrightarrow> v_id v = i \<Longrightarrow> sp \<in> W \<and> sp \<in> S"
    and ok: "\<And>s'. core c t pend f D U W S s' \<Longrightarrow> vips s' = vips s \<Longrightarrow> settings s s' \<Longrightarrow> same_table s s' \<Longrightarrow>
      vip_map (kmaps s') = vip_map (kmaps s) \<Longrightarrow> rings (kmaps s') = (rings (kmaps s))(i := None) \<Longrightarrow> Q () s'"
  shows "wp (remove_ring E i) Q R s"
proof (cases "rings (kmaps s) i")
  case None
  then have "Q () (s\<lparr>ticks := ticks s + 1\<rparr>)"
    using core by (intro ok) (simp_all add: settings_def same_table_def fun_upd_idem)
  then show ?thesis using None by (simp add: remove_ring_def wp_simps)
next
  case (Some ring)
  note C = coreD [OF core]
  let ?m = "(kmaps s)\<lparr>rings := (rings (kmaps s))(i := None)\<rparr>"
  let ?s = "s\<lparr>kmaps := ?m, ktrace := ?m # ktrace s, ticks := ticks s + 1\<rparr>"
  have kw: "kernel_write s ?s" by (simp add: kernel_write_def settings_def same_table_def)
  have st: "same_table s ?s" using kw by (simp add: kernel_write_def)
  have ru: "ring_uses ?s A j = ring_uses s A j" if "j \<noteq> i" for A j
    by (rule same_table_ring_uses [OF st]) (use that in simp)
  have "entries_ok U ?s"
    unfolding entries_ok_def
  proof (intro conjI allI impI)
    show "ring_uses ?s UNIV (vip_id val)" if "vip_map (kmaps ?s) k = Some val" for k val
      using that live_UNIV [OF core, of k val] dead [of k val] ru by simp
  qed (use C(6) in \<open>auto simp: entries_ok_def\<close>)
  then have "core c t pend f D U W S ?s"
    by (rule core_kernel_write [OF core kw]) (use WS in auto)
  then have "Q () ?s" using kw by (intro ok) (simp_all add: kernel_write_def)
  moreover have "sys E SysRingDelete n = 0" for n using E by (simp add: env_ok_def deletes_ok_def)
  ultimately show ?thesis using Some by (simp add: remove_ring_def wp_simps)
qed

section \<open>VIPs created and forgotten\<close>

lemma core_new_vip:
  assumes core: "core c t pend f {} U W S s"
    and v: "v_spec v = sp" "v_id v = i" "member_addrs v = {}" "smap_find (vips s) sp = None" "i < PB_MAX_VIPS"
    and s': "smap_find (vips s') = (smap_find (vips s))(sp \<mapsto> v)" "smap_find (adopted_vip_ids s') = (smap_find (adopted_vip_ids s))(sp := None)"
      "same_table s s'" "kmaps s' = kmaps s" "ktrace s' = ktrace s" "lb_hash s' = lb_hash s"
    and free: "smap_find (adopted_vip_ids s) sp = Some i \<or>
      smap_find (adopted_vip_ids s) sp = None \<and> (\<forall>sp'. \<not> owner s sp' i)"
  shows "core c t pend sp {} (insert sp U) (insert sp W) (insert sp S) s'"
proof -
  note C = coreD [OF core] and T = same_table_simps [OF s'(3)]
  have ow: "owner s' sp' j \<longleftrightarrow> owner s sp' j \<or> (sp' = sp \<and> j = i)" for sp' j
    using free v(2,4) by (auto simp: owner_def s'(1,2))
  have own: "owner s sp' i \<Longrightarrow> sp' = sp" for sp'
    using free vips_wfD(3) [OF C(3), of sp' i sp] by (auto simp: owner_def)
  have sole: "owner s sp j \<Longrightarrow> j = i" for j
    using free v(4) by (auto simp: owner_def)
  have "vips_wf s'"
    unfolding vips_wf_def
  proof (intro conjI allI impI)
    show "v_spec w = sp'" if "smap_find (vips s') sp' = Some w" for sp' w
      using that v(1) vips_wfD(1) [OF C(3)] by (auto simp: s'(1) split: if_splits)
    show "j < PB_MAX_VIPS" if "owner s' sp' j" for sp' j
      using that vips_wfD(2) [OF C(3)] v(5) by (auto simp: ow)
    show "a = b" if "owner s' a j \<and> owner s' b j" for a b j
      using that vips_wfD(3) [OF C(3)] own sole unfolding ow by metis
    show "smap_find (vips s') sp' = None" if "smap_find (adopted_vip_ids s') sp' = Some j" for sp' j
      using that vips_wfD(4) [OF C(3)] by (auto simp: s'(1,2) split: if_splits)
  qed
  moreover have ru: "ring_uses s' = ring_uses s" using same_table_ring_uses [OF s'(3)] s'(4) by (simp add: fun_eq_iff)
  have fr: "fresh_vip s' = fresh_vip s" using same_table_fresh [OF s'(3)] s'(4,6) by (simp add: fun_eq_iff)
  have "entries_ok (insert sp U) s'"
    unfolding entries_ok_def ru s'(1,4)
  proof (intro conjI allI impI)
    show "\<exists>sp'. k = VipSpec_key sp' \<and> owner s' sp' (vip_id val)" if "vip_map (kmaps s) k = Some val" for k val
      using that C(6) unfolding entries_ok_def ow by blast
  qed (use C(6) in \<open>auto simp: entries_ok_def\<close>)
  moreover have "rings_ok (insert sp W) sp {} s'"
    using C(7) by (auto simp: rings_ok_def ru s'(1))
  moreover have "fresh_ok (insert sp S) s'"
    using C(8) by (auto simp: fresh_ok_def fr s'(1))
  moreover have "holders s' a = holders s a" for a
    using v(3,4) by (auto simp: holders_def s'(1))
  then have "refs_ok pend {} s'" using C(4) by (simp add: refs_ok_def T)
  moreover have "rt_inv s'" using C(1) same_table_rt_inv [OF s'(3)] s'(4) by simp
  moreover have "safe c s'" using C(2) by (simp add: safe_def s'(4,5))
  moreover have "pins_ok c t s'" using C(9) v(4) unfolding pins_ok_def T s'(1) by fastforce
  ultimately show ?thesis using T(7) C(5) by (simp add: core_def)
qed

lemma count_smap_keys: "count_list (smap_keys ms) a = (if a \<in> dom (smap_find ms) then 1 else 0)"
  using count_list_distinct [OF distinct_smap_keys, of ms a] by simp

lemma core_forget:
  assumes core: "core c t pend f {} U W S s" and v: "smap_find (vips s) sp = Some v"
    and dead: "vip_map (kmaps s) (VipSpec_key sp) = None" and ad: "smap_find (adopted_vip_ids s) sp = None"
  shows "core c t (smap_keys (v_members v) @ pend) f {} U W S (s\<lparr>vips := smap_erase sp (vips s)\<rparr>)"
proof -
  note C = coreD [OF core]
  let ?s = "s\<lparr>vips := smap_erase sp (vips s)\<rparr>"
  have ow: "owner ?s sp' j \<longleftrightarrow> owner s sp' j \<and> sp' \<noteq> sp" for sp' j using ad by (auto simp: owner_def)
  have "card (holders s a) = card (holders ?s a) + (if a \<in> member_addrs v then 1 else 0)" for a
  proof -
    have "holders ?s a = holders s a - {sp}" by (auto simp: holders_def)
    moreover have "sp \<in> holders s a \<longleftrightarrow> a \<in> member_addrs v" using v by (simp add: holders_def)
    ultimately show ?thesis
      using card_Suc_Diff1 [OF finite_holders, of sp s a] by (cases "a \<in> member_addrs v") simp_all
  qed
  then have "refs_ok (smap_keys (v_members v) @ pend) {} ?s"
    using C(4) by (simp add: refs_ok_def count_smap_keys member_addrs_def)
  moreover have "vips_wf ?s"
    unfolding vips_wf_def ow
    using vips_wfD(1,2,4) [OF C(3)] vips_wfD(3) [OF C(3)] by (auto split: if_splits)
  moreover have "entries_ok U ?s"
    unfolding entries_ok_def
  proof (intro conjI allI impI)
    show "\<exists>sp. k = VipSpec_key sp \<and> owner ?s sp (vip_id val)" if "vip_map (kmaps ?s) k = Some val" for k val
    proof -
      have k: "vip_map (kmaps s) k = Some val" using that by simp
      then obtain sp' where "k = VipSpec_key sp'" "owner s sp' (vip_id val)"
        using C(6) unfolding entries_ok_def by blast
      then show ?thesis using dead k by (auto simp: ow)
    qed
  qed (use C(6) in \<open>auto simp: entries_ok_def split: if_splits\<close>)
  moreover have "rings_ok W f {} ?s" using C(7) by (auto simp: rings_ok_def)
  moreover have "fresh_ok S ?s" using C(8) by (auto simp: fresh_ok_def)
  moreover have "(sp, a, i) \<notin> g_pins c" for a i
    using safeD(2) [OF C(2)] dead unfolding kept_def by blast
  then have "pins_ok c t ?s" using C(9) unfolding pins_ok_def by fastforce
  ultimately show ?thesis using C by (simp add: core_def)
qed

end
