(* ===== verification/Lb_Ops.thy ===== *)
theory Lb_Ops
  imports Lb_Steps
begin

text \<open>
  The methods of \<^verbatim>\<open>LbState\<close> over the invariant: \<open>lb_inv\<close> is the invariant between two calls.  Every
  API and health operation keeps it, throws only what the header promises, never goes wrong, and
  leaves the maps safe after each of its writes even if it fails half way.
\<close>

definition lb_inv :: "ghost \<Rightarrow> lb \<Rightarrow> bool" where
  "lb_inv c s \<longleftrightarrow> core c True [] (VipSpec 0 0 0) {} {} {} {} s \<and> adopted_vip_ids s = smap_empty \<and> lb_initialized s"

lemma lb_inv_core: "lb_inv c s \<Longrightarrow> core c True [] f {} {} {} {} s"
  using core_focus [of c True "[]" f] unfolding lb_inv_def by blast

lemma lb_invI:
  "core c True [] f {} {} {} {} s \<Longrightarrow> adopted_vip_ids s = smap_empty \<Longrightarrow> lb_initialized s \<Longrightarrow> lb_inv c s"
  using core_focus [of c True "[]" f] unfolding lb_inv_def by blast

lemma lb_inv_settings: "lb_inv c s \<Longrightarrow> settings s s' \<Longrightarrow> core c True [] f {} {} {} {} s' \<Longrightarrow> lb_inv c s'"
  by (rule lb_invI) (simp_all add: lb_inv_def settings_def)

lemma lb_inv_safe: "lb_inv c s \<Longrightarrow> safe c s"
  using lb_inv_core coreD(2) by blast

section \<open>Loops of releases and of new members\<close>

lemma wp_release_all:
  assumes E: "env_ok E" and "core c True (as @ pend) f D U W S (s\<lparr>vips := V\<rparr>)" "owned W (s\<lparr>vips := V\<rparr>)"
    and "\<And>s'. core c True pend f D U W S (s'\<lparr>vips := V\<rparr>) \<Longrightarrow> owned W (s'\<lparr>vips := V\<rparr>) \<Longrightarrow> rest s s' \<Longrightarrow>
      vip_map (kmaps s') = vip_map (kmaps s) \<Longrightarrow> rings (kmaps s') = rings (kmaps s) \<Longrightarrow> Q () s'"
  shows "wp (forM as (release E)) Q R s"
  using assms(2-4)
proof (induction as arbitrary: s)
  case Nil
  then show ?case by (simp add: wp_simps)
next
  case (Cons a as)
  have "wp (release E a) (\<lambda>_. wp (forM as (release E)) Q R) R s"
  proof (rule wp_release_core [OF E])
    show "core c True (a # (as @ pend)) f D U W S (s\<lparr>vips := V\<rparr>)" "owned W (s\<lparr>vips := V\<rparr>)" using Cons.prems by simp_all
    fix s'
    assume A: "core c True (as @ pend) f D U W S (s'\<lparr>vips := V\<rparr>)" "owned W (s'\<lparr>vips := V\<rparr>)" "rest s s'"
      "vip_map (kmaps s') = vip_map (kmaps s)" "rings (kmaps s') = rings (kmaps s)"
    show "wp (forM as (release E)) Q R s'"
      by (rule Cons.IH [OF A(1,2)], rule Cons.prems(3)) (use rest_trans [OF A(3)] A(4,5) in simp_all)
  qed
  then show ?case by (simp add: wp_simps)
qed

lemma owned_core:
  assumes "core c t pend f D U W S s" "adopted_vip_ids s = smap_empty"
    "\<And>sp. sp \<in> W \<Longrightarrow> vip_map (kmaps s) (VipSpec_key sp) = None"
  shows "owned W s"
  unfolding owned_def
proof (intro allI impI)
  fix k val
  assume A: "vip_map (kmaps s) k = Some val"
  then obtain sp where sp: "k = VipSpec_key sp" "owner s sp (vip_id val)"
    using coreD(6) [OF assms(1)] unfolding entries_ok_def by blast
  then obtain v where "smap_find (vips s) sp = Some v" "v_id v = vip_id val"
    using assms(2) by (auto simp: owner_def)
  moreover have "sp \<notin> W" using assms(3) A sp(1) by auto
  ultimately show "\<exists>sp v. smap_find (vips s) sp = Some v \<and> sp \<notin> W \<and> v_id v = vip_id val" by blast
qed

text \<open>
  Allocation fails only when all ids are taken: \<open>no_room A s\<close> bounds the addresses in use by \<open>A\<close>,
  which has one more.
\<close>

definition used_addrs :: "lb \<Rightarrow> u32 set" where
  "used_addrs s = {a. 0 < refs s a}"

definition no_room :: "u32 set \<Rightarrow> lb \<Rightarrow> bool" where
  "no_room A s \<longleftrightarrow> table_full s \<and> used_addrs s \<subseteq> A \<and> (\<exists>a \<in> A. id_of s a = None)"

lemma card_valid_ids: "card {i. valid_id i} = 511"
proof -
  have "{i. valid_id i} = of_nat ` {1..511}"
  proof (rule set_eqI)
    fix i :: u32
    have "valid_id i \<longleftrightarrow> unat i \<in> {1..511}"
      by (auto simp: valid_id_def word_less_nat_alt unat_gt_0 Suc_le_eq)
    moreover have "unat i \<in> {1..511} \<longleftrightarrow> i \<in> of_nat ` {1..511}"
      by (auto simp: unat_of_nat intro!: image_eqI [of _ _ "unat i"])
    ultimately show "i \<in> {i. valid_id i} \<longleftrightarrow> i \<in> of_nat ` {1..511}" by simp
  qed
  moreover have "inj_on (of_nat :: nat \<Rightarrow> u32) {1..511}"
  proof (rule inj_onI)
    fix m n :: nat
    assume A: "m \<in> {1..511}" "n \<in> {1..511}" "(of_nat m :: u32) = of_nat n"
    then have "unat (of_nat m :: u32) = unat (of_nat n :: u32)" by simp
    then show "m = n" using A(1,2) by (simp add: unat_of_nat)
  qed
  ultimately show ?thesis by (simp add: card_image)
qed

lemma no_room_card:
  assumes core: "core c True pend f D U W S s" and "no_room A s" "finite A"
  shows "511 < card A"
proof -
  note C = coreD [OF core]
  obtain a where a: "a \<in> A" "id_of s a = None" using assms(2) by (auto simp: no_room_def)
  let ?g = "\<lambda>i. s_addr (slots s i)"
  have g: "smap_find (by_addr s) (?g i) = Some i" if "valid_id i" for i
    using that assms(2) C(1) by (simp add: no_room_def table_full_def rt_inv_def)
  have "?g i \<in> used_addrs s" if "valid_id i" for i
    using g [OF that] C(5) by (auto simp: used_addrs_def refs_def id_of_def tight_def unat_gt_0)
  then have "?g ` {i. valid_id i} \<subseteq> A - {a}"
    using assms(2) a(2) g by (auto simp: no_room_def id_of_def)
  moreover have "inj_on ?g {i. valid_id i}" using g by (metis (mono_tags) inj_onI mem_Collect_eq option.inject)
  ultimately have "511 \<le> card (A - {a})"
    using card_mono [of "A - {a}" "?g ` {i. valid_id i}"] assms(3) card_image card_valid_ids by fastforce
  then show ?thesis using a(1) assms(3) by (simp add: card_Diff_singleton)
qed

lemma used_addrs_upd:
  assumes "refs_ok pend D s" "refs_ok pend D s'" "smap_find (vips s) f = Some v"
    "smap_find (vips s') = (smap_find (vips s))(f \<mapsto> v')" "member_addrs v' \<subseteq> member_addrs v \<union> B"
  shows "used_addrs s' \<subseteq> used_addrs s \<union> B"
proof
  fix a
  assume A: "a \<in> used_addrs s'"
  show "a \<in> used_addrs s \<union> B"
  proof (cases "a \<in> B")
    case False
    then have "holders s' a \<subseteq> holders s a"
      using assms(3-5) by (auto simp: holders_def split: if_splits)
    then have "card (holders s' a) \<le> card (holders s a)" by (rule card_mono [OF finite_holders])
    then have "refs s' a \<le> refs s a" using assms(1,2) by (simp add: refs_ok_def)
    then show ?thesis using A by (simp add: used_addrs_def)
  qed simp
qed

lemma wp_add_members:
  assumes E: "env_ok E" and "core c t pend f D U W S s" "smap_find (vips s) f = Some v" "distinct (map fst xs)"
    and "\<And>a w. (a, w) \<in> set xs \<Longrightarrow> a \<noteq> 0 \<and> a \<notin> set pend \<and> a \<notin> member_addrs v \<and> a \<notin> D"
    and "\<And>s' v'. core c t pend f D U W (insert f S) s' \<Longrightarrow> settings s s' \<Longrightarrow>
      smap_find (vips s') = (smap_find (vips s))(f \<mapsto> v') \<Longrightarrow>
      v_id v' = v_id v \<Longrightarrow> v_flags v' = v_flags v \<Longrightarrow> member_addrs v' = member_addrs v \<union> fst ` set xs \<Longrightarrow>
      (\<And>a. a \<notin> fst ` set xs \<Longrightarrow> smap_find (v_members v') a = smap_find (v_members v) a) \<Longrightarrow>
      (\<And>a w. (a, w) \<in> set xs \<Longrightarrow> \<exists>m. smap_find (v_members v') a = Some m \<and> new_member w m) \<Longrightarrow>
      vip_map (kmaps s') = vip_map (kmaps s) \<Longrightarrow> Q () s'"
    and "\<And>e s'. safe c s' \<Longrightarrow> is_runtime_error e \<Longrightarrow> no_room (used_addrs s \<union> fst ` set xs) s' \<Longrightarrow>
      core c t pend f D U W (insert f S) s' \<Longrightarrow> xs \<noteq> [] \<Longrightarrow> R e s'"
  shows "wp (forM xs (\<lambda>(addr, weight). add_member_locked E f addr weight)) Q R s"
  using assms(2-)
proof (induction xs arbitrary: s v S)
  case Nil
  have "core c t pend f D U W (insert f S) s" using Nil.prems(1) by (rule core_mono) auto
  then have "Q () s" using Nil.prems(2) by (intro Nil.prems(5) [of s v]) (auto simp: fun_upd_idem)
  then show ?case by (simp add: wp_simps)
next
  case (Cons x xs)
  obtain a w where x: "x = (a, w)" by (cases x)
  have nd: "a \<notin> fst ` set xs" "distinct (map fst xs)" using Cons.prems(3) by (auto simp: x)
  have ca: "a \<noteq> 0" "a \<notin> set pend" "a \<notin> member_addrs v" "a \<notin> D" using Cons.prems(4) [of a w] by (auto simp: x)
  have "wp (add_member_locked E f a w) (\<lambda>_. wp (forM xs (\<lambda>(addr, weight). add_member_locked E f addr weight)) Q R) R s"
  proof (rule wp_add_member [OF E Cons.prems(1,2) ca])
    fix m s1
    assume c1: "core c t pend f D U W (insert f S) s1" and st1: "settings s s1" and m: "new_member w m"
      and v1: "smap_find (vips s1) = (smap_find (vips s))(f \<mapsto> v\<lparr>v_members := smap_insert a m (v_members v)\<rparr>)"
      and k1: "vip_map (kmaps s1) = vip_map (kmaps s)"
    let ?v1 = "v\<lparr>v_members := smap_insert a m (v_members v)\<rparr>"
    have used: "used_addrs s1 \<subseteq> used_addrs s \<union> {a}"
      by (rule used_addrs_upd [OF coreD(4) [OF Cons.prems(1)] coreD(4) [OF c1] Cons.prems(2) v1]) auto
    show "wp (forM xs (\<lambda>(addr, weight). add_member_locked E f addr weight)) Q R s1"
    proof (rule Cons.IH [OF c1, of ?v1])
      show "R e s'" if "safe c s'" "is_runtime_error e" "no_room (used_addrs s1 \<union> fst ` set xs) s'"
        "core c t pend f D U W (insert f (insert f S)) s'" for e s'
        by (rule Cons.prems(6)) (use that used in \<open>auto simp: no_room_def x\<close>)
      show "b \<noteq> 0 \<and> b \<notin> set pend \<and> b \<notin> member_addrs ?v1 \<and> b \<notin> D" if "(b, u) \<in> set xs" for b u
        using that Cons.prems(4) [of b u] nd(1) by (force simp: x)
      fix s' v'
      assume c': "core c t pend f D U W (insert f (insert f S)) s'" and st': "settings s1 s'"
        and v': "smap_find (vips s') = (smap_find (vips s1))(f \<mapsto> v')" "v_id v' = v_id ?v1" "v_flags v' = v_flags ?v1"
          "member_addrs v' = member_addrs ?v1 \<union> fst ` set xs"
        and keep: "\<And>b. b \<notin> fst ` set xs \<Longrightarrow> smap_find (v_members v') b = smap_find (v_members ?v1) b"
        and new: "\<And>b u. (b, u) \<in> set xs \<Longrightarrow> \<exists>m. smap_find (v_members v') b = Some m \<and> new_member u m"
        and k': "vip_map (kmaps s') = vip_map (kmaps s1)"
      have am: "smap_find (v_members v') a = Some m"
        using keep [OF nd(1)] by simp
      show "Q () s'"
      proof (rule Cons.prems(5) [of s' v'])
        show "core c t pend f D U W (insert f S) s'" using c' by simp
        show "settings s s'" using settings_trans [OF st1 st'] .
        show "smap_find (vips s') = (smap_find (vips s))(f \<mapsto> v')" using v'(1) v1 by simp
        show "member_addrs v' = member_addrs v \<union> fst ` set (x # xs)" using v'(4) by (auto simp: x)
        show "smap_find (v_members v') b = smap_find (v_members v) b" if "b \<notin> fst ` set (x # xs)" for b
          using keep [of b] that by (simp add: x)
        show "\<exists>m. smap_find (v_members v') b = Some m \<and> new_member u m" if "(b, u) \<in> set (x # xs)" for b u
          using that new am m by (auto simp: x)
      qed (use v' k' k1 in simp_all)
    qed (use v1 nd in auto)
  next
    fix e
    assume A: "is_runtime_error e" "id_of s a = None" "table_full s"
    have "core c t pend f D U W (insert f S) s" using Cons.prems(1) by (rule core_mono) auto
    then show "R e s" using A coreD(2) [OF Cons.prems(1)] by (intro Cons.prems(6)) (auto simp: no_room_def x)
  qed
  then show ?case by (simp add: wp_simps x)
qed

section \<open>Deleting a VIP\<close>

lemma core_drop:
  assumes "core c t pend f {} (insert sp U) (insert sp W) (insert sp S) s" "smap_find (vips s) sp = None"
  shows "core c t pend f {} U W S s"
  using assms unfolding core_def entries_ok_def rings_ok_def fresh_ok_def by (metis insert_iff option.distinct(1))

lemma settings_vips [simp]: "settings s (s'\<lparr>vips := V\<rparr>) = settings s s'"
  by (simp add: settings_def)

lemma wp_delete_vip:
  assumes E: "env_ok E" and core: "core c True [] f {} {} {} S s" and ad: "adopted_vip_ids s = smap_empty"
    and v: "smap_find (vips s) sp = Some v" and pin: "\<And>a i. (sp, a, i) \<notin> g_pins c"
    and ok: "\<And>s'. core c True [] f {} {} {} S s' \<Longrightarrow> settings s s' \<Longrightarrow>
      smap_find (vips s') = (smap_find (vips s))(sp := None) \<Longrightarrow>
      vip_map (kmaps s') = (vip_map (kmaps s))(VipSpec_key sp := None) \<Longrightarrow>
      rings (kmaps s') = (rings (kmaps s))(v_id v := None) \<Longrightarrow> Q () s'"
  shows "wp (delete_vip_locked E sp) Q R s"
proof -
  let ?fin = "seqM (forM (smap_keys (v_members v)) (release E)) (modify (\<lambda>s. s\<lparr>vips := smap_erase sp (vips s)\<rparr>)) :: unit lb_act"
  have "wp (vip_map_delete E sp) (\<lambda>_. wp (seqM (remove_ring E (v_id v)) ?fin) Q R) R s"
  proof (rule wp_vip_map_delete [OF E core pin])
    fix s1
    assume c1: "core c True [] f {} {sp} {} S s1" and v1: "vips s1 = vips s" and st1: "settings s s1"
      and k1: "vip_map (kmaps s1) = (vip_map (kmaps s))(VipSpec_key sp := None)" "rings (kmaps s1) = rings (kmaps s)"
    have c1': "core c True [] f {} {sp} {sp} (insert sp S) s1"
      by (rule core_weaken [OF c1]) auto
    note C1 = coreD [OF c1]
    have fv: "smap_find (vips s1) sp = Some v" using v v1 by simp
    have "wp (remove_ring E (v_id v)) (\<lambda>_. wp ?fin Q R) R s1"
    proof (rule wp_remove_ring [OF E c1'])
      show "vip_id val \<noteq> v_id v" if A: "vip_map (kmaps s1) k = Some val" for k val
      proof
        assume "vip_id val = v_id v"
        moreover obtain sp' where "k = VipSpec_key sp'" "owner s1 sp' (vip_id val)"
          using C1(6) A unfolding entries_ok_def by blast
        ultimately have "k = VipSpec_key sp" using vips_wfD(3) [OF C1(3) _ owner_vip [OF fv]] by simp
        then show False using A k1 by simp
      qed
      show "sp' \<in> {sp} \<and> sp' \<in> insert sp S" if "smap_find (vips s1) sp' = Some w" "v_id w = v_id v" for sp' w
        using vips_wfD(3) [OF C1(3) owner_vip [OF that(1)]] owner_vip [OF fv] that(2) by auto
    next
      fix s2
      assume c2: "core c True [] f {} {sp} {sp} (insert sp S) s2" and v2: "vips s2 = vips s1" and st2: "settings s1 s2"
        and k2: "vip_map (kmaps s2) = vip_map (kmaps s1)" "rings (kmaps s2) = (rings (kmaps s1))(v_id v := None)"
      let ?V = "smap_erase sp (vips s2)"
      have fv2: "smap_find (vips s2) sp = Some v" using fv v2 by simp
      have ad2: "adopted_vip_ids s2 = smap_empty" using ad st1 st2 by (simp add: settings_def)
      have dead: "vip_map (kmaps s2) (VipSpec_key sp) = None" using k1 k2 by simp
      have c3: "core c True (smap_keys (v_members v) @ []) f {} {sp} {sp} (insert sp S) (s2\<lparr>vips := ?V\<rparr>)"
        by (rule core_forget [OF c2 fv2 dead]) (simp add: ad2)
      have ow: "owned {sp} (s2\<lparr>vips := ?V\<rparr>)"
        by (rule owned_core [OF c3]) (use ad2 dead in auto)
      have "wp (forM (smap_keys (v_members v)) (release E)) (\<lambda>_. wp (modify (\<lambda>s. s\<lparr>vips := smap_erase sp (vips s)\<rparr>)) Q R) R s2"
      proof (rule wp_release_all [OF E c3 ow])
        fix s3
        assume A: "core c True [] f {} {sp} {sp} (insert sp S) (s3\<lparr>vips := ?V\<rparr>)" and r3: "rest s2 s3"
          and k3: "vip_map (kmaps s3) = vip_map (kmaps s2)" "rings (kmaps s3) = rings (kmaps s2)"
        have v3: "vips s3 = vips s2" using rest_lb(1) [OF r3] .
        show "wp (modify (\<lambda>s. s\<lparr>vips := smap_erase sp (vips s)\<rparr>)) Q R s3"
          unfolding wp_basic v3
        proof (rule ok)
          show "core c True [] f {} {} {} S (s3\<lparr>vips := ?V\<rparr>)" by (rule core_drop [OF A]) simp
          show "settings s (s3\<lparr>vips := ?V\<rparr>)"
            using settings_trans [OF settings_trans [OF st1 st2] settings_rest [OF r3]] by simp
        qed (use v1 v2 k1 k2 k3 in simp_all)
      qed
      then show "wp ?fin Q R s2" by (simp add: wp_simps)
    qed
    then show "wp (seqM (remove_ring E (v_id v)) ?fin) Q R s1" by (simp add: wp_simps)
  qed
  then show ?thesis using v by (simp add: delete_vip_locked_def wp_simps)
qed

section \<open>Creating a VIP\<close>

lemma entries_ok_same:
  assumes "same_table s s'" "vips s' = vips s" "adopted_vip_ids s' = adopted_vip_ids s"
    "vip_map (kmaps s') = vip_map (kmaps s)" "rings (kmaps s') = rings (kmaps s)"
  shows "entries_ok U s' = entries_ok U s"
proof -
  have "ring_uses s' = ring_uses s" using same_table_ring_uses [OF assms(1)] assms(5) by (simp add: fun_eq_iff)
  moreover have "owner s' = owner s" using assms(2,3) by (simp add: owner_def fun_eq_iff)
  ultimately show ?thesis using assms(2,4) by (simp add: entries_ok_def)
qed

lemma wp_reset_counters_core:
  assumes core: "core c t pend f D U W S s"
    and ok: "\<And>s'. core c t pend f D U W S s' \<Longrightarrow> vips s' = vips s \<Longrightarrow> settings s s' \<Longrightarrow>
      vip_map (kmaps s') = vip_map (kmaps s) \<Longrightarrow> Q () s'"
  shows "wp (reset_counters E i) Q R s"
proof -
  let ?m = "(kmaps s)\<lparr>stats := (\<lambda>cpu. (stats (kmaps s) cpu)(i := (\<lambda>_. 0)))\<rparr>"
  let ?s = "s\<lparr>kmaps := ?m, ktrace := ?m # ktrace s, ticks := ticks s + 1\<rparr>"
  have kw: "kernel_write s ?s" by (simp add: kernel_write_def settings_def same_table_def)
  have "entries_ok U ?s"
    using entries_ok_same [of s ?s U] coreD(6) [OF core] by (simp add: same_table_def)
  then have "core c t pend f D U W S ?s" by (rule core_kernel_write [OF core kw]) auto
  then have "Q () ?s" by (rule ok) (simp_all add: settings_def)
  moreover have "Q () (s\<lparr>ticks := ticks s + 1\<rparr>)" using core by (intro ok) (simp_all add: settings_def)
  ultimately show ?thesis by (simp add: reset_counters_def wp_simps)
qed

lemma set_vip_ids: "set vip_ids = {i. i < PB_MAX_VIPS}"
proof -
  have "i \<in> of_nat ` {0..<64}" if "i < PB_MAX_VIPS" for i :: u32
    using that by (intro image_eqI [of _ _ "unat i"]) (auto simp: word_less_nat_alt)
  then show ?thesis by (auto simp: vip_ids_def word_less_nat_alt unat_of_nat)
qed

lemma used_ids:
  "i \<in> set (map (v_id \<circ> snd) (items (vips s)) @ map snd (items (adopted_vip_ids s))) \<longleftrightarrow> (\<exists>sp. owner s sp i)"
proof -
  have "i \<in> v_id ` snd ` set (items (vips s)) \<longleftrightarrow> (\<exists>sp v. smap_find (vips s) sp = Some v \<and> v_id v = i)"
    by (force simp: smap.in_entries [symmetric])
  moreover have "i \<in> snd ` set (items (adopted_vip_ids s)) \<longleftrightarrow> (\<exists>sp. smap_find (adopted_vip_ids s) sp = Some i)"
    by (force simp: smap.in_entries [symmetric])
  ultimately show ?thesis by (auto simp: owner_def image_comp)
qed

lemma allocate_vip_id_Inr:
  "allocate_vip_id s = Inr i \<Longrightarrow> i < PB_MAX_VIPS \<and> (\<forall>sp. \<not> owner s sp i)"
  using used_ids [of i s] set_vip_ids
  by (auto simp: allocate_vip_id_def Let_def find_Some_iff split: option.splits)

lemma allocate_vip_id_Inl:
  "allocate_vip_id s = Inl e \<Longrightarrow> (\<exists>w. e = ApiError w) \<and> (\<forall>i < PB_MAX_VIPS. \<exists>sp. owner s sp i)"
  using used_ids [of _ s] set_vip_ids
  by (auto simp: allocate_vip_id_def Let_def find_None_iff split: option.splits)

definition knobs :: "lb \<Rightarrow> lb \<Rightarrow> bool" where
  "knobs s s' \<longleftrightarrow> lb_hash s' = lb_hash s \<and> lb_next_hop s' = lb_next_hop s \<and> lb_interface s' = lb_interface s \<and>
     lb_initialized s' = lb_initialized s \<and> lb_health_enabled s' = lb_health_enabled s"

lemma settings_knobs: "settings s s' \<longleftrightarrow> knobs s s' \<and> adopted_vip_ids s' = adopted_vip_ids s"
  by (auto simp: settings_def knobs_def)

lemma knobs_trans: "knobs s s' \<Longrightarrow> knobs s' s'' \<Longrightarrow> knobs s s''"
  by (simp add: knobs_def)

lemma knobs_refl [simp]: "knobs s s"
  by (simp add: knobs_def)

lemma wp_choose_id:
  assumes core: "core c t [] f {} U W S s" and new: "smap_find (vips s) sp = None"
    and ok: "\<And>i s'. i < PB_MAX_VIPS \<Longrightarrow> smap_find (adopted_vip_ids s) sp \<in> {None, Some i} \<Longrightarrow> knobs s s' \<Longrightarrow>
      vips s' = vips s \<Longrightarrow> smap_find (adopted_vip_ids s') = (smap_find (adopted_vip_ids s))(sp := None) \<Longrightarrow>
      (\<And>v s''. v_spec v = sp \<Longrightarrow> v_id v = i \<Longrightarrow> member_addrs v = {} \<Longrightarrow> s'' = s'\<lparr>vips := smap_insert sp v (vips s')\<rparr> \<Longrightarrow>
        core c t [] sp {} (insert sp U) (insert sp W) (insert sp S) s'') \<Longrightarrow> Q i s'"
    and err: "\<And>w. \<forall>i < PB_MAX_VIPS. \<exists>sp. owner s sp i \<Longrightarrow> R (ApiError w) s"
  shows "wp (choose_id E sp (smap_find (adopted_vip_ids s) sp)) Q R s"
proof (cases "smap_find (adopted_vip_ids s) sp")
  case (Some i)
  let ?s = "s\<lparr>adopted_vip_ids := smap_erase sp (adopted_vip_ids s)\<rparr>"
  have i: "i < PB_MAX_VIPS" using vips_wfD(2) [OF coreD(3) [OF core], of sp i] Some by (simp add: owner_def)
  have "Q i ?s"
  proof (rule ok)
    fix v s''
    assume v: "v_spec v = sp" "v_id v = i" "member_addrs v = {}" and s'': "s'' = ?s\<lparr>vips := smap_insert sp v (vips ?s)\<rparr>"
    show "core c t [] sp {} (insert sp U) (insert sp W) (insert sp S) s''"
      by (rule core_new_vip [OF core v new i]) (use Some in \<open>simp_all add: s'' same_table_def\<close>)
  qed (use i Some in \<open>simp_all add: knobs_def\<close>)
  then show ?thesis using Some by (simp add: choose_id_def wp_simps)
next
  case None
  show ?thesis
  proof (cases "allocate_vip_id s")
    case (Inl e)
    then show ?thesis using None err allocate_vip_id_Inl [OF Inl] by (auto simp: choose_id_def wp_simps)
  next
    case (Inr i)
    note al = allocate_vip_id_Inr [OF Inr]
    have "wp (reset_counters E i) (\<lambda>_. Q i) R s"
    proof (rule wp_reset_counters_core [OF core])
      fix s'
      assume c': "core c t [] f {} U W S s'" and v': "vips s' = vips s" and st: "settings s s'"
      have ad: "adopted_vip_ids s' = adopted_vip_ids s" using st by (simp add: settings_def)
      have ow: "owner s' = owner s" using v' ad by (simp add: owner_def fun_eq_iff)
      show "Q i s'"
      proof (rule ok)
        fix v s''
        assume v: "v_spec v = sp" "v_id v = i" "member_addrs v = {}" and s'': "s'' = s'\<lparr>vips := smap_insert sp v (vips s')\<rparr>"
        show "core c t [] sp {} (insert sp U) (insert sp W) (insert sp S) s''"
          by (rule core_new_vip [OF c' v]) (use None al ow ad v' new in \<open>simp_all add: s'' same_table_def fun_upd_idem\<close>)
      qed (use al None st v' ad in \<open>simp_all add: settings_knobs fun_upd_idem\<close>)
    qed
    then show ?thesis using None Inr by (simp add: choose_id_def wp_simps)
  qed
qed

lemma member_addrs_mark [simp]:
  "member_addrs (v\<lparr>v_members := mark_members s (v_members w)\<rparr>) = member_addrs w"
  by (auto simp: member_addrs_def)

lemma wp_create_vip:
  assumes E: "env_ok E" and core: "core c t [] f {} U W S s" and new: "smap_find (vips s) sp = None"
    and want: "\<And>a. smap_find want a \<noteq> None \<Longrightarrow> a \<noteq> 0"
    and ok: "\<And>s' v'. core c t [] sp {} (U - {sp}) (W - {sp}) (S - {sp}) s' \<Longrightarrow> knobs s s' \<Longrightarrow>
      smap_find (adopted_vip_ids s') = (smap_find (adopted_vip_ids s))(sp := None) \<Longrightarrow>
      smap_find (vips s') = (smap_find (vips s))(sp \<mapsto> v') \<Longrightarrow> v_flags v' = flags \<Longrightarrow>
      smap_find (adopted_vip_ids s) sp \<in> {None, Some (v_id v')} \<Longrightarrow>
      member_addrs v' = dom (smap_find want) \<Longrightarrow>
      (\<And>a w. smap_find want a = Some w \<Longrightarrow> \<exists>m. smap_find (v_members v') a = Some m \<and> new_member w (m\<lparr>in_ring := False\<rparr>)) \<Longrightarrow>
      Q (v_id v') s'"
    and full: "\<And>w. \<forall>i < PB_MAX_VIPS. \<exists>sp. owner s sp i \<Longrightarrow> R (ApiError w) s"
    and err: "\<And>e s' S'. safe c s' \<Longrightarrow> is_runtime_error e \<Longrightarrow>
      \<not> inserts_ok E \<or> want \<noteq> smap_empty \<and> no_room (used_addrs s \<union> dom (smap_find want)) s' \<and>
        core c t [] sp {} (insert sp U) (insert sp W) S' s' \<Longrightarrow> R e s'"
  shows "wp (create_vip_locked E sp flags want) Q R s"
proof -
  let ?v = "\<lambda>i. \<lparr>v_spec = sp, v_id = i, v_flags = flags, v_generation = 0, v_members = smap_empty\<rparr>"
  let ?tail = "\<lambda>i. bindM (gets (\<lambda>s. smap_count (vips s) sp)) (\<lambda>there.
     seqM (whenM (\<not> there) (put_vip sp (?v i)))
    (seqM (forM (items want) (\<lambda>(addr, weight). add_member_locked E sp addr weight))
    (seqM (rebuild_locked E sp)
    (seqM (write_vip_entry E sp)
    (bindM (vip_ref sp) (\<lambda>v. ret (v_id v)))))))"
  have "wp (choose_id E sp (smap_find (adopted_vip_ids s) sp)) (\<lambda>i. wp (?tail i) Q R) R s"
  proof (rule wp_choose_id [OF core new])
    fix i s1
    assume i: "i < PB_MAX_VIPS" and ad: "smap_find (adopted_vip_ids s) sp \<in> {None, Some i}" and kn1: "knobs s s1"
      and v1: "vips s1 = vips s" and ad1: "smap_find (adopted_vip_ids s1) = (smap_find (adopted_vip_ids s))(sp := None)"
      and put: "\<And>v s''. v_spec v = sp \<Longrightarrow> v_id v = i \<Longrightarrow> member_addrs v = {} \<Longrightarrow>
        s'' = s1\<lparr>vips := smap_insert sp v (vips s1)\<rparr> \<Longrightarrow>
        core c t [] sp {} (insert sp U) (insert sp W) (insert sp S) s''"
    let ?s2 = "s1\<lparr>vips := smap_insert sp (?v i) (vips s1)\<rparr>"
    have mv: "member_addrs (?v i) = {}" by (simp add: member_addrs_def dom_def)
    have c2: "core c t [] sp {} (insert sp U) (insert sp W) (insert sp S) ?s2"
      by (rule put [of "?v i"]) (simp_all add: mv)
    have fail: "R e s'" if "safe c s'" "is_runtime_error e" "\<not> inserts_ok E" for e s'
      using err [OF that(1,2)] that(3) by blast
    have "refs ?s2 a = refs s a" for a
    proof -
      have "holders ?s2 a = holders s a" using new mv v1 by (auto simp: holders_def split: if_splits)
      then show ?thesis using coreD(4) [OF c2] coreD(4) [OF core] by (simp add: refs_ok_def)
    qed
    then have used: "used_addrs ?s2 = used_addrs s" by (simp add: used_addrs_def)
    have "wp (forM (items want) (\<lambda>(addr, weight). add_member_locked E sp addr weight))
      (\<lambda>_. wp (seqM (rebuild_locked E sp) (seqM (write_vip_entry E sp) (bindM (vip_ref sp) (\<lambda>v. ret (v_id v))))) Q R) R ?s2"
    proof (rule wp_add_members [OF E c2, of "?v i"])
      show "distinct (map fst (items want))" by (rule smap.distinct_entries)
      show "a \<noteq> 0 \<and> a \<notin> set [] \<and> a \<notin> member_addrs (?v i) \<and> a \<notin> {}" if "(a, w) \<in> set (items want)" for a w
        using that want [of a] by (simp add: smap.in_entries mv)
      show "R e s'" if "safe c s'" "is_runtime_error e" "no_room (used_addrs ?s2 \<union> fst ` set (items want)) s'"
        "core c t [] sp {} (insert sp U) (insert sp W) (insert sp (insert sp S)) s'" "items want \<noteq> []" for e s'
        using that unfolding used smap.set_keys by (intro err) auto
      fix s3 v3
      assume c3: "core c t [] sp {} (insert sp U) (insert sp W) (insert sp (insert sp S)) s3" and st3: "settings ?s2 s3"
        and f3: "smap_find (vips s3) = (smap_find (vips ?s2))(sp \<mapsto> v3)" and id3: "v_id v3 = v_id (?v i)" "v_flags v3 = v_flags (?v i)"
        and mem3: "member_addrs v3 = member_addrs (?v i) \<union> fst ` set (items want)"
        and new3: "\<And>a w. (a, w) \<in> set (items want) \<Longrightarrow> \<exists>m. smap_find (v_members v3) a = Some m \<and> new_member w m"
      have v3: "smap_find (vips s3) sp = Some v3" by (simp add: f3)
      have c3': "core c t [] sp (set []) (insert sp U) (insert sp W) (insert sp S) s3" using c3 by simp
      have "wp (rebuild_locked E sp)
        (\<lambda>_. wp (seqM (write_vip_entry E sp) (bindM (vip_ref sp) (\<lambda>v. ret (v_id v)))) Q R) R s3"
      proof (rule wp_rebuild [OF c3' v3])
        fix s4 bs ring v4
        assume c4: "core c t ([] @ []) sp {} (insert sp U) (insert sp W - {sp}) (insert sp S - {sp}) s4"
          and st4: "settings s3 s4"
          and v4: "v4 = v3\<lparr>v_members := mark_members s3 (v_members v3), v_generation := v_generation v3 + 1\<rparr>"
          and f4: "smap_find (vips s4) = (smap_find (vips s3))(sp \<mapsto> v4)"
        have v4': "smap_find (vips s4) sp = Some v4" by (simp add: f4)
        have c4': "core c t [] sp {} (insert sp U) (W - {sp}) (S - {sp}) s4" using c4 by simp
        have "wp (write_vip_entry E sp) (\<lambda>_. wp (bindM (vip_ref sp) (\<lambda>v. ret (v_id v))) Q R) R s4"
        proof (rule wp_write_vip_entry [OF c4' v4'])
          fix s5
          assume c5: "core c t [] sp {} (insert sp U - {sp}) (W - {sp}) (S - {sp}) s5" and kw: "kernel_write s4 s5"
          have v5: "smap_find (vips s5) sp = Some v4" using kw v4' by (simp add: kernel_write_def)
          have kn: "knobs s s5" "adopted_vip_ids s5 = adopted_vip_ids s1"
            using kn1 st3 st4 kw by (simp_all add: knobs_def settings_def kernel_write_def)
          have "Q (v_id v4) s5"
          proof (rule ok)
            show "core c t [] sp {} (U - {sp}) (W - {sp}) (S - {sp}) s5" using c5 by simp
            show "smap_find (vips s5) = (smap_find (vips s))(sp \<mapsto> v4)"
              using kw f4 f3 v1 by (simp add: kernel_write_def)
            show "member_addrs v4 = dom (smap_find want)"
              using mem3 smap.set_keys [of want] by (simp add: v4 mv)
            show "\<exists>m. smap_find (v_members v4) a = Some m \<and> new_member w (m\<lparr>in_ring := False\<rparr>)"
              if "smap_find want a = Some w" for a w
              using new3 [of a w] that by (auto simp: v4 smap.in_entries new_member_def)
          qed (use kn id3 ad ad1 in \<open>simp_all add: v4\<close>)
          then show "wp (bindM (vip_ref sp) (\<lambda>v. ret (v_id v))) Q R s5" using v5 by (simp add: wp_simps)
        qed (use fail in auto)
        then show "wp (seqM (write_vip_entry E sp) (bindM (vip_ref sp) (\<lambda>v. ret (v_id v)))) Q R s4"
          by (simp add: wp_simps)
      qed (use fail in auto)
      then show "wp (seqM (rebuild_locked E sp) (seqM (write_vip_entry E sp) (bindM (vip_ref sp) (\<lambda>v. ret (v_id v))))) Q R s3"
        by (simp add: wp_simps)
    qed simp
    then show "wp (?tail i) Q R s1" using new v1 by (simp add: wp_simps smap_count_def)
  qed (rule full)
  then show ?thesis by (simp add: create_vip_locked_def wp_simps)
qed

section \<open>The API operations\<close>

text \<open>What is left when the kernel refused an insertion: safe maps.\<close>

definition failed :: "env \<Rightarrow> ghost \<Rightarrow> lb \<Rightarrow> bool" where
  "failed E c s \<longleftrightarrow> safe c s \<and> \<not> inserts_ok E"

lemma wp_vip_or_throw [wp_simps]:
  "wp (vip_or_throw sp) Q R s =
     (case smap_find (vips s) sp of Some v \<Rightarrow> Q v s | None \<Rightarrow> R (ApiError (''unknown vip '' @ VipSpec_str sp)) s)"
  by (simp add: vip_or_throw_def wp_simps split: option.split)

lemma wp_member_or_throw [wp_simps]:
  "wp (member_or_throw v a) Q R s =
     (case smap_find (v_members v) a of
        Some m \<Rightarrow> Q m s
      | None \<Rightarrow> R (ApiError (''unknown real '' @ ipv4_to_string a @ '' on vip '' @ VipSpec_str (v_spec v))) s)"
  by (simp add: member_or_throw_def wp_simps split: option.split)

end
