(* ===== verification/Lb_Api.thy ===== *)
theory Lb_Api
  imports Lb_Ops
begin

text \<open>
  The API, health and neighbour operations of \<^verbatim>\<open>LbState\<close> as refinements of a specification on
  an abstract model: a map from services to their flags and members.  The model leaves out ids,
  generations, time stamps and which members are in the ring.

  \<open>lb_step op M M'\<close> is the specification.  \<open>refines\<close> says that a run of the code from a state with
  the invariant either returns, keeps the invariant and makes that step, or throws; an
  \<^verbatim>\<open>ApiError\<close> leaves the state as it was.
\<close>

section \<open>The abstract model\<close>

type_synonym members = "u32 \<rightharpoonup> member"
type_synonym model = "vip_spec \<rightharpoonup> u32 \<times> members"

definition forget :: "member \<Rightarrow> member" where
  "forget m = m\<lparr>in_ring := False, last_change_ms := 0, last_rtt_us := 0\<rparr>"

definition vip_model :: "vip \<Rightarrow> u32 \<times> members" where
  "vip_model v = (v_flags v, \<lambda>a. map_option forget (smap_find (v_members v) a))"

definition model_of :: "lb \<Rightarrow> model" where
  "model_of s = (\<lambda>sp. map_option vip_model (smap_find (vips s) sp))"

datatype lb_op =
    AddVip vip_spec bool
  | DelVip vip_spec
  | AddReal vip_spec u32 u32
  | DelReal vip_spec u32
  | SetWeight vip_spec u32 u32
  | SetDraining vip_spec u32 bool
  | ReportHealth health_target probe_result u32 u32
  | NeighborResolved u32 mac_addr
  | Apply config_data

definition run_op :: "env \<Rightarrow> lb_op \<Rightarrow> unit lb_act" where
  "run_op E op =
     (case op of
        AddVip sp nc \<Rightarrow> seqM (add_vip E sp nc) (ret ())
      | DelVip sp \<Rightarrow> del_vip E sp
      | AddReal sp a w \<Rightarrow> seqM (add_real E sp a w) (ret ())
      | DelReal sp a \<Rightarrow> del_real E sp a
      | SetWeight sp a w \<Rightarrow> set_weight E sp a w
      | SetDraining sp a d \<Rightarrow> set_draining E sp a d
      | ReportHealth t r rise fall \<Rightarrow> report_health E t r rise fall
      | NeighborResolved ip m \<Rightarrow> neighbor_resolved E ip m
      | Apply cfg \<Rightarrow> apply_config E cfg)"

section \<open>The specification\<close>

definition on_member :: "vip_spec \<Rightarrow> u32 \<Rightarrow> (member \<Rightarrow> member) \<Rightarrow> model \<Rightarrow> model \<Rightarrow> bool" where
  "on_member sp a f M M' \<longleftrightarrow>
     (\<exists>fl ms m. M sp = Some (fl, ms) \<and> ms a = Some m \<and> M' = M(sp \<mapsto> (fl, ms(a \<mapsto> f m))))"

text \<open>The members of a VIP after a configuration that wants the weights \<open>want\<close>: those that stay keep their state.\<close>

definition members_after :: "members \<Rightarrow> (u32 \<rightharpoonup> u32) \<Rightarrow> members \<Rightarrow> bool" where
  "members_after ms want ms' \<longleftrightarrow>
     dom ms' = dom want \<and>
     (\<forall>a w. want a = Some w \<longrightarrow>
        (case ms a of
           Some m \<Rightarrow> ms' a = Some (m\<lparr>m_weight := w\<rparr>)
         | None \<Rightarrow> (\<exists>m. ms' a = Some m \<and> new_member w m)))"

definition reloaded :: "config_data \<Rightarrow> model \<Rightarrow> model \<Rightarrow> bool" where
  "reloaded cfg M M' \<longleftrightarrow>
     dom M' = vc_spec ` set (c_vips cfg) \<and>
     (\<forall>vc \<in> set (c_vips cfg). \<exists>ms'.
        M' (vc_spec vc) = Some (vip_flag_bits (vc_no_conntrack vc), ms') \<and>
        members_after (case M (vc_spec vc) of None \<Rightarrow> Map.empty | Some fm \<Rightarrow> snd fm)
          (map_of (map (\<lambda>r. (rc_addr r, rc_weight r)) (vc_reals vc))) ms')"

definition probed :: "health_target \<Rightarrow> probe_result \<Rightarrow> u32 \<Rightarrow> u32 \<Rightarrow> model \<Rightarrow> model" where
  "probed t r rise fall M =
     (case M (ht_vip t) of
        None \<Rightarrow> M
      | Some (fl, ms) \<Rightarrow>
          (case ms (ht_addr t) of
             None \<Rightarrow> M
           | Some m \<Rightarrow>
               (if incarnation m \<noteq> ht_incarnation t \<or> pr_local_error r then M
                else M(ht_vip t \<mapsto> (fl, ms(ht_addr t \<mapsto> forget (fst (probe_member r rise fall 0 m))))))))"

definition lb_step :: "lb_op \<Rightarrow> model \<Rightarrow> model \<Rightarrow> bool" where
  "lb_step op M M' \<longleftrightarrow>
     (case op of
        AddVip sp nc \<Rightarrow> M sp = None \<and> M' = M(sp \<mapsto> (vip_flag_bits nc, Map.empty))
      | DelVip sp \<Rightarrow> M sp \<noteq> None \<and> M' = M(sp := None)
      | AddReal sp a w \<Rightarrow> a \<noteq> 0 \<and> w \<le> kMaxRealWeight \<and>
          (\<exists>fl ms m. M sp = Some (fl, ms) \<and> ms a = None \<and> new_member w m \<and> M' = M(sp \<mapsto> (fl, ms(a \<mapsto> m))))
      | DelReal sp a \<Rightarrow>
          (\<exists>fl ms. M sp = Some (fl, ms) \<and> ms a \<noteq> None \<and> M' = M(sp \<mapsto> (fl, ms(a := None))))
      | SetWeight sp a w \<Rightarrow> w \<le> kMaxRealWeight \<and> on_member sp a (\<lambda>m. m\<lparr>m_weight := w\<rparr>) M M'
      | SetDraining sp a d \<Rightarrow> on_member sp a (\<lambda>m. m\<lparr>m_draining := d\<rparr>) M M'
      | ReportHealth t r rise fall \<Rightarrow> M' = probed t r rise fall M
      | NeighborResolved ip m \<Rightarrow> M' = M
      | Apply cfg \<Rightarrow> reloaded cfg M M')"

definition op_ok :: "lb_op \<Rightarrow> bool" where
  "op_ok op \<longleftrightarrow>
     (case op of
        NeighborResolved ip m \<Rightarrow> m \<noteq> zero_mac
      | Apply cfg \<Rightarrow> validate_config cfg = Inr ()
      | _ \<Rightarrow> True)"

text \<open>An operation that leaves the pinned reals in their services.\<close>

definition op_keeps :: "ghost \<Rightarrow> lb_op \<Rightarrow> bool" where
  "op_keeps c op \<longleftrightarrow>
     (\<forall>sp a i. (sp, a, i) \<in> g_pins c \<longrightarrow>
        (case op of
           DelVip sp' \<Rightarrow> sp' \<noteq> sp
         | DelReal sp' a' \<Rightarrow> sp' \<noteq> sp \<or> a' \<noteq> a
         | Apply cfg \<Rightarrow> (\<exists>vc \<in> set (c_vips cfg). vc_spec vc = sp \<and> a \<in> rc_addr ` set (vc_reals vc))
         | _ \<Rightarrow> True))"

definition stepped :: "ghost \<Rightarrow> lb_op \<Rightarrow> lb \<Rightarrow> lb \<Rightarrow> bool" where
  "stepped c op s s' \<longleftrightarrow> lb_inv c s' \<and> lb_step op (model_of s) (model_of s')"

text \<open>
  Why an operation may throw.  An \<^verbatim>\<open>ApiError\<close> means that the specification has no such step, or that
  a VIP is to be added and all ids are taken; a runtime error that a real is to be added and their table is full,
  or that the kernel refused an insertion.  In all cases but the last nothing has changed.
\<close>

definition vip_ids_taken :: "lb \<Rightarrow> bool" where
  "vip_ids_taken s \<longleftrightarrow> (\<forall>i < PB_MAX_VIPS. \<exists>sp v. smap_find (vips s) sp = Some v \<and> v_id v = i)"

definition cannot :: "lb_op \<Rightarrow> lb \<Rightarrow> bool" where
  "cannot op s \<longleftrightarrow> (\<forall>M'. \<not> lb_step op (model_of s) M') \<or> (\<exists>sp nc. op = AddVip sp nc) \<and> vip_ids_taken s"

definition refused :: "env \<Rightarrow> ghost \<Rightarrow> lb_op \<Rightarrow> lb \<Rightarrow> cpp_error \<Rightarrow> lb \<Rightarrow> bool" where
  "refused E c op s e s' \<longleftrightarrow>
     (\<exists>w. e = ApiError w) \<and> s' = s \<and> cannot op s \<or>
     is_runtime_error e \<and> (s' = s \<and> (\<exists>sp a w. op = AddReal sp a w) \<and> table_full s \<or> failed E c s')"

definition refines :: "env \<Rightarrow> ghost \<Rightarrow> lb_op \<Rightarrow> bool" where
  "refines E c op \<longleftrightarrow> (\<forall>s. lb_inv c s \<longrightarrow> wp (run_op E op) (\<lambda>_. stepped c op s) (refused E c op s) s)"

section \<open>Facts about the model\<close>

lemma forget_simps [simp]:
  "m_weight (forget m) = m_weight m" "m_draining (forget m) = m_draining m" "m_up (forget m) = m_up m"
  "consecutive_ok (forget m) = consecutive_ok m" "consecutive_fail (forget m) = consecutive_fail m"
  "incarnation (forget m) = incarnation m" "\<not> in_ring (forget m)"
  "forget (m\<lparr>in_ring := b\<rparr>) = forget m" "forget (m\<lparr>last_rtt_us := n\<rparr>) = forget m"
  "forget (m\<lparr>m_weight := w\<rparr>) = (forget m)\<lparr>m_weight := w\<rparr>"
  "forget (m\<lparr>m_draining := d\<rparr>) = (forget m)\<lparr>m_draining := d\<rparr>"
  by (simp_all add: forget_def)

lemma new_member_forget [simp]: "new_member w (forget m) = (m_weight m = w \<and> \<not> m_draining m \<and> m_up m \<and>
    consecutive_ok m = 0 \<and> consecutive_fail m = 0)"
  by (simp add: new_member_def)

lemma forget_probe: "forget (fst (probe_member r rise fall now m)) = forget (fst (probe_member r rise fall 0 (forget m)))"
  by (simp add: probe_member_def Let_def forget_def)

lemma model_upd:
  assumes "smap_find (vips s') = (smap_find (vips s))(f \<mapsto> v)"
  shows "model_of s' = (model_of s)(f \<mapsto> vip_model v)"
  using assms by (simp add: model_of_def fun_eq_iff)

lemma model_del:
  assumes "smap_find (vips s') = (smap_find (vips s))(f := None)"
  shows "model_of s' = (model_of s)(f := None)"
  using assms by (simp add: model_of_def fun_eq_iff)

lemma vip_model_rebuilt [simp]:
  "vip_model (v\<lparr>v_members := mark_members s ms, v_generation := g\<rparr>) = vip_model (v\<lparr>v_members := ms\<rparr>)"
  by (simp add: vip_model_def fun_eq_iff option.map_comp comp_def)

lemma vip_model_members:
  "vip_model v = (fl, ms) \<Longrightarrow> vip_model (v\<lparr>v_members := smap_insert a m (v_members v)\<rparr>) = (fl, ms(a \<mapsto> forget m))"
  "vip_model v = (fl, ms) \<Longrightarrow> vip_model (v\<lparr>v_members := smap_erase a (v_members v)\<rparr>) = (fl, ms(a := None))"
  by (auto simp: vip_model_def fun_eq_iff)

lemma model_vip: "smap_find (vips s) sp = Some v \<Longrightarrow> model_of s sp = Some (vip_model v)"
  by (simp add: model_of_def)

lemma snd_vip_model: "snd (vip_model v) a = map_option forget (smap_find (v_members v) a)"
  by (simp add: vip_model_def)

lemma refused_same [intro]: "cannot op s \<Longrightarrow> refused E c op s (ApiError w) s"
  by (simp add: refused_def)

lemma refused_full [intro]: "table_full s \<Longrightarrow> is_runtime_error e \<Longrightarrow> refused E c (AddReal sp a w) s e s"
  by (simp add: refused_def)

lemma refused_runtime [intro]: "failed E c s' \<Longrightarrow> is_runtime_error e \<Longrightarrow> refused E c op s e s'"
  by (simp add: refused_def)

lemma cannotI:
  "smap_find (vips s) sp \<noteq> None \<Longrightarrow> cannot (AddVip sp nc) s"
  "smap_find (vips s) sp = None \<Longrightarrow> cannot (DelVip sp) s"
  "smap_find (vips s) sp = None \<Longrightarrow> cannot (AddReal sp a w) s"
  "smap_find (vips s) sp = None \<Longrightarrow> cannot (DelReal sp a) s"
  "smap_find (vips s) sp = None \<Longrightarrow> cannot (SetWeight sp a w) s"
  "smap_find (vips s) sp = None \<Longrightarrow> cannot (SetDraining sp a d) s"
  "a = 0 \<or> w > kMaxRealWeight \<Longrightarrow> cannot (AddReal sp a w) s"
  "w > kMaxRealWeight \<Longrightarrow> cannot (SetWeight sp a w) s"
  by (auto simp: cannot_def lb_step_def on_member_def model_of_def)

lemma cannot_memberI:
  assumes "smap_find (vips s) sp = Some v"
  shows "smap_find (v_members v) a \<noteq> None \<Longrightarrow> cannot (AddReal sp a w) s"
    "smap_find (v_members v) a = None \<Longrightarrow> cannot (DelReal sp a) s"
    "smap_find (v_members v) a = None \<Longrightarrow> cannot (SetWeight sp a w) s"
    "smap_find (v_members v) a = None \<Longrightarrow> cannot (SetDraining sp a d) s"
  using assms by (auto simp: cannot_def lb_step_def on_member_def model_of_def vip_model_def)

lemma refinesI:
  "(\<And>s. lb_inv c s \<Longrightarrow> wp (run_op E op) (\<lambda>_. stepped c op s) (refused E c op s) s) \<Longrightarrow> refines E c op"
  by (simp add: refines_def)

lemma member_addrs_model: "member_addrs v = dom (snd (vip_model v))"
  by (auto simp: member_addrs_def vip_model_def)

section \<open>Changing a member\<close>

lemma wp_rebuild_inv:
  assumes inv: "lb_inv c s0" and core: "core c True [] sp (set rem) {} {} {sp} s" and st: "settings s0 s"
    and v: "smap_find (vips s) sp = Some v" and rem: "distinct rem"
    and ok: "\<And>s' v'. core c True rem sp {} {} {} {} s' \<Longrightarrow> settings s0 s' \<Longrightarrow>
      v' = v\<lparr>v_members := mark_members s (v_members v), v_generation := v_generation v + 1\<rparr> \<Longrightarrow>
      smap_find (vips s') = (smap_find (vips s))(sp \<mapsto> v') \<Longrightarrow> mac_of s' = mac_of s \<Longrightarrow> id_of s' = id_of s \<Longrightarrow> Q () s'"
    and err: "\<And>e s'. failed E c s' \<Longrightarrow> is_runtime_error e \<Longrightarrow> R e s'"
  shows "wp (rebuild_locked E sp) Q R s"
proof (rule wp_rebuild [OF core v rem])
  fix s' bs ring v'
  assume A: "core c True (rem @ []) sp {} {} ({} - {sp}) ({sp} - {sp}) s'" "settings s s'" "same_table s s'"
    "v' = v\<lparr>v_members := mark_members s (v_members v), v_generation := v_generation v + 1\<rparr>"
    "smap_find (vips s') = (smap_find (vips s))(sp \<mapsto> v')"
  show "Q () s'"
    by (rule ok [OF _ _ A(4,5)]) (use A settings_trans [OF st] same_table_simps [OF A(3)] in simp_all)
qed (use err in \<open>simp add: failed_def\<close>)

lemma wp_change_member:
  assumes inv: "lb_inv c s" and v: "smap_find (vips s) sp = Some v" and m: "smap_find (v_members v) a = Some m"
    and ok: "\<And>s' v'. lb_inv c s' \<Longrightarrow>
      v' = v\<lparr>v_members := mark_members s (smap_insert a m' (v_members v)), v_generation := v_generation v + 1\<rparr> \<Longrightarrow>
      smap_find (vips s') = (smap_find (vips s))(sp \<mapsto> v') \<Longrightarrow> mac_of s' = mac_of s \<Longrightarrow> Q () s'"
    and err: "\<And>e s'. failed E c s' \<Longrightarrow> is_runtime_error e \<Longrightarrow> R e s'"
  shows "wp (seqM (put_member sp a m') (rebuild_locked E sp)) Q R s"
proof -
  let ?v = "v\<lparr>v_members := smap_insert a m' (v_members v)\<rparr>"
  let ?s = "s\<lparr>vips := smap_insert sp ?v (vips s)\<rparr>"
  have "a \<in> member_addrs v" using m by (auto simp: member_addrs_def)
  then have "core c True [] sp {} {} {} {sp} ?s"
    using core_put_vip [OF lb_inv_core [OF inv] v, of ?v "{}" "[]"] by (simp add: accounts_def insert_absorb)
  then have core: "core c True [] sp (set []) {} {} {sp} ?s" by simp
  have "wp (rebuild_locked E sp) Q R ?s"
  proof (rule wp_rebuild_inv [OF inv core])
    fix s' v'
    assume A: "core c True [] sp {} {} {} {} s'" "settings s s'"
      "v' = ?v\<lparr>v_members := mark_members ?s (v_members ?v), v_generation := v_generation ?v + 1\<rparr>"
      "smap_find (vips s') = (smap_find (vips ?s))(sp \<mapsto> v')" "mac_of s' = mac_of ?s" "id_of s' = id_of ?s"
    have "mark_members ?s = mark_members s"
      by (simp add: mark_members_def eligible_def mac_of_def id_of_def fun_eq_iff)
    then show "Q () s'"
      using A(3-5) by (intro ok [OF lb_inv_settings [OF inv A(2,1)]]) (simp_all add: mac_of_def id_of_def fun_eq_iff)
  qed (use err in \<open>simp_all add: settings_def\<close>)
  then show ?thesis using v by (simp add: wp_simps)
qed

lemma on_memberI:
  assumes "smap_find (vips s) sp = Some v" "smap_find (v_members v) a = Some m" "f (forget m) = forget (g m)"
    "smap_find (vips s') = (smap_find (vips s))(sp \<mapsto> v')" "vip_model v' = vip_model (v\<lparr>v_members := smap_insert a (g m) (v_members v)\<rparr>)"
  shows "on_member sp a f (model_of s) (model_of s')"
proof -
  obtain fl ms where vm: "vip_model v = (fl, ms)" by (cases "vip_model v")
  then have "ms a = Some (forget m)" using assms(2) by (auto simp: vip_model_def)
  then show ?thesis
    using model_vip [OF assms(1)] model_upd [OF assms(4)] vip_model_members(1) [OF vm] assms(3,5) vm
    unfolding on_member_def by fastforce
qed

lemma on_member_same:
  assumes "smap_find (vips s) sp = Some v" "smap_find (v_members v) a = Some m" "f (forget m) = forget m"
  shows "on_member sp a f (model_of s) (model_of s)"
  by (rule on_memberI [of s sp v a m f id s v]) (use assms smap.insert_same [OF assms(2)] in \<open>simp_all add: fun_upd_idem\<close>)

section \<open>The operations\<close>

lemma add_vip_refines:
  assumes E: "env_ok E"
  shows "refines E c (AddVip sp nc)"
proof (rule refinesI)
  fix s
  assume inv: "lb_inv c s"
  show "wp (run_op E (AddVip sp nc)) (\<lambda>_. stepped c (AddVip sp nc) s) (refused E c (AddVip sp nc) s) s"
  proof (cases "smap_find (vips s) sp")
    case (Some v)
    then show ?thesis
      using refused_same [OF cannotI(1)] by (simp add: run_op_def add_vip_def wp_simps smap_count_def)
  next
    case None
    have "wp (create_vip_locked E sp (vip_flag_bits nc) smap_empty) (\<lambda>_. stepped c (AddVip sp nc) s) (refused E c (AddVip sp nc) s) s"
    proof (rule wp_create_vip [OF E lb_inv_core [OF inv] None])
      fix s' v'
      assume B: "core c True [] sp {} ({} - {sp}) ({} - {sp}) ({} - {sp}) s'" "knobs s s'"
        "smap_find (adopted_vip_ids s') = (smap_find (adopted_vip_ids s))(sp := None)"
        "smap_find (vips s') = (smap_find (vips s))(sp \<mapsto> v')" "v_flags v' = vip_flag_bits nc"
        "member_addrs v' = dom (smap_find smap_empty)"
      have "adopted_vip_ids s' = smap_empty"
        by (rule smap.entries_ext) (use B(3) inv in \<open>auto simp: lb_inv_def\<close>)
      then have "lb_inv c s'"
        using B(1,2) inv by (intro lb_invI [of c sp]) (simp_all add: lb_inv_def knobs_def)
      moreover have "vip_model v' = (vip_flag_bits nc, Map.empty)"
        using B(5,6) by (auto simp: member_addrs_def vip_model_def fun_eq_iff dom_def)
      ultimately show "stepped c (AddVip sp nc) s s'"
        using model_upd [OF B(4)] None by (simp add: stepped_def lb_step_def model_of_def)
    next
      show "refused E c (AddVip sp nc) s e s'" if "safe c s'" "is_runtime_error e"
        "\<not> inserts_ok E \<or> smap_empty \<noteq> smap_empty \<and> no_room (used_addrs s \<union> dom (smap_find smap_empty)) s' \<and>
          core c True [] sp {} (insert sp {}) (insert sp {}) S' s'" for e s' S'
        using that by (auto simp: failed_def)
      show "refused E c (AddVip sp nc) s (ApiError w) s" if "\<forall>i < PB_MAX_VIPS. \<exists>sp. owner s sp i" for w
        using that inv by (intro refused_same) (auto simp: cannot_def vip_ids_taken_def owner_def lb_inv_def)
    qed simp_all
    then show ?thesis using None by (simp add: run_op_def add_vip_def wp_simps smap_count_def)
  qed
qed

lemma del_vip_refines:
  assumes E: "env_ok E" and pin: "op_keeps c (DelVip sp)"
  shows "refines E c (DelVip sp)"
proof (rule refinesI)
  fix s
  assume inv: "lb_inv c s"
  show "wp (run_op E (DelVip sp)) (\<lambda>_. stepped c (DelVip sp) s) (refused E c (DelVip sp) s) s"
  proof (cases "smap_find (vips s) sp")
    case None
    then show ?thesis using refused_same [OF cannotI(2)] by (simp add: run_op_def del_vip_def wp_simps)
  next
    case (Some v)
    have "wp (delete_vip_locked E sp) (\<lambda>_. stepped c (DelVip sp) s) (refused E c (DelVip sp) s) s"
    proof (rule wp_delete_vip [OF E lb_inv_core [OF inv, of sp] _ Some])
      fix s'
      assume A: "core c True [] sp {} {} {} {} s'" "settings s s'" "smap_find (vips s') = (smap_find (vips s))(sp := None)"
      show "stepped c (DelVip sp) s s'"
        using lb_inv_settings [OF inv A(2,1)] model_del [OF A(3)] model_vip [OF Some]
        by (simp add: stepped_def lb_step_def)
    qed (use inv pin in \<open>auto simp: lb_inv_def op_keeps_def\<close>)
    then show ?thesis using Some by (simp add: run_op_def del_vip_def wp_simps)
  qed
qed

lemma add_real_refines:
  assumes E: "env_ok E"
  shows "refines E c (AddReal sp a w)"
proof (rule refinesI)
  fix s
  assume inv: "lb_inv c s"
  let ?op = "AddReal sp a w"
  note same = cannotI [THEN refused_same] cannot_memberI [THEN refused_same]
  show "wp (run_op E ?op) (\<lambda>_. stepped c ?op s) (refused E c ?op s) s"
  proof (cases "smap_find (vips s) sp")
    case None
    then show ?thesis using same by (simp add: run_op_def add_real_def wp_simps)
  next
    case (Some v)
    show ?thesis
    proof (cases "a = 0 \<or> a \<in> member_addrs v \<or> w > kMaxRealWeight")
      case True
      then show ?thesis
        using same Some by (auto simp: run_op_def add_real_def wp_simps smap_count_def member_addrs_def weight_error_def)
    next
      case False
      let ?tail = "seqM (rebuild_locked E sp) (bindM (gets (\<lambda>s. id_of s a)) deref) :: u32 lb_act"
      have "wp (add_member_locked E sp a w) (\<lambda>_. wp ?tail (\<lambda>_. stepped c ?op s) (refused E c ?op s)) (refused E c ?op s) s"
      proof (rule wp_add_member [OF E lb_inv_core [OF inv] Some])
        fix m s1
        let ?v = "v\<lparr>v_members := smap_insert a m (v_members v)\<rparr>"
        assume c1: "core c True [] sp {} {} {} {sp} s1" and st1: "settings s s1" and m: "new_member w m"
          and v1: "smap_find (vips s1) = (smap_find (vips s))(sp \<mapsto> ?v)"
        have "wp (rebuild_locked E sp) (\<lambda>_. wp (bindM (gets (\<lambda>s. id_of s a)) deref) (\<lambda>_. stepped c ?op s) (refused E c ?op s))
            (refused E c ?op s) s1"
        proof (rule wp_rebuild_inv [OF inv _ st1])
          show "core c True [] sp (set []) {} {} {sp} s1" using c1 by simp
          fix s2 v2
          assume c2: "core c True [] sp {} {} {} {} s2" and st2: "settings s s2"
            and v2: "v2 = ?v\<lparr>v_members := mark_members s1 (v_members ?v), v_generation := v_generation ?v + 1\<rparr>"
              "smap_find (vips s2) = (smap_find (vips s1))(sp \<mapsto> v2)"
          have fv: "smap_find (vips s2) = (smap_find (vips s))(sp \<mapsto> v2)" using v2(2) v1 by simp
          have am: "a \<in> member_addrs v2" by (simp add: v2(1) member_addrs_def domIff)
          have id: "id_of s2 a \<noteq> None" by (rule member_id [OF coreD(4) [OF c2] am, of sp]) (simp add: fv)
          obtain fl ms where vm: "vip_model v = (fl, ms)" by (cases "vip_model v")
          have "vip_model v2 = (fl, ms(a \<mapsto> forget m))"
            using vip_model_members(1) [OF vm, of a m] by (simp add: v2(1))
          moreover have "ms a = None" using False vm by (auto simp: member_addrs_model)
          ultimately have "lb_step ?op (model_of s) (model_of s2)"
            using False m model_upd [OF fv] model_vip [OF Some] vm
            by (auto simp: lb_step_def new_member_def not_less intro!: exI [of _ "forget m"])
          then show "wp (bindM (gets (\<lambda>s. id_of s a)) deref) (\<lambda>_. stepped c ?op s) (refused E c ?op s) s2"
            using id lb_inv_settings [OF inv st2 c2] by (auto simp: wp_simps stepped_def)
        qed (use v1 in auto)
        then show "wp ?tail (\<lambda>_. stepped c ?op s) (refused E c ?op s) s1" by (simp add: wp_simps)
      qed (use False in auto)
      then show ?thesis
        using Some False by (simp add: run_op_def add_real_def wp_simps smap_count_def member_addrs_def domIff)
    qed
  qed
qed

lemma del_real_refines:
  assumes E: "env_ok E" and pin: "op_keeps c (DelReal sp a)"
  shows "refines E c (DelReal sp a)"
proof (rule refinesI)
  fix s
  assume inv: "lb_inv c s"
  let ?op = "DelReal sp a" and ?Q = "\<lambda>_. stepped c (DelReal sp a) s" and ?R = "refused E c (DelReal sp a) s"
  note same = cannotI [THEN refused_same] cannot_memberI [THEN refused_same]
  show "wp (run_op E ?op) ?Q ?R s"
  proof (cases "smap_find (vips s) sp")
    case None
    then show ?thesis using same by (simp add: run_op_def del_real_def wp_simps)
  next
    case (Some v)
    show ?thesis
    proof (cases "a \<in> member_addrs v")
      case False
      then show ?thesis using same Some by (simp add: run_op_def del_real_def wp_simps member_addrs_def domIff)
    next
      case True
      let ?v = "v\<lparr>v_members := smap_erase a (v_members v)\<rparr>"
      have "wp (remove_member_locked sp a) (\<lambda>_. wp (seqM (rebuild_locked E sp) (release E a)) ?Q ?R) ?R s"
      proof (rule wp_remove_member [OF lb_inv_core [OF inv] Some True])
        fix s1
        assume c1: "core c True [] sp {a} {} {} {sp} s1" and st1: "settings s s1"
          and v1: "smap_find (vips s1) = (smap_find (vips s))(sp \<mapsto> ?v)"
        have "wp (rebuild_locked E sp) (\<lambda>_. wp (release E a) ?Q ?R) ?R s1"
        proof (rule wp_rebuild_inv [OF inv _ st1])
          show "core c True [] sp (set [a]) {} {} {sp} s1" using c1 by simp
          fix s2 v2
          assume c2: "core c True [a] sp {} {} {} {} s2" and st2: "settings s s2"
            and v2: "v2 = ?v\<lparr>v_members := mark_members s1 (v_members ?v), v_generation := v_generation ?v + 1\<rparr>"
              "smap_find (vips s2) = (smap_find (vips s1))(sp \<mapsto> v2)"
          have ad: "adopted_vip_ids s2 = smap_empty" using inv st2 by (simp add: lb_inv_def settings_def)
          have c2': "core c True (a # []) sp {} {} {} {} (s2\<lparr>vips := vips s2\<rparr>)" using c2 by simp
          have "owned {} (s2\<lparr>vips := vips s2\<rparr>)" by (rule owned_core [OF c2']) (use ad in simp_all)
          then show "wp (release E a) ?Q ?R s2"
          proof (rule wp_release_core [OF E c2'])
            fix s3
            assume c3: "core c True [] sp {} {} {} {} (s3\<lparr>vips := vips s2\<rparr>)" and r3: "rest s2 s3"
            have e3: "s3\<lparr>vips := vips s2\<rparr> = s3" using rest_lb(1) [OF r3] by (cases s3) simp
            have fv: "smap_find (vips s3) = (smap_find (vips s))(sp \<mapsto> v2)"
              using rest_lb(1) [OF r3] v2(2) v1 by simp
            have "lb_inv c s3"
              using lb_inv_settings [OF inv settings_trans [OF st2 settings_rest [OF r3]]] c3 e3 by metis
            moreover obtain fl ms where vm: "vip_model v = (fl, ms)" by (cases "vip_model v")
            moreover have "vip_model v2 = (fl, ms(a := None))"
              using vip_model_members(2) [OF vm, of a] by (simp add: v2(1))
            moreover have "ms a \<noteq> None" using True vm by (simp add: member_addrs_model domIff)
            ultimately show "stepped c ?op s s3"
              using model_upd [OF fv] model_vip [OF Some] by (simp add: stepped_def lb_step_def)
          qed
        qed (use v1 in auto)
        then show "wp (seqM (rebuild_locked E sp) (release E a)) ?Q ?R s1" by (simp add: wp_simps)
      qed (use pin in \<open>auto simp: op_keeps_def\<close>)
      then show ?thesis using Some True by (auto simp: run_op_def del_real_def wp_simps member_addrs_def)
    qed
  qed
qed

lemma set_weight_refines: "refines E c (SetWeight sp a w)"
proof (rule refinesI)
  fix s
  assume inv: "lb_inv c s"
  let ?op = "SetWeight sp a w" and ?Q = "\<lambda>_. stepped c (SetWeight sp a w) s" and ?R = "refused E c (SetWeight sp a w) s"
  note same = cannotI [THEN refused_same] cannot_memberI [THEN refused_same]
  show "wp (run_op E ?op) ?Q ?R s"
  proof (cases "w > kMaxRealWeight")
    case True
    then show ?thesis using same by (simp add: run_op_def set_weight_def wp_simps weight_error_def)
  next
    case w: False
    show ?thesis
    proof (cases "smap_find (vips s) sp")
      case None
      then show ?thesis using same w by (simp add: run_op_def set_weight_def wp_simps)
    next
      case v: (Some v)
      show ?thesis
      proof (cases "smap_find (v_members v) a")
        case None
        then show ?thesis using same w v by (simp add: run_op_def set_weight_def wp_simps)
      next
        case m: (Some m)
        have "stepped c ?op s s" if "m_weight m = w"
          using inv w that on_member_same [OF v m, of "\<lambda>m. m\<lparr>m_weight := w\<rparr>"]
          by (simp add: stepped_def lb_step_def not_less forget_def)
        moreover have "wp (seqM (put_member sp a (m\<lparr>m_weight := w\<rparr>)) (rebuild_locked E sp)) ?Q ?R s"
        proof (rule wp_change_member [OF inv v m])
          fix s' v'
          assume A: "lb_inv c s'" "v' = v\<lparr>v_members := mark_members s (smap_insert a (m\<lparr>m_weight := w\<rparr>) (v_members v)),
              v_generation := v_generation v + 1\<rparr>" "smap_find (vips s') = (smap_find (vips s))(sp \<mapsto> v')"
          have "on_member sp a (\<lambda>m. m\<lparr>m_weight := w\<rparr>) (model_of s) (model_of s')"
            by (rule on_memberI [OF v m _ A(3), of _ "\<lambda>m. m\<lparr>m_weight := w\<rparr>"]) (simp_all add: A(2))
          then show "stepped c ?op s s'" using A(1) w by (simp add: stepped_def lb_step_def not_less)
        qed (rule refused_runtime)
        ultimately show ?thesis using w v m by (simp add: run_op_def set_weight_def wp_simps)
      qed
    qed
  qed
qed

lemma set_draining_refines: "refines E c (SetDraining sp a d)"
proof (rule refinesI)
  fix s
  assume inv: "lb_inv c s"
  let ?op = "SetDraining sp a d" and ?Q = "\<lambda>_. stepped c (SetDraining sp a d) s" and ?R = "refused E c (SetDraining sp a d) s"
  note same = cannotI [THEN refused_same] cannot_memberI [THEN refused_same]
  show "wp (run_op E ?op) ?Q ?R s"
  proof (cases "smap_find (vips s) sp")
    case None
    then show ?thesis using same by (simp add: run_op_def set_draining_def wp_simps)
  next
    case v: (Some v)
    show ?thesis
    proof (cases "smap_find (v_members v) a")
      case None
      then show ?thesis using same v by (simp add: run_op_def set_draining_def wp_simps)
    next
      case m: (Some m)
      have "stepped c ?op s s" if "m_draining m = d"
        using inv that on_member_same [OF v m, of "\<lambda>m. m\<lparr>m_draining := d\<rparr>"]
        by (simp add: stepped_def lb_step_def forget_def)
      moreover have "wp (seqM (put_member sp a (m\<lparr>m_draining := d\<rparr>)) (rebuild_locked E sp)) ?Q ?R s"
      proof (rule wp_change_member [OF inv v m])
        fix s' v'
        assume A: "lb_inv c s'" "v' = v\<lparr>v_members := mark_members s (smap_insert a (m\<lparr>m_draining := d\<rparr>) (v_members v)),
            v_generation := v_generation v + 1\<rparr>" "smap_find (vips s') = (smap_find (vips s))(sp \<mapsto> v')"
        have "on_member sp a (\<lambda>m. m\<lparr>m_draining := d\<rparr>) (model_of s) (model_of s')"
          by (rule on_memberI [OF v m _ A(3), of _ "\<lambda>m. m\<lparr>m_draining := d\<rparr>"]) (simp_all add: A(2))
        then show "stepped c ?op s s'" using A(1) by (simp add: stepped_def lb_step_def)
      qed (rule refused_runtime)
      ultimately show ?thesis using v m by (simp add: run_op_def set_draining_def wp_simps)
    qed
  qed
qed

section \<open>Health reports\<close>

text \<open>A member whose share of the ring stays the same can be replaced without a new ring.\<close>

definition share :: "member \<Rightarrow> u32" where
  "share m = (if in_ring m then m_weight m else 0)"

lemma backends_of_share:
  assumes "\<And>a. map_option share (smap_find ms a) = map_option share (smap_find ms' a)"
  shows "backends_of s ms = backends_of s ms'"
proof -
  let ?g = "\<lambda>(addr, w). map_option (\<lambda>i. \<lparr>bk_real_id = i, bk_addr = addr, bk_weight = w\<rparr>) (id_of s addr)"
  have b: "backends_of s ms = those (map ?g (items (smap_map (\<lambda>_. share) ms)))" for ms
    by (simp add: backends_of_def share_def case_prod_unfold comp_def)
  have "smap_map (\<lambda>_. share) ms = smap_map (\<lambda>_. share) ms'"
    by (rule smap.entries_ext) (simp add: fun_eq_iff assms)
  then show ?thesis by (simp add: b)
qed

lemma core_put_quiet:
  assumes core: "core c t [] f {} U W S s" and v: "smap_find (vips s) f = Some v" and m: "smap_find (v_members v) a = Some m"
    and m': "share m' = share m" "in_ring m' = in_ring m" "in_ring m \<Longrightarrow> eligible s a m \<Longrightarrow> eligible s a m'"
  shows "core c t [] f {} U W S (s\<lparr>vips := smap_insert f (v\<lparr>v_members := smap_insert a m' (v_members v)\<rparr>) (vips s)\<rparr>)"
proof -
  let ?v = "v\<lparr>v_members := smap_insert a m' (v_members v)\<rparr>"
  let ?s = "s\<lparr>vips := smap_insert f ?v (vips s)\<rparr>"
  have "a \<in> member_addrs v" using m by (auto simp: member_addrs_def)
  then have c1: "core c t [] f {} U W (insert f S) ?s"
    using core_put_vip [OF core v, of ?v "{}" "[]"] by (simp add: accounts_def insert_absorb)
  have st: "same_table s ?s" by (simp add: same_table_def)
  have "fresh_vip s ?v" if "fresh_vip s v"
  proof -
    have "backends_of s (v_members ?v) = backends_of s (v_members v)"
      by (rule backends_of_share) (use m m'(1) in simp)
    then show ?thesis using that m m'(2,3) by (auto simp: fresh_vip_def split: if_splits)
  qed
  then have "fresh_ok S ?s"
    using coreD(8) [OF core] v same_table_fresh [OF st] unfolding fresh_ok_def by auto
  then show ?thesis using c1 by (simp add: core_def)
qed

lemma probe_member_quiet:
  assumes "probe_member r rise fall now m = (m', False)"
  shows "share m' = share m" "in_ring m' = in_ring m" "eligible s a m' = eligible s a m"
  using assms by (auto simp: probe_member_def share_def eligible_def Let_def split: if_splits)

lemma report_health_refines: "refines E c (ReportHealth t r rise fall)"
proof (rule refinesI)
  fix s
  assume inv: "lb_inv c s"
  let ?op = "ReportHealth t r rise fall"
  let ?Q = "\<lambda>_. stepped c (ReportHealth t r rise fall) s" and ?R = "refused E c (ReportHealth t r rise fall) s" and ?now = "epoch_ms E (ticks s)"
  show "wp (run_op E ?op) ?Q ?R s"
  proof (cases "\<exists>v m. smap_find (vips s) (ht_vip t) = Some v \<and> smap_find (v_members v) (ht_addr t) = Some m \<and>
      incarnation m = ht_incarnation t \<and> \<not> pr_local_error r")
    case False
    then have "probed t r rise fall (model_of s) = model_of s"
      by (auto simp: probed_def model_of_def vip_model_def split: option.split)
    then have "stepped c ?op s s" using inv by (simp add: stepped_def lb_step_def)
    then show ?thesis using False by (auto simp: run_op_def report_health_def wp_simps split: option.split)
  next
    case True
    then obtain v m where v: "smap_find (vips s) (ht_vip t) = Some v" and m: "smap_find (v_members v) (ht_addr t) = Some m"
      and g: "incarnation m = ht_incarnation t" "\<not> pr_local_error r" by blast
    obtain m' ch where pm: "probe_member r rise fall ?now m = (m', ch)" by (cases "probe_member r rise fall ?now m")
    have fm: "forget m' = forget (fst (probe_member r rise fall 0 (forget m)))"
      using forget_probe [of r rise fall ?now m] pm by simp
    have step: "lb_step ?op (model_of s) (model_of s')"
      if "smap_find (vips s') = (smap_find (vips s))(ht_vip t \<mapsto> v')"
        "vip_model v' = vip_model (v\<lparr>v_members := smap_insert (ht_addr t) m' (v_members v)\<rparr>)" for s' v'
    proof -
      obtain fl ms where vm: "vip_model v = (fl, ms)" by (cases "vip_model v")
      then have "ms (ht_addr t) = Some (forget m)" using m by (auto simp: vip_model_def)
      then show ?thesis
        using vip_model_members(1) [OF vm] that(2) model_upd [OF that(1)] model_vip [OF v] vm g fm
        by (simp add: lb_step_def probed_def)
    qed
    show ?thesis
    proof (cases ch)
      case True
      have "wp (seqM (put_member (ht_vip t) (ht_addr t) m') (rebuild_locked E (ht_vip t))) ?Q ?R s"
        by (rule wp_change_member [OF inv v m]) (use step in \<open>auto simp: stepped_def\<close>)
      then show ?thesis using v m g pm True by (simp add: run_op_def report_health_def wp_simps)
    next
      case False
      let ?v = "v\<lparr>v_members := smap_insert (ht_addr t) m' (v_members v)\<rparr>"
      let ?s = "s\<lparr>vips := smap_insert (ht_vip t) ?v (vips s)\<rparr>"
      have "probe_member r rise fall ?now m = (m', False)" using pm False by simp
      note q = probe_member_quiet [OF this]
      have "core c True [] (ht_vip t) {} {} {} {} ?s"
        by (rule core_put_quiet [OF lb_inv_core [OF inv] v m]) (use q in auto)
      then have "lb_inv c ?s" using lb_inv_settings [OF inv] by (simp add: settings_def)
      then have "stepped c ?op s ?s" using step [of ?s ?v] by (simp add: stepped_def)
      then show ?thesis using v m g pm False by (simp add: run_op_def report_health_def wp_simps)
    qed
  qed
qed

section \<open>Neighbours\<close>

text \<open>Setting one MAC and setting it for every real keep the VIPs and the invariant.\<close>

definition mac_kept :: "lb \<Rightarrow> lb \<Rightarrow> bool" where
  "mac_kept s s' \<longleftrightarrow> rest s s' \<and> (\<forall>a. mac_of s a \<noteq> None \<longrightarrow> mac_of s' a \<noteq> None) \<and>
     (\<forall>a. id_of s a \<noteq> None \<longrightarrow> id_of s' a = id_of s a)"

lemma mac_kept_trans: "mac_kept s s' \<Longrightarrow> mac_kept s' s'' \<Longrightarrow> mac_kept s s''"
  using rest_trans by (fastforce simp: mac_kept_def)

lemma wp_set_one:
  assumes E: "env_ok E" and core: "core c t pend f D U W S s" and m: "m \<noteq> zero_mac"
    and ok: "\<And>nu' s'. core c t pend f D U W S s' \<Longrightarrow> mac_kept s s' \<Longrightarrow> set nu \<subseteq> set nu' \<Longrightarrow>
      (\<And>x. mac_of s x = None \<Longrightarrow> mac_of s' x \<noteq> None \<Longrightarrow> x \<in> set nu') \<Longrightarrow>
      (id_of s a \<noteq> None \<Longrightarrow> mac_of s' a = Some m) \<Longrightarrow> Q nu' s'"
  shows "wp (set_one E m a nu) Q R s"
proof -
  have "wp (set_mac E a m)
     (\<lambda>changed. Q (if changed \<and> \<not> (mac_of s a \<noteq> None) then a # nu else nu)) R s"
  proof (rule wp_set_mac_core [OF E core m])
    show "Q (if False \<and> \<not> (mac_of s a \<noteq> None) then a # nu else nu) s" if "mac_of s a = Some m \<or> id_of s a = None"
      using core that by (auto simp: mac_kept_def intro!: ok)
    fix s'
    assume A: "core c t pend f D U W S s'" "tab_step UNIV s s'" "mac_of s' = (mac_of s)(a := Some m)"
    show "Q (if True \<and> \<not> (mac_of s a \<noteq> None) then a # nu else nu) s'"
      by (rule ok [OF A(1)]) (use A(2,3) in \<open>auto simp: mac_kept_def tab_step_def split: if_splits\<close>)
  qed
  then show ?thesis by (simp add: set_one_def wp_simps)
qed

lemma wp_set_all:
  assumes E: "env_ok E" and "core c t pend f D U W S s" and m: "m \<noteq> zero_mac"
    and "\<And>nu' s'. core c t pend f D U W S s' \<Longrightarrow> mac_kept s s' \<Longrightarrow> set nu \<subseteq> set nu' \<Longrightarrow>
      (\<And>x. mac_of s x = None \<Longrightarrow> mac_of s' x \<noteq> None \<Longrightarrow> x \<in> set nu') \<Longrightarrow>
      (\<And>x. x \<in> set as \<Longrightarrow> id_of s x \<noteq> None \<Longrightarrow> mac_of s' x \<noteq> None) \<Longrightarrow> Q nu' s'"
  shows "wp (foldM as (set_one E m) nu) Q R s"
  using assms(2,4)
proof (induction as arbitrary: s nu)
  case Nil
  have "Q nu s" by (rule Nil.prems(2) [OF Nil.prems(1)]) (auto simp: mac_kept_def)
  then show ?case by (simp add: wp_simps)
next
  case (Cons a as)
  have "wp (set_one E m a nu) (\<lambda>nu'. wp (foldM as (set_one E m) nu') Q R) R s"
  proof (rule wp_set_one [OF E Cons.prems(1) m])
    fix nu1 s1
    assume A: "core c t pend f D U W S s1" "mac_kept s s1" "set nu \<subseteq> set nu1"
      "\<And>x. mac_of s x = None \<Longrightarrow> mac_of s1 x \<noteq> None \<Longrightarrow> x \<in> set nu1" "id_of s a \<noteq> None \<Longrightarrow> mac_of s1 a = Some m"
    show "wp (foldM as (set_one E m) nu1) Q R s1"
    proof (rule Cons.IH [OF A(1)])
      fix nu' s'
      assume B: "core c t pend f D U W S s'" "mac_kept s1 s'" "set nu1 \<subseteq> set nu'"
        "\<And>x. mac_of s1 x = None \<Longrightarrow> mac_of s' x \<noteq> None \<Longrightarrow> x \<in> set nu'"
        "\<And>x. x \<in> set as \<Longrightarrow> id_of s1 x \<noteq> None \<Longrightarrow> mac_of s' x \<noteq> None"
      show "Q nu' s'"
      proof (rule Cons.prems(2) [OF B(1) mac_kept_trans [OF A(2) B(2)]])
        show "x \<in> set nu'" if "mac_of s x = None" "mac_of s' x \<noteq> None" for x
          using A(4) [OF that(1)] B(3) B(4) [OF _ that(2)] by blast
        show "mac_of s' x \<noteq> None" if "x \<in> set (a # as)" "id_of s x \<noteq> None" for x
          using that A(2,5) B(2,5) by (auto simp: mac_kept_def)
      qed (use A(3) B(3) in blast)
    qed
  qed
  then show ?case by (simp add: wp_simps)
qed

text \<open>\<open>marked nu sp s\<close>: the members of \<open>sp\<close> with an address in \<open>nu\<close> are in the ring exactly if they are eligible.\<close>

definition marked :: "u32 set \<Rightarrow> vip_spec \<Rightarrow> lb \<Rightarrow> bool" where
  "marked nu sp s \<longleftrightarrow>
     (\<forall>v a m. smap_find (vips s) sp = Some v \<and> a \<in> nu \<and> smap_find (v_members v) a = Some m \<longrightarrow> in_ring m = eligible s a m)"

lemma wp_rebuild_if_uses:
  assumes inv: "lb_inv c s" and sp: "smap_find (vips s) sp = Some v"
    and ok: "\<And>s'. lb_inv c s' \<Longrightarrow> settings s s' \<Longrightarrow> mac_of s' = mac_of s \<Longrightarrow> id_of s' = id_of s \<Longrightarrow> model_of s' = model_of s \<Longrightarrow>
      marked (set nu) sp s' \<Longrightarrow> (\<And>sp'. marked (set nu) sp' s \<Longrightarrow> marked (set nu) sp' s') \<Longrightarrow> Q () s'"
    and err: "\<And>e s'. failed E c s' \<Longrightarrow> is_runtime_error e \<Longrightarrow> R e s'"
  shows "wp (rebuild_if_uses E nu sp) Q R s"
proof (cases "list_ex (\<lambda>addr. addr \<in> set nu) (smap_keys (v_members v))")
  case False
  then have "marked (set nu) sp s" using sp by (auto simp: marked_def list_ex_iff)
  then have "Q () s" using inv by (intro ok) auto
  then show ?thesis using sp False by (simp add: rebuild_if_uses_def wp_simps)
next
  case True
  have core: "core c True [] sp (set []) {} {} {sp} s"
    using core_mono [OF lb_inv_core [OF inv, of sp]] by simp
  have "wp (rebuild_locked E sp) Q R s"
  proof (rule wp_rebuild_inv [OF inv core settings_refl sp])
    fix s' v'
    assume A: "core c True [] sp {} {} {} {} s'" "settings s s'"
      "v' = v\<lparr>v_members := mark_members s (v_members v), v_generation := v_generation v + 1\<rparr>"
      "smap_find (vips s') = (smap_find (vips s))(sp \<mapsto> v')" "mac_of s' = mac_of s" "id_of s' = id_of s"
    have el: "eligible s' a m = eligible s a m" for a m using A(5) by (simp add: eligible_def)
    have mk: "marked (set nu) sp s'" using A(3,4) by (auto simp: marked_def el) (auto simp: eligible_def)
    show "Q () s'"
    proof (rule ok [OF lb_inv_settings [OF inv A(2,1)] A(2,5,6)])
      have "vip_model v' = vip_model v" by (simp add: A(3))
      then show "model_of s' = model_of s"
        using model_upd [OF A(4)] model_vip [OF sp] by (simp add: fun_upd_idem)
      show "marked (set nu) sp' s'" if "marked (set nu) sp' s" for sp'
      proof (cases "sp' = sp")
        case False
        then show ?thesis using that A(4) unfolding marked_def by (simp add: el)
      qed (use mk in simp)
    qed (rule mk)
  qed (simp_all add: err)
  then show ?thesis using sp True by (simp add: rebuild_if_uses_def wp_simps)
qed

lemma wp_rebuild_users:
  assumes "lb_inv c s" "set sps \<subseteq> dom (model_of s)"
    and "\<And>s'. lb_inv c s' \<Longrightarrow> mac_of s' = mac_of s \<Longrightarrow> id_of s' = id_of s \<Longrightarrow> model_of s' = model_of s \<Longrightarrow>
      (\<And>sp. sp \<in> set sps \<or> marked (set nu) sp s \<Longrightarrow> marked (set nu) sp s') \<Longrightarrow> Q () s'"
    and err: "\<And>e s'. failed E c s' \<Longrightarrow> is_runtime_error e \<Longrightarrow> R e s'"
  shows "wp (forM sps (rebuild_if_uses E nu)) Q R s"
  using assms(1-3)
proof (induction sps arbitrary: s)
  case Nil
  then show ?case by (simp add: wp_simps)
next
  case (Cons sp sps)
  obtain v where v: "smap_find (vips s) sp = Some v" using Cons.prems(2) by (auto simp: model_of_def)
  have "wp (rebuild_if_uses E nu sp) (\<lambda>_. wp (forM sps (rebuild_if_uses E nu)) Q R) R s"
  proof (rule wp_rebuild_if_uses [OF Cons.prems(1) v _ err])
    fix s1
    assume A: "lb_inv c s1" "mac_of s1 = mac_of s" "id_of s1 = id_of s" "model_of s1 = model_of s" "marked (set nu) sp s1"
      "\<And>sp'. marked (set nu) sp' s \<Longrightarrow> marked (set nu) sp' s1"
    show "wp (forM sps (rebuild_if_uses E nu)) Q R s1"
    proof (rule Cons.IH [OF A(1)])
      fix s'
      assume B: "lb_inv c s'" "mac_of s' = mac_of s1" "id_of s' = id_of s1" "model_of s' = model_of s1"
        "\<And>sp. sp \<in> set sps \<or> marked (set nu) sp s1 \<Longrightarrow> marked (set nu) sp s'"
      show "Q () s'"
        by (rule Cons.prems(3)) (use A(2-4) B(1-4) in \<open>simp_all\<close>, use A(5,6) B(5) in auto)
    qed (use A(4) Cons.prems(2) in simp)
  qed
  then show ?case by (simp add: wp_simps)
qed

text \<open>The whole operation: every VIP that has a newly resolved real is rebuilt with it.\<close>

lemma lb_inv_rest: "lb_inv c s \<Longrightarrow> mac_kept s s' \<Longrightarrow> core c True [] f {} {} {} {} s' \<Longrightarrow> lb_inv c s' \<and> model_of s' = model_of s"
  using lb_inv_settings settings_rest rest_lb(1) by (fastforce simp: mac_kept_def model_of_def)

lemma wp_neighbor_resolved:
  assumes E: "env_ok E" and inv: "lb_inv c s" and m: "m \<noteq> zero_mac"
    and ok: "\<And>s'. lb_inv c s' \<Longrightarrow> model_of s' = model_of s \<Longrightarrow>
      (\<And>sp. marked {x. mac_of s x = None \<and> mac_of s' x \<noteq> None} sp s') \<Longrightarrow>
      (\<And>x. id_of s x \<noteq> None \<Longrightarrow> (case lb_next_hop s of None \<Rightarrow> x = ip | Some h \<Rightarrow> h = ip) \<Longrightarrow> mac_of s' x \<noteq> None) \<Longrightarrow> Q () s'"
    and err: "\<And>e s'. failed E c s' \<Longrightarrow> is_runtime_error e \<Longrightarrow> R e s'"
  shows "wp (neighbor_resolved E ip m) Q R s"
proof -
  let ?Q = "\<lambda>nu. wp (bindM (gets (\<lambda>s. smap_keys (vips s))) (\<lambda>sps. whenM (nu \<noteq> []) (forM sps (rebuild_if_uses E nu)))) Q R"
  have fin: "?Q nu s1"
    if A: "core c True [] f {} {} {} {} s1" "mac_kept s s1"
      "\<And>x. mac_of s x = None \<Longrightarrow> mac_of s1 x \<noteq> None \<Longrightarrow> x \<in> set nu"
      "\<And>x. id_of s x \<noteq> None \<Longrightarrow> (case lb_next_hop s of None \<Rightarrow> x = ip | Some h \<Rightarrow> h = ip) \<Longrightarrow> mac_of s1 x \<noteq> None"
    for f nu s1
  proof -
    have i1: "lb_inv c s1" "model_of s1 = model_of s" using lb_inv_rest [OF inv A(2,1)] by blast+
    have "wp (forM (smap_keys (vips s1)) (rebuild_if_uses E nu)) Q R s1"
    proof (rule wp_rebuild_users [OF i1(1) _ _ err])
      show "set (smap_keys (vips s1)) \<subseteq> dom (model_of s1)" by (auto simp: model_of_def)
      fix s'
      assume B: "lb_inv c s'" "mac_of s' = mac_of s1" "model_of s' = model_of s1"
        "\<And>sp. sp \<in> set (smap_keys (vips s1)) \<or> marked (set nu) sp s1 \<Longrightarrow> marked (set nu) sp s'"
      have "marked (set nu) sp s'" for sp
      proof (cases "smap_find (vips s1) sp")
        case None
        then show ?thesis by (intro B(4)) (simp add: marked_def)
      next
        case (Some v)
        then have "sp \<in> set (smap_keys (vips s1))" by auto
        then show ?thesis using B(4) by blast
      qed
      moreover have "{x. mac_of s x = None \<and> mac_of s' x \<noteq> None} \<subseteq> set nu" using A(3) B(2) by auto
      ultimately have "marked {x. mac_of s x = None \<and> mac_of s' x \<noteq> None} sp s'" for sp
        unfolding marked_def by blast
      then show "Q () s'" using B i1(2) A(4) by (intro ok) auto
    qed
    moreover have "Q () s1" if "nu = []"
      using i1 A that by (intro ok) (auto simp: marked_def)
    ultimately show ?thesis by (simp add: wp_simps)
  qed
  show ?thesis
  proof (cases "lb_next_hop s")
    case None
    have "wp (set_one E m ip []) ?Q R s"
      by (rule wp_set_one [OF E lb_inv_core [OF inv] m], rule fin) (auto simp: None)
    then show ?thesis by (simp add: neighbor_resolved_def wp_simps None)
  next
    case (Some h)
    have "Q () s" if "h \<noteq> ip" using inv that by (intro ok) (auto simp: Some marked_def)
    moreover have "wp (foldM (addrs s) (set_one E m) []) ?Q R s"
    proof (rule wp_set_all [OF E lb_inv_core [OF inv] m], rule fin)
      fix nu s1 x
      assume "\<And>x. x \<in> set (addrs s) \<Longrightarrow> id_of s x \<noteq> None \<Longrightarrow> mac_of s1 x \<noteq> None" "id_of s x \<noteq> None"
      then show "mac_of s1 x \<noteq> None" by (auto simp: addrs_def id_of_def)
    qed
    ultimately show ?thesis by (auto simp: neighbor_resolved_def wp_simps Some)
  qed
qed

lemma neighbor_resolved_refines:
  assumes "env_ok E" "m \<noteq> zero_mac"
  shows "refines E c (NeighborResolved ip m)"
  unfolding refines_def run_op_def lb_op.case
  by (intro allI impI wp_neighbor_resolved [OF assms(1) _ assms(2)]) (auto simp: stepped_def lb_step_def)

end
