(* ===== verification/Lb_Apply.thy ===== *)
theory Lb_Apply
  imports Lb_Api
begin

text \<open>
  \<^verbatim>\<open>LbState::apply\<close>: a reload (every later call) and the first call, which adopts what a previous
  daemon left in the pinned maps.  A reload makes the model match the configuration and keeps the
  state of the reals that stay; the first call goes from any maps a daemon can leave behind to
  a state with the invariant, and never leaves the data plane without a ring on the way.
\<close>

section \<open>An existing VIP\<close>

lemma core_put_fresh:
  assumes core: "core c t pend f D U W S s" and v: "smap_find (vips s) f = Some v"
    and v': "v_id v' = v_id v" "v_spec v' = v_spec v" "f \<in> U \<or> v_flags v' = v_flags v" "member_addrs v' = member_addrs v"
    and fr: "fresh_vip s v \<Longrightarrow> fresh_vip s v'"
  shows "core c t pend f D U W S (s\<lparr>vips := smap_insert f v' (vips s)\<rparr>)"
proof -
  let ?s = "s\<lparr>vips := smap_insert f v' (vips s)\<rparr>"
  have c1: "core c t pend f D U W (insert f S) ?s"
    by (rule core_put_vip [OF core v v'(1-3)]) (simp_all add: v'(4) accounts_def)
  have "same_table s ?s" by (simp add: same_table_def)
  then have "fresh_ok S ?s"
    using coreD(8) [OF core] v v'(1) fr same_table_fresh [of s ?s] unfolding fresh_ok_def by auto
  then show ?thesis using c1 by (simp add: core_def)
qed

lemma wp_update_flags:
  assumes core: "core c t [] f {} {} {} S s" and v: "smap_find (vips s) f = Some v"
    and ok: "\<And>s'. core c t [] f {} {} {} S s' \<Longrightarrow> settings s s' \<Longrightarrow>
      smap_find (vips s') = (smap_find (vips s))(f \<mapsto> v\<lparr>v_flags := flags\<rparr>) \<Longrightarrow> Q () s'"
    and err: "\<And>e s'. is_runtime_error e \<Longrightarrow> \<not> inserts_ok E \<Longrightarrow> safe c s' \<Longrightarrow> R e s'"
  shows "wp (update_flags E f flags) Q R s"
proof (cases "v_flags v = flags")
  case True
  then have "v\<lparr>v_flags := flags\<rparr> = v" by (cases v) simp
  then have "Q () s" using core v by (intro ok) (auto simp: fun_upd_idem)
  then show ?thesis using v True by (simp add: update_flags_def wp_simps)
next
  case False
  let ?v = "v\<lparr>v_flags := flags\<rparr>"
  let ?s = "s\<lparr>vips := smap_insert f ?v (vips s)\<rparr>"
  have c0: "core c t [] f {} {f} {} S s" by (rule core_weaken [OF core]) auto
  have c1: "core c t [] f {} {f} {} S ?s"
    by (rule core_put_fresh [OF c0 v]) (simp_all add: fresh_vip_def)
  have "wp (write_vip_entry E f) Q R ?s"
  proof (rule wp_write_vip_entry [OF c1, of ?v])
    fix s'
    assume A: "core c t [] f {} ({f} - {f}) {} S s'" "kernel_write ?s s'"
    show "Q () s'"
      by (rule ok) (use A in \<open>simp_all add: kernel_write_def settings_def\<close>)
  qed (use err in simp_all)
  then show ?thesis using v False by (simp add: update_flags_def wp_simps)
qed

lemma wp_remove_members:
  assumes "core c t pend f D U W S s" "smap_find (vips s) f = Some v" "distinct xs" "set xs \<subseteq> member_addrs v" "set xs \<inter> D = {}"
    "\<And>a i. a \<in> set xs \<Longrightarrow> (f, a, i) \<notin> g_pins c"
    and "\<And>s' v'. core c t pend f (D \<union> set xs) U W (if xs = [] then S else insert f S) s' \<Longrightarrow> settings s s' \<Longrightarrow>
      smap_find (vips s') = (smap_find (vips s))(f \<mapsto> v') \<Longrightarrow> v_id v' = v_id v \<Longrightarrow> v_flags v' = v_flags v \<Longrightarrow>
      smap_find (v_members v') = smap_find (v_members v) |` (- set xs) \<Longrightarrow> Q () s'"
  shows "wp (forM xs (remove_member_locked f)) Q R s"
  using assms
proof (induction xs arbitrary: s v D S)
  case Nil
  then have "Q () s" by (intro Nil.prems(7) [of s v]) (auto simp: fun_upd_idem)
  then show ?case by (simp add: wp_simps)
next
  case (Cons x xs)
  have "wp (remove_member_locked f x) (\<lambda>_. wp (forM xs (remove_member_locked f)) Q R) R s"
  proof (rule wp_remove_member [OF Cons.prems(1,2)])
    let ?v = "v\<lparr>v_members := smap_erase x (v_members v)\<rparr>"
    fix s1
    assume A: "core c t pend f (insert x D) U W (insert f S) s1" "settings s s1"
      "smap_find (vips s1) = (smap_find (vips s))(f \<mapsto> ?v)"
    show "wp (forM xs (remove_member_locked f)) Q R s1"
    proof (rule Cons.IH [OF A(1), of ?v])
      fix s' v'
      assume B: "core c t pend f (insert x D \<union> set xs) U W (if xs = [] then insert f S else insert f (insert f S)) s'"
        "settings s1 s'" "smap_find (vips s') = (smap_find (vips s1))(f \<mapsto> v')" "v_id v' = v_id ?v" "v_flags v' = v_flags ?v"
        "smap_find (v_members v') = smap_find (v_members ?v) |` (- set xs)"
      show "Q () s'"
      proof (rule Cons.prems(7) [of s' v'])
        show "core c t pend f (D \<union> set (x # xs)) U W (if x # xs = [] then S else insert f S) s'"
          using B(1) by (simp split: if_splits)
        show "smap_find (v_members v') = smap_find (v_members v) |` (- set (x # xs))"
          using B(6) by (auto simp: fun_eq_iff restrict_map_def)
      qed (use B A settings_trans [OF A(2) B(2)] in simp_all)
    qed (use A(3) Cons.prems in auto)
  qed (use Cons.prems in auto)
  then show ?case by (simp add: wp_simps)
qed

text \<open>What the loop over \<^verbatim>\<open>want\<close> makes of the members.\<close>

definition wanted_now :: "(u32, member) smap \<Rightarrow> (u32 \<times> u32) list \<Rightarrow> (u32, member) smap \<Rightarrow> bool" where
  "wanted_now ms xs ms' \<longleftrightarrow>
     (\<forall>a. a \<notin> fst ` set xs \<longrightarrow> smap_find ms' a = smap_find ms a) \<and>
     (\<forall>(a, w) \<in> set xs.
        case smap_find ms a of
          Some m \<Rightarrow> smap_find ms' a = Some (m\<lparr>m_weight := w\<rparr>)
        | None \<Rightarrow> (\<exists>m. smap_find ms' a = Some m \<and> new_member w m))"

lemma wanted_now_step:
  assumes "wanted_now ms [(a, w)] ms1" "wanted_now ms1 xs ms'" "a \<notin> fst ` set xs"
  shows "wanted_now ms ((a, w) # xs) ms'"
  using assms unfolding wanted_now_def by (fastforce split: option.splits)

definition after_want :: "vip \<Rightarrow> (u32 \<times> u32) list \<Rightarrow> vip \<Rightarrow> bool" where
  "after_want v xs v' \<longleftrightarrow> v_id v' = v_id v \<and> v_flags v' = v_flags v \<and> wanted_now (v_members v) xs (v_members v')"

lemma member_addrs_after:
  assumes "after_want v xs v'"
  shows "member_addrs v' = member_addrs v \<union> fst ` set xs"
proof (rule set_eqI)
  fix a
  show "a \<in> member_addrs v' \<longleftrightarrow> a \<in> member_addrs v \<union> fst ` set xs"
    using assms unfolding after_want_def wanted_now_def member_addrs_def
    by (cases "a \<in> fst ` set xs") (force split: option.splits)+
qed

text \<open>One wanted real, with what it does to the freshness of the ring.\<close>

lemma wp_want_member:
  assumes E: "env_ok E" and core: "core c t pend f D U W (if ch then insert f S else S) s"
    and v: "smap_find (vips s) f = Some v"
    and a: "a \<noteq> 0" "a \<notin> set pend" "a \<notin> D"
    and ok: "\<And>ch' s' v'. core c t pend f D U W (if ch' then insert f S else S) s' \<Longrightarrow> settings s s' \<Longrightarrow> (ch \<Longrightarrow> ch') \<Longrightarrow>
      smap_find (vips s') = (smap_find (vips s))(f \<mapsto> v') \<Longrightarrow> after_want v [(a, w)] v' \<Longrightarrow> Q ch' s'"
    and err: "\<And>e. is_runtime_error e \<Longrightarrow> id_of s a = None \<Longrightarrow> table_full s \<Longrightarrow> R e s"
  shows "wp (want_member E f (a, w) ch) Q R s"
proof (cases "smap_find (v_members v) a")
  case None
  have "wp (add_member_locked E f a w) (\<lambda>_. Q True) R s"
  proof (rule wp_add_member [OF E core v a(1,2) _ a(3)])
    show "a \<notin> member_addrs v" using None by (simp add: member_addrs_def domIff)
    fix m s'
    assume A: "core c t pend f D U W (insert f (if ch then insert f S else S)) s'" "settings s s'" "new_member w m"
      "smap_find (vips s') = (smap_find (vips s))(f \<mapsto> v\<lparr>v_members := smap_insert a m (v_members v)\<rparr>)"
    show "Q True s'"
      by (rule ok [of True, OF _ A(2) _ A(4)]) (use A(1,3) None in \<open>simp_all add: after_want_def wanted_now_def split: if_splits\<close>)
  qed (rule err)
  then show ?thesis using v None by (simp add: want_member_def wp_simps)
next
  case (Some m)
  let ?m = "m\<lparr>m_weight := w\<rparr>"
  let ?v = "v\<lparr>v_members := smap_insert a ?m (v_members v)\<rparr>"
  let ?s = "s\<lparr>vips := smap_insert f ?v (vips s)\<rparr>"
  have "a \<in> member_addrs v" using Some by (auto simp: member_addrs_def)
  then have "core c t pend f D U W (insert f (if ch then insert f S else S)) ?s"
    by (intro core_put_vip [OF core v]) (auto simp: accounts_def)
  then have "Q True ?s"
    by (intro ok [of True ?s ?v]) (use Some in \<open>auto simp: settings_def after_want_def wanted_now_def split: if_splits\<close>)
  moreover have "Q ch s" if "m_weight m = w"
  proof -
    have "m\<lparr>m_weight := w\<rparr> = m" using that by (cases m) simp
    then show ?thesis
      using core v Some by (intro ok [of ch s v]) (auto simp: after_want_def wanted_now_def fun_upd_idem)
  qed
  ultimately show ?thesis using v Some by (simp add: want_member_def wp_simps)
qed

lemma wp_want_members:
  assumes E: "env_ok E" and "core c t pend f D U W (if ch then insert f S else S) s" "smap_find (vips s) f = Some v"
    "distinct (map fst xs)" "\<And>a w. (a, w) \<in> set xs \<Longrightarrow> a \<noteq> 0 \<and> a \<notin> set pend \<and> a \<notin> D"
    and "\<And>ch' s' v'. core c t pend f D U W (if ch' then insert f S else S) s' \<Longrightarrow> settings s s' \<Longrightarrow> (ch \<Longrightarrow> ch') \<Longrightarrow>
      smap_find (vips s') = (smap_find (vips s))(f \<mapsto> v') \<Longrightarrow> after_want v xs v' \<Longrightarrow> Q ch' s'"
    and "\<And>e s' S'. safe c s' \<Longrightarrow> is_runtime_error e \<Longrightarrow> no_room (used_addrs s \<union> fst ` set xs) s' \<Longrightarrow>
      core c t pend f D U W S' s' \<Longrightarrow> R e s'"
  shows "wp (foldM xs (want_member E f) ch) Q R s"
  using assms(2-)
proof (induction xs arbitrary: s v ch)
  case Nil
  then have "Q ch s"
    by (intro Nil.prems(5) [of ch s v]) (auto simp: fun_upd_idem after_want_def wanted_now_def)
  then show ?case by (simp add: wp_simps)
next
  case (Cons x xs)
  obtain a w where x: "x = (a, w)" by (cases x)
  have nd: "a \<notin> fst ` set xs" "distinct (map fst xs)" using Cons.prems(3) by (auto simp: x)
  have "wp (want_member E f (a, w) ch) (\<lambda>ch'. wp (foldM xs (want_member E f) ch') Q R) R s"
  proof (rule wp_want_member [OF E Cons.prems(1,2)])
    fix ch1 s1 v1
    assume A: "core c t pend f D U W (if ch1 then insert f S else S) s1" "settings s s1" "ch \<Longrightarrow> ch1"
      "smap_find (vips s1) = (smap_find (vips s))(f \<mapsto> v1)" "after_want v [(a, w)] v1"
    have used: "used_addrs s1 \<subseteq> used_addrs s \<union> {a}"
      using member_addrs_after [OF A(5)]
      by (intro used_addrs_upd [OF coreD(4) [OF Cons.prems(1)] coreD(4) [OF A(1)] Cons.prems(2) A(4)]) auto
    show "wp (foldM xs (want_member E f) ch1) Q R s1"
    proof (rule Cons.IH [OF A(1), of v1])
      fix ch' s' v'
      assume B: "core c t pend f D U W (if ch' then insert f S else S) s'" "settings s1 s'" "ch1 \<Longrightarrow> ch'"
        "smap_find (vips s') = (smap_find (vips s1))(f \<mapsto> v')" "after_want v1 xs v'"
      have "after_want v (x # xs) v'"
        using A(5) B(5) wanted_now_step [OF _ _ nd(1)] unfolding after_want_def x by metis
      then show "Q ch' s'"
        using A(3,4) B(3,4) by (intro Cons.prems(5) [OF B(1) settings_trans [OF A(2) B(2)], of v']) simp_all
    next
      show "R e s'" if "safe c s'" "is_runtime_error e" "no_room (used_addrs s1 \<union> fst ` set xs) s'"
        "core c t pend f D U W S' s'" for e s' S'
        by (rule Cons.prems(6) [OF that(1,2) _ that(4)]) (use that(3) used in \<open>auto simp: no_room_def x\<close>)
    qed (use A(4) nd Cons.prems(4) in auto)
  next
    fix e
    assume "is_runtime_error e" "id_of s a = None" "table_full s"
    then show "R e s"
      using coreD(2) [OF Cons.prems(1)] Cons.prems(1) by (intro Cons.prems(6)) (auto simp: no_room_def x)
  qed (use Cons.prems(4) [of a w] in \<open>simp_all add: x\<close>)
  then show ?case by (simp add: wp_simps x)
qed

text \<open>Removing what is not wanted and then adding what is missing gives the members a reload promises.\<close>

lemma members_after_want:
  assumes "smap_find (v_members v1) = smap_find (v_members v) |` {a. smap_find want a \<noteq> None}" "after_want v1 (items want) v2"
  shows "members_after (snd (vip_model v)) (smap_find want) (snd (vip_model v2))"
proof -
  have "member_addrs v2 = dom (smap_find want)"
    using member_addrs_after [OF assms(2)] assms(1) smap.set_keys [of want] by (auto simp: member_addrs_def)
  moreover have "case snd (vip_model v) a of
      Some m \<Rightarrow> snd (vip_model v2) a = Some (m\<lparr>m_weight := w\<rparr>)
    | None \<Rightarrow> (\<exists>m. snd (vip_model v2) a = Some m \<and> new_member w m)" if A: "smap_find want a = Some w" for a w
  proof -
    have f1: "smap_find (v_members v1) a = smap_find (v_members v) a" using assms(1) A by simp
    have w: "case smap_find (v_members v1) a of
        Some m \<Rightarrow> smap_find (v_members v2) a = Some (m\<lparr>m_weight := w\<rparr>)
      | None \<Rightarrow> (\<exists>m. smap_find (v_members v2) a = Some m \<and> new_member w m)"
      using assms(2) A unfolding after_want_def wanted_now_def smap.in_entries [symmetric] by blast
    show ?thesis
    proof (cases "smap_find (v_members v) a")
      case None
      then obtain m where "smap_find (v_members v2) a = Some m" "new_member w m" using w f1 by auto
      then show ?thesis using None by (simp add: snd_vip_model new_member_def)
    next
      case (Some m)
      then show ?thesis using w f1 by (simp add: snd_vip_model)
    qed
  qed
  ultimately show ?thesis by (simp add: members_after_def member_addrs_model)
qed

lemma used_addrs_holders:
  assumes "refs_ok [] D s"
  shows "a \<in> used_addrs s \<longleftrightarrow> holders s a \<noteq> {} \<or> a \<in> D"
  using assms finite_holders [of s a] by (auto simp: used_addrs_def refs_ok_def card_gt_0_iff)

text \<open>The end of an update: the ring, and after it the references of the removed members.\<close>

lemma wp_release_removed:
  assumes E: "env_ok E" and core: "core c True rem f {} {} {} S s" and ad: "adopted_vip_ids s = smap_empty"
    and ok: "\<And>s'. core c True [] f {} {} {} S s' \<Longrightarrow> rest s s' \<Longrightarrow> Q () s'"
  shows "wp (forM rem (release E)) Q R s"
proof -
  have c': "core c True (rem @ []) f {} {} {} S (s\<lparr>vips := vips s\<rparr>)" using core by simp
  have ow: "owned {} (s\<lparr>vips := vips s\<rparr>)" by (rule owned_core [OF c']) (use ad in simp_all)
  show ?thesis
  proof (rule wp_release_all [OF E c' ow])
    fix s'
    assume A: "core c True [] f {} {} {} S (s'\<lparr>vips := vips s\<rparr>)" "rest s s'"
    have "s'\<lparr>vips := vips s\<rparr> = s'" using rest_lb(1) [OF A(2)] by (cases s') simp
    then show "Q () s'" using A by (intro ok) simp_all
  qed
qed

lemma wp_finish_update:
  assumes E: "env_ok E" and core: "core c True [] f (set rem) {} {} (if ch then insert f S else S) s" "f \<notin> S" "distinct rem"
    and ad: "adopted_vip_ids s = smap_empty" and v: "smap_find (vips s) f = Some v" and ch: "rem \<noteq> [] \<Longrightarrow> ch"
    and ok: "\<And>s' v'. core c True [] f {} {} {} S s' \<Longrightarrow> settings s s' \<Longrightarrow>
      smap_find (vips s') = (smap_find (vips s))(f \<mapsto> v') \<Longrightarrow> vip_model v' = vip_model v \<Longrightarrow> Q () s'"
    and err: "\<And>e s'. safe c s' \<Longrightarrow> is_runtime_error e \<Longrightarrow> \<not> inserts_ok E \<Longrightarrow> R e s'"
  shows "wp (seqM (whenM ch (rebuild_locked E f)) (forM rem (release E))) Q R s"
proof -
  have rel: "wp (forM rem (release E)) Q R s'"
    if "core c True rem f {} {} {} S s'" "settings s s'" "smap_find (vips s') = (smap_find (vips s))(f \<mapsto> v')"
      "vip_model v' = vip_model v" for s' v'
  proof (rule wp_release_removed [OF E that(1)])
    show "adopted_vip_ids s' = smap_empty" using ad that(2) by (simp add: settings_def)
    fix s''
    assume "core c True [] f {} {} {} S s''" "rest s' s''"
    then show "Q () s''"
      using that rest_lb(1) [of s' s''] settings_trans [OF that(2) settings_rest] by (intro ok [of s'' v']) simp_all
  qed
  show ?thesis
  proof (cases ch)
    case True
    have "wp (rebuild_locked E f) (\<lambda>_. wp (forM rem (release E)) Q R) R s"
    proof (rule wp_rebuild [OF core(1) v core(3)])
      fix s' bs ring v'
      assume A: "core c True (rem @ []) f {} {} ({} - {f}) ((if ch then insert f S else S) - {f}) s'"
        "settings s s'" "v' = v\<lparr>v_members := mark_members s (v_members v), v_generation := v_generation v + 1\<rparr>"
        "smap_find (vips s') = (smap_find (vips s))(f \<mapsto> v')"
      show "wp (forM rem (release E)) Q R s'"
        by (rule rel [of s' v']) (use A True core(2) in simp_all)
    qed (use err in auto)
    then show ?thesis using True by (simp add: wp_simps)
  next
    case False
    then have "rem = []" using ch by auto
    then have "Q () s" using core(1) False v by (intro ok [of s v]) (auto simp: fun_upd_idem)
    then show ?thesis using False \<open>rem = []\<close> by (simp add: wp_simps)
  qed
qed

text \<open>The middle: the members of a VIP after its flags are written.\<close>

lemma wp_update_members:
  assumes E: "env_ok E" and core: "core c True [] sp {} {} {} S s" and ad: "adopted_vip_ids s = smap_empty"
    and v: "smap_find (vips s) sp = Some v" and nz: "\<And>a. smap_find want a \<noteq> None \<Longrightarrow> a \<noteq> 0"
    and hc: "sp \<in> S \<Longrightarrow> hash_changed" and pin: "\<And>a i. (sp, a, i) \<in> g_pins c \<Longrightarrow> smap_find want a \<noteq> None"
    and rem: "rem = filter (\<lambda>addr. \<not> smap_count want addr) (smap_keys (v_members v))"
    and ok: "\<And>s' v'. core c True [] sp {} {} {} (S - {sp}) s' \<Longrightarrow> settings s s' \<Longrightarrow>
      smap_find (vips s') = (smap_find (vips s))(sp \<mapsto> v') \<Longrightarrow> v_flags v' = v_flags v \<Longrightarrow>
      members_after (snd (vip_model v)) (smap_find want) (snd (vip_model v')) \<Longrightarrow> Q () s'"
    and err: "\<And>e s' D S'. safe c s' \<Longrightarrow> is_runtime_error e \<Longrightarrow>
      \<not> inserts_ok E \<or> no_room (used_addrs s \<union> dom (smap_find want)) s' \<and> core c True [] sp D {} {} S' s' \<Longrightarrow> R e s'"
  shows "wp (seqM (forM rem (remove_member_locked sp))
      (bindM (foldM (items want) (want_member E sp) (hash_changed \<or> rem \<noteq> []))
        (\<lambda>ch. seqM (whenM ch (rebuild_locked E sp)) (forM rem (release E))))) Q R s"
proof -
  let ?fin = "\<lambda>ch. seqM (whenM ch (rebuild_locked E sp)) (forM rem (release E)) :: unit lb_act"
  let ?mid = "bindM (foldM (items want) (want_member E sp) (hash_changed \<or> rem \<noteq> [])) ?fin"
  have rm: "distinct rem" "set rem = member_addrs v - dom (smap_find want)"
    by (auto simp: rem smap_count_def member_addrs_def)
  have fail: "R e s'" if "safe c s'" "is_runtime_error e" "\<not> inserts_ok E" for e s'
    using err [OF that(1,2)] that(3) by blast
  have "wp (forM rem (remove_member_locked sp)) (\<lambda>_. wp ?mid Q R) R s"
  proof (rule wp_remove_members [OF core v rm(1)])
    fix s1 v1
    assume c1: "core c True [] sp ({} \<union> set rem) {} {} (if rem = [] then S else insert sp S) s1" and st1: "settings s s1"
      and v1: "smap_find (vips s1) = (smap_find (vips s))(sp \<mapsto> v1)" "v_flags v1 = v_flags v"
        "smap_find (v_members v1) = smap_find (v_members v) |` (- set rem)"
    have m1: "smap_find (v_members v1) = smap_find (v_members v) |` {a. smap_find want a \<noteq> None}"
      using v1(3) rm(2) by (auto simp: fun_eq_iff restrict_map_def member_addrs_def domIff)
    have c1': "core c True [] sp (set rem) {} {} (if hash_changed \<or> rem \<noteq> [] then insert sp (S - {sp}) else S - {sp}) s1"
      by (rule core_mono [OF c1 [simplified]]) (use hc in \<open>auto split: if_splits\<close>)
    have "holders s1 a \<subseteq> holders s a" for a
      using v1(1,3) v by (auto simp: holders_def member_addrs_def restrict_map_def split: if_splits)
    moreover have "sp \<in> holders s a" if "a \<in> set rem" for a
      using that rm(2) v by (auto simp: holders_def)
    ultimately have used: "used_addrs s1 \<subseteq> used_addrs s"
      using used_addrs_holders [OF coreD(4) [OF c1']] used_addrs_holders [OF coreD(4) [OF core]] by fast
    have "wp (foldM (items want) (want_member E sp) (hash_changed \<or> rem \<noteq> [])) (\<lambda>ch. wp (?fin ch) Q R) R s1"
    proof (rule wp_want_members [OF E c1', of v1])
      show "R e s'" if "safe c s'" "is_runtime_error e" "no_room (used_addrs s1 \<union> fst ` set (items want)) s'"
        "core c True [] sp (set rem) {} {} S' s'" for e s' S'
        using that used unfolding smap.set_keys by (intro err [of s' e "set rem" S']) (auto simp: no_room_def)
      show "a \<noteq> 0 \<and> a \<notin> set [] \<and> a \<notin> set rem" if "(a, w) \<in> set (items want)" for a w
        using that nz [of a] rm(2) by (auto simp: smap.in_entries)
      fix ch s2 v2
      assume c2: "core c True [] sp (set rem) {} {} (if ch then insert sp (S - {sp}) else S - {sp}) s2" and st2: "settings s1 s2"
        and ch: "hash_changed \<or> rem \<noteq> [] \<Longrightarrow> ch"
        and v2: "smap_find (vips s2) = (smap_find (vips s1))(sp \<mapsto> v2)" "after_want v1 (items want) v2"
      have st: "settings s s2" using settings_trans [OF st1 st2] .
      note ma = members_after_want [OF m1 v2(2)]
      show "wp (?fin ch) Q R s2"
      proof (rule wp_finish_update [OF E c2 _ rm(1)])
        fix s3 v3
        assume A: "core c True [] sp {} {} {} (S - {sp}) s3" "settings s2 s3"
          "smap_find (vips s3) = (smap_find (vips s2))(sp \<mapsto> v3)" "vip_model v3 = vip_model v2"
        have "v_flags v3 = v_flags v" using A(4) v2(2) v1(2) by (simp add: vip_model_def after_want_def)
        then show "Q () s3"
          using A v1(1) v2(1) ma settings_trans [OF st A(2)] by (intro ok [of s3 v3]) simp_all
      qed (use fail ch ad st v2(1) in \<open>auto simp: settings_def\<close>)
    qed (use v1(1) smap.distinct_entries in auto)
    then show "wp ?mid Q R s1" by (simp add: wp_simps)
  qed (use rm pin in auto)
  then show ?thesis by (simp add: wp_simps)
qed

lemma wp_update_vip:
  assumes E: "env_ok E" and core: "core c True [] sp {} {} {} S s" and ad: "adopted_vip_ids s = smap_empty"
    and sp: "vc_spec vc = sp" and v: "smap_find (vips s) sp = Some v"
    and nz: "\<And>a. smap_find (want_of vc) a \<noteq> None \<Longrightarrow> a \<noteq> 0" and hc: "sp \<in> S \<Longrightarrow> hash_changed"
    and pin: "\<And>a i. (sp, a, i) \<in> g_pins c \<Longrightarrow> smap_find (want_of vc) a \<noteq> None"
    and ok: "\<And>s' v'. core c True [] sp {} {} {} (S - {sp}) s' \<Longrightarrow> settings s s' \<Longrightarrow>
      smap_find (vips s') = (smap_find (vips s))(sp \<mapsto> v') \<Longrightarrow> v_flags v' = vip_flag_bits (vc_no_conntrack vc) \<Longrightarrow>
      members_after (snd (vip_model v)) (smap_find (want_of vc)) (snd (vip_model v')) \<Longrightarrow> Q () s'"
    and err: "\<And>e s' D S'. safe c s' \<Longrightarrow> is_runtime_error e \<Longrightarrow>
      \<not> inserts_ok E \<or> no_room (used_addrs s \<union> dom (smap_find (want_of vc))) s' \<and> core c True [] sp D {} {} S' s' \<Longrightarrow> R e s'"
  shows "wp (update_vip E hash_changed vc) Q R s"
proof -
  let ?want = "want_of vc" and ?fl = "vip_flag_bits (vc_no_conntrack vc)"
  let ?rem = "\<lambda>v. filter (\<lambda>addr. \<not> smap_count ?want addr) (smap_keys (v_members v))"
  let ?rest = "\<lambda>rem. seqM (forM rem (remove_member_locked sp))
      (bindM (foldM (items ?want) (want_member E sp) (hash_changed \<or> rem \<noteq> []))
        (\<lambda>ch. seqM (whenM ch (rebuild_locked E sp)) (forM rem (release E)))) :: unit lb_act"
  have "wp (update_flags E sp ?fl) (\<lambda>_. wp (bindM (vip_ref sp) (\<lambda>v. bindM (ret (?rem v)) ?rest)) Q R) R s"
  proof (rule wp_update_flags [OF core v])
    let ?v0 = "v\<lparr>v_flags := ?fl\<rparr>"
    fix s0
    assume c0: "core c True [] sp {} {} {} S s0" and st0: "settings s s0"
      and v0: "smap_find (vips s0) = (smap_find (vips s))(sp \<mapsto> ?v0)"
    have used: "used_addrs s0 \<subseteq> used_addrs s"
      using used_addrs_upd [OF coreD(4) [OF core] coreD(4) [OF c0] v v0, of "{}"] by simp
    have "wp (?rest (?rem ?v0)) Q R s0"
    proof (rule wp_update_members [OF E c0 _ _ nz hc pin])
      fix s' v'
      assume A: "core c True [] sp {} {} {} (S - {sp}) s'" "settings s0 s'" "smap_find (vips s') = (smap_find (vips s0))(sp \<mapsto> v')"
        "v_flags v' = v_flags ?v0" "members_after (snd (vip_model ?v0)) (smap_find ?want) (snd (vip_model v'))"
      show "Q () s'"
        using A v0 settings_trans [OF st0 A(2)] by (intro ok [of s' v']) (simp_all add: vip_model_def)
    next
      show "R e s'" if "safe c s'" "is_runtime_error e"
        "\<not> inserts_ok E \<or> no_room (used_addrs s0 \<union> dom (smap_find ?want)) s' \<and> core c True [] sp D {} {} S' s'" for e s' D S'
        using that used by (intro err [of s' e D S']) (auto simp: no_room_def)
    qed (use v0 ad st0 in \<open>simp_all add: settings_def\<close>)
    then show "wp (bindM (vip_ref sp) (\<lambda>v. bindM (ret (?rem v)) ?rest)) Q R s0"
      using v0 by (simp add: wp_simps)
  qed (use err in blast)
  then show ?thesis unfolding update_vip_def Let_def sp by (simp add: wp_simps)
qed

section \<open>All VIPs of a configuration\<close>

definition model_addrs :: "model \<Rightarrow> u32 set" where
  "model_addrs M = {a. \<exists>sp fm. M sp = Some fm \<and> a \<in> dom (snd fm)}"

definition vip_applied :: "vip_config \<Rightarrow> model \<Rightarrow> model \<Rightarrow> bool" where
  "vip_applied vc M M' \<longleftrightarrow>
     (\<exists>ms'. M' = M(vc_spec vc \<mapsto> (vip_flag_bits (vc_no_conntrack vc), ms')) \<and>
        members_after (case M (vc_spec vc) of None \<Rightarrow> Map.empty | Some fm \<Rightarrow> snd fm)
          (map_of (map (\<lambda>r. (rc_addr r, rc_weight r)) (vc_reals vc))) ms')"

fun vips_applied :: "vip_config list \<Rightarrow> model \<Rightarrow> model \<Rightarrow> bool" where
  "vips_applied [] M M' \<longleftrightarrow> M' = M"
| "vips_applied (vc # vcs) M M' \<longleftrightarrow> (\<exists>M1. vip_applied vc M M1 \<and> vips_applied vcs M1 M')"

lemma in_model_addrs: "a \<in> model_addrs (model_of s) \<longleftrightarrow> holders s a \<noteq> {}"
proof
  assume "a \<in> model_addrs (model_of s)"
  then obtain sp fm where A: "model_of s sp = Some fm" "a \<in> dom (snd fm)" unfolding model_addrs_def by blast
  then obtain v where "smap_find (vips s) sp = Some v" "vip_model v = fm" unfolding model_of_def by blast
  then show "holders s a \<noteq> {}" using A(2) by (auto simp: holders_def member_addrs_model)
next
  assume "holders s a \<noteq> {}"
  then obtain sp v where "smap_find (vips s) sp = Some v" "a \<in> member_addrs v" by (auto simp: holders_def)
  then show "a \<in> model_addrs (model_of s)"
    using model_vip unfolding model_addrs_def member_addrs_model by blast
qed

lemma used_addrs_model: "refs_ok [] {} s \<Longrightarrow> used_addrs s = model_addrs (model_of s)"
  by (rule set_eqI) (simp add: used_addrs_holders in_model_addrs)

lemma finite_model_addrs: "finite (model_addrs (model_of s))"
proof -
  have "model_addrs (model_of s) \<subseteq> (\<Union>p \<in> set (items (vips s)). member_addrs (snd p))"
  proof
    fix a
    assume "a \<in> model_addrs (model_of s)"
    then obtain sp v where "smap_find (vips s) sp = Some v" "a \<in> member_addrs v"
      by (auto simp: in_model_addrs holders_def)
    then show "a \<in> (\<Union>p \<in> set (items (vips s)). member_addrs (snd p))"
      by (intro UN_I [of "(sp, v)"]) (simp_all add: smap.in_entries)
  qed
  moreover have "finite (member_addrs v)" for v
    unfolding member_addrs_def by (rule smap.finite_dom_find)
  ultimately show ?thesis by (meson finite_UN_I finite_set finite_subset)
qed

lemma want_of_find: "reals_ok (vc_reals vc) \<Longrightarrow> smap_find (want_of vc) = map_of (map (\<lambda>r. (rc_addr r, rc_weight r)) (vc_reals vc))"
  unfolding want_of_def by (rule smap_find_of_list) (simp add: reals_ok_def comp_def)

lemma dom_want: "dom (map_of (map (\<lambda>r. (rc_addr r, rc_weight r)) rs)) = rc_addr ` set rs"
  by (simp add: dom_map_of_conv_image_fst image_comp)

lemma no_room_model:
  assumes "core c True [] f D U W S s'" "no_room (used_addrs s \<union> rc_addr ` set rs) s'" "refs_ok [] {} s"
  shows "511 < card (model_addrs (model_of s) \<union> rc_addr ` set rs)"
  using no_room_card [OF assms(1,2)] finite_model_addrs used_addrs_model [OF assms(3)] by simp

lemma card_vip_ids: "card (set vip_ids) = 64"
proof -
  have "distinct vip_ids"
    unfolding vip_ids_def distinct_map
    by (auto intro!: inj_onI dest!: arg_cong [of _ _ unat] simp: unat_of_nat)
  then show ?thesis using distinct_card by (fastforce simp: vip_ids_def)
qed

lemma free_vip_id:
  assumes wf: "vips_wf s" and ad: "adopted_vip_ids s = smap_empty" and sub: "dom (smap_find (vips s)) \<subseteq> A - {sp}"
    and A: "finite A" "card A \<le> 64" "sp \<in> A"
  shows "\<exists>i < PB_MAX_VIPS. \<forall>sp. \<not> owner s sp i"
proof (rule ccontr)
  assume "\<not> ?thesis"
  then have all: "\<exists>sp. owner s sp i" if "i < PB_MAX_VIPS" for i using that by blast
  let ?g = "\<lambda>sp. v_id (the (smap_find (vips s) sp))"
  have "set vip_ids \<subseteq> ?g ` dom (smap_find (vips s))"
  proof
    fix i
    assume "i \<in> set vip_ids"
    then obtain sp where "owner s sp i" using all by (auto simp: set_vip_ids)
    then show "i \<in> ?g ` dom (smap_find (vips s))" using ad by (auto simp: owner_def intro!: image_eqI [of _ _ sp])
  qed
  moreover have fin: "finite (dom (smap_find (vips s)))" by (rule smap.finite_dom_find)
  ultimately have "card (set vip_ids) \<le> card (dom (smap_find (vips s)))"
    using card_mono [OF finite_imageI [OF fin], of "set vip_ids" ?g] card_image_le [OF fin, of ?g] by linarith
  also have "\<dots> \<le> card (A - {sp})" by (rule card_mono [OF _ sub]) (use A(1) in simp)
  finally have "card (set vip_ids) < 64" using A by (simp add: card_Diff_singleton)
  then show False by (simp add: card_vip_ids)
qed

lemma wp_apply_vip:
  assumes E: "env_ok E" and core: "core c True [] f {} {} {} S s" and ad: "adopted_vip_ids s = smap_empty"
    and rs: "reals_ok (vc_reals vc)" and hc: "vc_spec vc \<in> S \<Longrightarrow> hash_changed"
    and pin: "\<And>a i. (vc_spec vc, a, i) \<in> g_pins c \<Longrightarrow> a \<in> rc_addr ` set (vc_reals vc)"
    and free: "smap_find (vips s) (vc_spec vc) = None \<Longrightarrow> \<exists>i < PB_MAX_VIPS. \<forall>sp. \<not> owner s sp i"
    and ok: "\<And>s'. core c True [] f {} {} {} (S - {vc_spec vc}) s' \<Longrightarrow> settings s s' \<Longrightarrow>
      vip_applied vc (model_of s) (model_of s') \<Longrightarrow> Q () s'"
    and err: "\<And>e s'. safe c s' \<Longrightarrow> is_runtime_error e \<Longrightarrow>
      \<not> inserts_ok E \<or> 511 < card (model_addrs (model_of s) \<union> rc_addr ` set (vc_reals vc)) \<Longrightarrow> R e s'"
  shows "wp (apply_vip E hash_changed vc) Q R s"
proof -
  let ?sp = "vc_spec vc" and ?fl = "vip_flag_bits (vc_no_conntrack vc)" and ?want = "want_of vc"
  have core': "core c True [] ?sp {} {} {} S s" using core core_focus by blast
  note want = want_of_find [OF rs]
  have wd: "dom (smap_find ?want) = rc_addr ` set (vc_reals vc)" unfolding want by (rule dom_want)
  have nz: "a \<noteq> 0" if "smap_find ?want a \<noteq> None" for a
  proof -
    have "a \<in> rc_addr ` set (vc_reals vc)" using that wd by auto
    then show ?thesis using rs by (auto simp: reals_ok_def)
  qed
  note room = no_room_model [OF _ _ coreD(4) [OF core]]
  show ?thesis
  proof (cases "smap_find (vips s) ?sp")
    case None
    have "wp (create_vip_locked E ?sp ?fl ?want) (\<lambda>_. Q ()) R s"
    proof (rule wp_create_vip [OF E core None nz])
      fix s' v'
      assume A: "core c True [] ?sp {} ({} - {?sp}) ({} - {?sp}) (S - {?sp}) s'" "knobs s s'"
        "smap_find (adopted_vip_ids s') = (smap_find (adopted_vip_ids s))(?sp := None)"
        "smap_find (vips s') = (smap_find (vips s))(?sp \<mapsto> v')" "v_flags v' = ?fl" "member_addrs v' = dom (smap_find ?want)"
        "\<And>a w. smap_find ?want a = Some w \<Longrightarrow> \<exists>m. smap_find (v_members v') a = Some m \<and> new_member w (m\<lparr>in_ring := False\<rparr>)"
      have "adopted_vip_ids s' = adopted_vip_ids s"
        by (rule smap.entries_ext) (use A(3) ad in \<open>auto simp: fun_eq_iff\<close>)
      then have st: "settings s s'" using A(2) by (simp add: settings_knobs)
      have "members_after Map.empty (smap_find ?want) (snd (vip_model v'))"
        using A(6,7) by (fastforce simp: members_after_def member_addrs_model [symmetric] snd_vip_model new_member_def)
      then have "vip_applied vc (model_of s) (model_of s')"
        using model_upd [OF A(4)] A(5) None want by (auto simp: vip_applied_def model_of_def vip_model_def)
      moreover have "core c True [] f {} {} {} (S - {?sp}) s'" using A(1) core_focus [of c True "[]" ?sp _ _ _ _ f] by simp
      ultimately show "Q () s'" using st by (intro ok)
    next
      show "R (ApiError w) s" if "\<forall>i < PB_MAX_VIPS. \<exists>sp. owner s sp i" for w
        using free [OF None] that by blast
      show "R e s'" if "safe c s'" "is_runtime_error e" "\<not> inserts_ok E \<or> ?want \<noteq> smap_empty \<and>
          no_room (used_addrs s \<union> dom (smap_find ?want)) s' \<and> core c True [] ?sp {} {?sp} {?sp} S' s'" for e s' S'
        using that room unfolding wd by (intro err) blast+
    qed
    then show ?thesis using None by (simp add: apply_vip_def wp_simps smap_count_def)
  next
    case (Some v)
    have "wp (update_vip E hash_changed vc) Q R s"
    proof (rule wp_update_vip [OF E core' ad refl Some nz hc])
      show "smap_find ?want a \<noteq> None" if "(?sp, a, i) \<in> g_pins c" for a i using pin [OF that] wd by blast
    next
      fix s' v'
      assume A: "core c True [] ?sp {} {} {} (S - {?sp}) s'" "settings s s'" "smap_find (vips s') = (smap_find (vips s))(?sp \<mapsto> v')"
        "v_flags v' = ?fl" "members_after (snd (vip_model v)) (smap_find ?want) (snd (vip_model v'))"
      have "vip_applied vc (model_of s) (model_of s')"
        using model_upd [OF A(3)] A(4,5) model_vip [OF Some] want by (auto simp: vip_applied_def vip_model_def)
      moreover have "core c True [] f {} {} {} (S - {?sp}) s'" using A(1) core_focus [of c True "[]" ?sp _ _ _ _ f] by simp
      ultimately show "Q () s'" using A(2) by (intro ok)
    next
      show "R e s'" if "safe c s'" "is_runtime_error e" "\<not> inserts_ok E \<or>
          no_room (used_addrs s \<union> dom (smap_find ?want)) s' \<and> core c True [] ?sp D {} {} S' s'" for e s' D S'
        using that room unfolding wd by (intro err) blast+
    qed
    then show ?thesis using Some by (simp add: apply_vip_def wp_simps smap_count_def)
  qed
qed

lemma model_addrs_applied:
  assumes "vip_applied vc M M'"
  shows "model_addrs M' \<subseteq> model_addrs M \<union> rc_addr ` set (vc_reals vc)" "dom M' = insert (vc_spec vc) (dom M)"
proof -
  obtain ms' where M': "M' = M(vc_spec vc \<mapsto> (vip_flag_bits (vc_no_conntrack vc), ms'))"
    and d: "dom ms' = rc_addr ` set (vc_reals vc)"
    using assms unfolding vip_applied_def members_after_def dom_want by blast
  show "dom M' = insert (vc_spec vc) (dom M)" by (auto simp: M')
  show "model_addrs M' \<subseteq> model_addrs M \<union> rc_addr ` set (vc_reals vc)"
  proof
    fix a
    assume "a \<in> model_addrs M'"
    then obtain sp fm where "M' sp = Some fm" "a \<in> dom (snd fm)" unfolding model_addrs_def by blast
    then show "a \<in> model_addrs M \<union> rc_addr ` set (vc_reals vc)"
      using d unfolding M' model_addrs_def by (cases "sp = vc_spec vc") (auto simp del: split_paired_Ex)
  qed
qed

lemma dom_model [simp]: "dom (model_of s) = dom (smap_find (vips s))"
  by (auto simp: model_of_def)

lemma config_addrs_Cons: "config_addrs (vc # vcs) = rc_addr ` set (vc_reals vc) \<union> config_addrs vcs"
  by (simp add: config_addrs_def)

lemma finite_config_addrs: "finite (config_addrs vcs)"
  by (simp add: config_addrs_def)

lemma wp_apply_vips:
  assumes E: "env_ok E"
    and "core c True [] f {} {} {} (if hash_changed then vc_spec ` set vcs else {}) s" "adopted_vip_ids s = smap_empty"
      "\<forall>vc \<in> set vcs. reals_ok (vc_reals vc)" "distinct (map vc_spec vcs)"
      "finite A" "card A \<le> 64" "dom (model_of s) \<subseteq> A" "vc_spec ` set vcs \<subseteq> A"
      "\<And>vc a i. vc \<in> set vcs \<Longrightarrow> (vc_spec vc, a, i) \<in> g_pins c \<Longrightarrow> a \<in> rc_addr ` set (vc_reals vc)"
      "\<And>s'. core c True [] f {} {} {} {} s' \<Longrightarrow> settings s s' \<Longrightarrow> vips_applied vcs (model_of s) (model_of s') \<Longrightarrow> Q () s'"
      "\<And>e s'. safe c s' \<Longrightarrow> is_runtime_error e \<Longrightarrow>
        \<not> inserts_ok E \<or> 511 < card (model_addrs (model_of s) \<union> config_addrs vcs) \<Longrightarrow> R e s'"
  shows "wp (forM vcs (apply_vip E hash_changed)) Q R s"
  using assms(2-)
proof (induction vcs arbitrary: s)
  case Nil
  then have "Q () s" by (intro Nil.prems(10)) (auto split: if_splits)
  then show ?case by (simp add: wp_simps)
next
  case (Cons vc vcs)
  let ?S = "if hash_changed then vc_spec ` set (vc # vcs) else {}"
  have "wp (apply_vip E hash_changed vc) (\<lambda>_. wp (forM vcs (apply_vip E hash_changed)) Q R) R s"
  proof (rule wp_apply_vip [OF E Cons.prems(1,2)])
    show "\<exists>i < PB_MAX_VIPS. \<forall>sp. \<not> owner s sp i" if "smap_find (vips s) (vc_spec vc) = None"
      using Cons.prems(5-8) that
      by (intro free_vip_id [OF coreD(3) [OF Cons.prems(1)] Cons.prems(2), of A "vc_spec vc"]) auto
  next
    fix s1
    assume A: "core c True [] f {} {} {} (?S - {vc_spec vc}) s1" "settings s s1" "vip_applied vc (model_of s) (model_of s1)"
    have "?S - {vc_spec vc} = (if hash_changed then vc_spec ` set vcs else {})" using Cons.prems(4) by auto
    then have c1: "core c True [] f {} {} {} (if hash_changed then vc_spec ` set vcs else {}) s1" using A(1) by simp
    note ma = model_addrs_applied [OF A(3)]
    show "wp (forM vcs (apply_vip E hash_changed)) Q R s1"
    proof (rule Cons.IH [OF c1])
      show "Q () s'" if "core c True [] f {} {} {} {} s'" "settings s1 s'" "vips_applied vcs (model_of s1) (model_of s')" for s'
        using that A(3) settings_trans [OF A(2) that(2)] by (intro Cons.prems(10)) auto
      show "R e s'" if "safe c s'" "is_runtime_error e"
        "\<not> inserts_ok E \<or> 511 < card (model_addrs (model_of s1) \<union> config_addrs vcs)" for e s'
      proof -
        have "card (model_addrs (model_of s1) \<union> config_addrs vcs) \<le> card (model_addrs (model_of s) \<union> config_addrs (vc # vcs))"
          using ma(1) by (intro card_mono) (auto simp: finite_model_addrs finite_config_addrs config_addrs_Cons)
        then show ?thesis using that by (intro Cons.prems(11)) auto
      qed
    qed (use A(2) Cons.prems ma(2) in \<open>auto simp: settings_def\<close>)
  next
    show "R e s'" if "safe c s'" "is_runtime_error e"
      "\<not> inserts_ok E \<or> 511 < card (model_addrs (model_of s) \<union> rc_addr ` set (vc_reals vc))" for e s'
    proof -
      have "card (model_addrs (model_of s) \<union> rc_addr ` set (vc_reals vc)) \<le> card (model_addrs (model_of s) \<union> config_addrs (vc # vcs))"
        by (intro card_mono) (auto simp: finite_model_addrs finite_config_addrs config_addrs_Cons)
      then show ?thesis using that by (intro Cons.prems(11)) auto
    qed
  qed (use Cons.prems(3,9) in \<open>auto split: if_splits\<close>)
  then show ?case by (simp add: wp_simps)
qed

lemma vips_applied_old:
  "vips_applied vcs M M' \<Longrightarrow> sp \<notin> vc_spec ` set vcs \<Longrightarrow> M' sp = M sp"
  by (induction vcs arbitrary: M) (auto simp: vip_applied_def)

lemma vips_applied_dom: "vips_applied vcs M M' \<Longrightarrow> dom M' = dom M \<union> vc_spec ` set vcs"
proof (induction vcs arbitrary: M)
  case (Cons vc vcs)
  then obtain M1 where M1: "vip_applied vc M M1" "vips_applied vcs M1 M'" by auto
  show ?case using Cons.IH [OF M1(2)] model_addrs_applied(2) [OF M1(1)] by auto
qed simp

lemma vips_applied_at:
  assumes "vips_applied vcs M M'" "distinct (map vc_spec vcs)" "vc \<in> set vcs"
  shows "\<exists>M0 M1. M0 (vc_spec vc) = M (vc_spec vc) \<and> vip_applied vc M0 M1 \<and> M' (vc_spec vc) = M1 (vc_spec vc)"
  using assms
proof (induction vcs arbitrary: M)
  case (Cons w vcs)
  then obtain M1 where M1: "vip_applied w M M1" "vips_applied vcs M1 M'" by auto
  show ?case
  proof (cases "vc = w")
    case True
    then show ?thesis using M1 vips_applied_old [OF M1(2), of "vc_spec vc"] Cons.prems(2) by auto
  next
    case False
    then have "vc \<in> set vcs" "vc_spec vc \<noteq> vc_spec w" using Cons.prems(2,3) by (auto simp: image_iff)
    moreover have "M1 (vc_spec vc) = M (vc_spec vc)" if "vc_spec vc \<noteq> vc_spec w"
      using M1(1) that by (auto simp: vip_applied_def)
    ultimately show ?thesis using Cons.IH [OF M1(2)] Cons.prems(2) by auto
  qed
qed simp

lemma reloadedI:
  assumes "vips_applied (c_vips cfg) (M |` (vc_spec ` set (c_vips cfg))) M'" "distinct (map vc_spec (c_vips cfg))"
  shows "reloaded cfg M M'"
  unfolding reloaded_def
proof (intro conjI ballI)
  show "dom M' = vc_spec ` set (c_vips cfg)" using vips_applied_dom [OF assms(1)] by auto
  fix vc
  assume vc: "vc \<in> set (c_vips cfg)"
  obtain M0 M1 where "M0 (vc_spec vc) = M (vc_spec vc)" "vip_applied vc M0 M1" "M' (vc_spec vc) = M1 (vc_spec vc)"
    using vips_applied_at [OF assms vc] vc by auto
  then show "\<exists>ms'. M' (vc_spec vc) = Some (vip_flag_bits (vc_no_conntrack vc), ms') \<and>
      members_after (case M (vc_spec vc) of None \<Rightarrow> Map.empty | Some fm \<Rightarrow> snd fm)
        (map_of (map (\<lambda>r. (rc_addr r, rc_weight r)) (vc_reals vc))) ms'"
    by (auto simp: vip_applied_def)
qed

section \<open>The configuration map and the settings\<close>

lemma wp_write_config_map:
  assumes E: "env_ok E" and core: "core c t pend f D U W S s"
    and ok: "\<And>m s'. core c t pend f D U W S s' \<Longrightarrow> kernel_write s s' \<Longrightarrow> Mac_parse (if_address E (lb_interface s)) = Some m \<Longrightarrow>
      kmaps s' = (kmaps s)\<lparr>config := config_value m cfg\<rparr> \<Longrightarrow> Q () s'"
    and err: "\<And>e. Mac_parse (if_address E (lb_interface s)) = None \<Longrightarrow> is_runtime_error e \<Longrightarrow> R e s"
  shows "wp (write_config_map E cfg) Q R s"
proof (cases "Mac_parse (if_address E (lb_interface s))")
  case None
  then show ?thesis by (simp add: write_config_map_def read_interface_mac_def wp_simps err)
next
  case (Some m)
  let ?k = "(kmaps s)\<lparr>config := config_value m cfg\<rparr>"
  let ?s = "s\<lparr>kmaps := ?k, ktrace := ?k # ktrace s, ticks := ticks s + 1\<rparr>"
  have kw: "kernel_write s ?s" by (simp add: kernel_write_def settings_def same_table_def)
  have "entries_ok U ?s"
    using entries_ok_same [of s ?s U] coreD(6) [OF core] by (simp add: same_table_def)
  then have "core c t pend f D U W S ?s" by (rule core_kernel_write [OF core kw]) auto
  then have "Q () ?s" using kw Some by (rule ok) simp
  moreover have "sys E SysConfig (ticks s) = 0" using E by (simp add: env_ok_def arrays_ok_def)
  ultimately show ?thesis using Some by (simp add: write_config_map_def read_interface_mac_def wp_simps)
qed

text \<open>New settings: the rings are out of date only if the hash mode changed.\<close>

lemma core_new_settings:
  assumes core: "core c t pend f D U W S s"
  shows "core c t pend f D U W (if lb_hash s \<noteq> h then UNIV else S)
    (s\<lparr>lb_health_enabled := b, lb_next_hop := n, lb_hash := h\<rparr>)"
proof -
  let ?s = "s\<lparr>lb_health_enabled := b, lb_next_hop := n, lb_hash := h\<rparr>"
  note C = coreD [OF core]
  have st: "same_table s ?s" by (simp add: same_table_def)
  have "fresh_ok (if lb_hash s \<noteq> h then UNIV else S) ?s"
    using C(8) same_table_fresh [OF st] by (auto simp: fresh_ok_def)
  moreover have "rt_inv ?s" using C(1) same_table_rt_inv [OF st] by simp
  moreover have "owner ?s = owner s" by (simp add: owner_def fun_eq_iff)
  moreover have "holders ?s = holders s" by (simp add: holders_def fun_eq_iff)
  moreover have "ring_uses ?s = ring_uses s" using same_table_ring_uses [OF st] by (simp add: fun_eq_iff)
  ultimately show ?thesis
    using C same_table_simps(3,4,7) [OF st]
    by (simp add: core_def vips_wf_def refs_ok_def entries_ok_def rings_ok_def safe_def pins_ok_def)
qed

section \<open>VIPs that are no longer wanted\<close>

lemma wp_drop_all:
  assumes E: "env_ok E" and pin: "\<And>sp a i. (sp, a, i) \<in> g_pins c \<Longrightarrow> sp \<in> wanted" and "core c True [] f {} {} {} S s" "adopted_vip_ids s = smap_empty"
    "\<And>s'. core c True [] f {} {} {} S s' \<Longrightarrow> settings s s' \<Longrightarrow>
      (\<And>sp. smap_find (vips s') sp = (if sp \<in> set sps \<and> sp \<notin> wanted then None else smap_find (vips s) sp)) \<Longrightarrow> Q () s'"
  shows "wp (forM sps (drop_unwanted E wanted)) Q R s"
  using assms(3-)
proof (induction sps arbitrary: s)
  case Nil
  then show ?case by (simp add: wp_simps)
next
  case (Cons sp sps)
  have step: "wp (forM sps (drop_unwanted E wanted)) Q R s1"
    if "core c True [] f {} {} {} S s1" "settings s s1"
      "smap_find (vips s1) = (if sp \<in> wanted then smap_find (vips s) else (smap_find (vips s))(sp := None))" for s1
  proof (rule Cons.IH [OF that(1)])
    show "adopted_vip_ids s1 = smap_empty" using Cons.prems(2) that(2) by (simp add: settings_def)
    fix s'
    assume A: "core c True [] f {} {} {} S s'" "settings s1 s'"
      "\<And>sp. smap_find (vips s') sp = (if sp \<in> set sps \<and> sp \<notin> wanted then None else smap_find (vips s1) sp)"
    show "Q () s'" by (rule Cons.prems(3) [OF A(1) settings_trans [OF that(2) A(2)]]) (auto simp: A(3) that(3))
  qed
  have "wp (drop_unwanted E wanted sp) (\<lambda>_. wp (forM sps (drop_unwanted E wanted)) Q R) R s"
  proof (cases "sp \<in> wanted \<or> smap_find (vips s) sp = None")
    case True
    then have "wp (forM sps (drop_unwanted E wanted)) Q R s"
      using Cons.prems(1) by (intro step) (auto simp: fun_upd_idem)
    then show ?thesis using True by (auto simp: drop_unwanted_def delete_vip_locked_def wp_simps)
  next
    case False
    then obtain v where v: "smap_find (vips s) sp = Some v" by auto
    have "wp (delete_vip_locked E sp) (\<lambda>_. wp (forM sps (drop_unwanted E wanted)) Q R) R s"
      by (rule wp_delete_vip [OF E Cons.prems(1,2) v], use False pin in blast, rule step) (use False in simp_all)
    then show ?thesis using False by (simp add: drop_unwanted_def wp_simps)
  qed
  then show ?case by (simp add: wp_simps)
qed

section \<open>Reload\<close>

lemma wp_seq_ret: "wp (seqM m (ret ())) Q R = wp m Q R" for m :: "('s, unit) act"
  by (simp add: fun_eq_iff wp_simps)

text \<open>A reload has room if the reals in use and the wanted ones fit in the table together.\<close>

definition fits :: "config_data \<Rightarrow> model \<Rightarrow> bool" where
  "fits cfg M \<longleftrightarrow> card (model_addrs M \<union> config_addrs (c_vips cfg)) \<le> 511"

lemma model_addrs_restrict: "model_addrs (M |` A) \<subseteq> model_addrs M"
  by (force simp: model_addrs_def restrict_map_def split: if_splits)

lemma core_stale:
  assumes "core c t [] f {} {} {} UNIV s" "dom (smap_find (vips s)) \<subseteq> S"
  shows "core c t [] f {} {} {} S s"
  using assms by (auto simp: core_def fresh_ok_def)

lemma op_keeps_spec: "op_keeps c (Apply cfg) \<Longrightarrow> (sp, a, i) \<in> g_pins c \<Longrightarrow> sp \<in> vc_spec ` set (c_vips cfg)"
  by (fastforce simp: op_keeps_def)

lemma op_keeps_reals:
  assumes "op_keeps c (Apply cfg)" "config_ok cfg" "vc \<in> set (c_vips cfg)" "(vc_spec vc, a, i) \<in> g_pins c"
  shows "a \<in> rc_addr ` set (vc_reals vc)"
proof -
  obtain w where w: "w \<in> set (c_vips cfg)" "vc_spec w = vc_spec vc" "a \<in> rc_addr ` set (vc_reals w)"
    using assms(1,4) unfolding op_keeps_def by (simp only: lb_op.case) blast
  then have "w = vc" using assms(2,3) by (auto simp: config_ok_def distinct_map dest: inj_onD)
  then show ?thesis using w(3) by simp
qed

definition set_to :: "config_data \<Rightarrow> lb \<Rightarrow> bool" where
  "set_to cfg s \<longleftrightarrow> lb_hash s = c_hash cfg \<and> lb_next_hop s = c_next_hop cfg \<and>
     lb_health_enabled s = hc_enabled (c_health cfg)"

lemma wp_reload_vips:
  assumes E: "env_ok E" and core: "core c True [] f {} {} {} (if hc then UNIV else {}) s" and cfg: "config_ok cfg"
    and pin: "op_keeps c (Apply cfg)" and s: "adopted_vip_ids s = smap_empty" "lb_initialized s" "set_to cfg s"
    and ok: "\<And>s'. lb_inv c s' \<Longrightarrow> reloaded cfg (model_of s) (model_of s') \<Longrightarrow> set_to cfg s' \<Longrightarrow> Q () s'"
    and err: "\<And>e s'. safe c s' \<Longrightarrow> is_runtime_error e \<Longrightarrow> \<not> inserts_ok E \<or> \<not> fits cfg (model_of s) \<Longrightarrow> R e s'"
  shows "wp (seqM (forM (smap_keys (vips s)) (drop_unwanted E (vc_spec ` set (c_vips cfg))))
    (forM (c_vips cfg) (apply_vip E hc))) Q R s"
proof -
  let ?W = "vc_spec ` set (c_vips cfg)"
  have "wp (forM (smap_keys (vips s)) (drop_unwanted E ?W)) (\<lambda>_. wp (forM (c_vips cfg) (apply_vip E hc)) Q R) R s"
  proof (rule wp_drop_all [OF E _ core s(1)])
    show "sp \<in> ?W" if "(sp, a, i) \<in> g_pins c" for sp a i using op_keeps_spec [OF pin that] .
    fix s2
    assume c2: "core c True [] f {} {} {} (if hc then UNIV else {}) s2" and st2: "settings s s2"
      and v2: "\<And>sp. smap_find (vips s2) sp = (if sp \<in> set (smap_keys (vips s)) \<and> sp \<notin> ?W then None else smap_find (vips s) sp)"
    have M2: "model_of s2 = model_of s |` ?W"
      using v2 by (auto simp: model_of_def fun_eq_iff restrict_map_def)
    have d2: "dom (model_of s2) \<subseteq> ?W" using M2 by (metis dom_restrict inf_le2)
    have c2': "core c True [] f {} {} {} (if hc then ?W else {}) s2"
      using c2 core_stale [of c True f s2 ?W] d2 by (auto split: if_splits)
    have c64: "card ?W \<le> 64"
      using cfg card_image_le [of "set (c_vips cfg)" vc_spec] card_length [of "c_vips cfg"] by (simp add: config_ok_def)
    show "wp (forM (c_vips cfg) (apply_vip E hc)) Q R s2"
    proof (rule wp_apply_vips [OF E c2' _ _ _ _ c64 d2 subset_refl])
      show "a \<in> rc_addr ` set (vc_reals vc)" if "vc \<in> set (c_vips cfg)" "(vc_spec vc, a, i) \<in> g_pins c" for vc a i
        by (rule op_keeps_reals [OF pin cfg that])
    next
      fix s3
      assume A: "core c True [] f {} {} {} {} s3" "settings s2 s3" "vips_applied (c_vips cfg) (model_of s2) (model_of s3)"
      note st = settings_trans [OF st2 A(2)]
      have "lb_inv c s3" using st s by (intro lb_invI [OF A(1)]) (simp_all add: settings_def)
      moreover have "reloaded cfg (model_of s) (model_of s3)"
        using reloadedI A(3) M2 cfg by (simp add: config_ok_def)
      ultimately show "Q () s3" using st s by (intro ok) (simp_all add: settings_def set_to_def)
    next
      fix e and s3 :: lb
      assume A: "safe c s3" "is_runtime_error e"
        "\<not> inserts_ok E \<or> 511 < card (model_addrs (model_of s2) \<union> config_addrs (c_vips cfg))"
      have "card (model_addrs (model_of s2) \<union> config_addrs (c_vips cfg)) \<le> card (model_addrs (model_of s) \<union> config_addrs (c_vips cfg))"
        using model_addrs_restrict [of "model_of s" ?W] M2
        by (intro card_mono) (auto simp: finite_model_addrs finite_config_addrs)
      then show "R e s3" using A by (intro err) (auto simp: fits_def)
    qed (use cfg st2 s(1) in \<open>auto simp: config_ok_def settings_def\<close>)
  qed
  then show ?thesis by (simp add: wp_simps)
qed

lemma wp_reload:
  assumes E: "env_ok E" and inv: "lb_inv c s" and cfg: "config_ok cfg" and pin: "op_keeps c (Apply cfg)"
    and ok: "\<And>s'. lb_inv c s' \<Longrightarrow> reloaded cfg (model_of s) (model_of s') \<Longrightarrow> set_to cfg s' \<Longrightarrow> Q () s'"
    and unread: "\<And>e. is_runtime_error e \<Longrightarrow> Mac_parse (if_address E (lb_interface s)) = None \<Longrightarrow> R e s"
    and err: "\<And>e s'. safe c s' \<Longrightarrow> is_runtime_error e \<Longrightarrow> \<not> inserts_ok E \<or> \<not> fits cfg (model_of s) \<Longrightarrow> R e s'"
  shows "wp (apply_config E cfg) Q R s"
proof -
  let ?W = "vc_spec ` set (c_vips cfg)" and ?f = "VipSpec 0 0 0"
  have ini: "lb_initialized s" and ad: "adopted_vip_ids s = smap_empty" using inv by (simp_all add: lb_inv_def)
  let ?set = "\<lambda>s. s\<lparr>lb_health_enabled := hc_enabled (c_health cfg), lb_next_hop := c_next_hop cfg, lb_hash := c_hash cfg\<rparr>"
  let ?tail = "bindM (gets (\<lambda>s. lb_hash s \<noteq> c_hash cfg)) (\<lambda>hc. seqM (modify ?set) (bindM (gets (\<lambda>s. smap_keys (vips s))) (\<lambda>sps.
    seqM (forM sps (drop_unwanted E ?W)) (seqM (forM (c_vips cfg) (apply_vip E hc)) (whenM False (finish_startup E)))))) :: unit lb_act"
  have "wp (write_config_map E cfg) (\<lambda>_. wp ?tail Q R) R s"
  proof (rule wp_write_config_map [OF E lb_inv_core [OF inv, of ?f]])
    fix m s1
    assume A: "core c True [] ?f {} {} {} {} s1" "kernel_write s s1"
    let ?s = "?set s1"
    have v: "vips s1 = vips s" "vips ?s = vips s1" using A(2) by (simp_all add: kernel_write_def)
    have M: "model_of ?s = model_of s" using v by (simp add: model_of_def)
    have "wp (seqM (forM (smap_keys (vips ?s)) (drop_unwanted E ?W))
        (forM (c_vips cfg) (apply_vip E (lb_hash s1 \<noteq> c_hash cfg)))) Q R ?s"
    proof (rule wp_reload_vips [OF E core_new_settings [OF A(1)] cfg pin])
      show "set_to cfg ?s" by (simp add: set_to_def)
      show "R e s'" if "safe c s'" "is_runtime_error e" "\<not> inserts_ok E \<or> \<not> fits cfg (model_of ?s)" for e s'
        using that unfolding M by (rule err)
      show "Q () s'" if "lb_inv c s'" "reloaded cfg (model_of ?s) (model_of s')" "set_to cfg s'" for s'
        using that unfolding M by (rule ok)
    qed (use A(2) ad ini in \<open>simp_all add: kernel_write_def settings_def\<close>)
    then show "wp ?tail Q R s1" by (simp add: wp_simps whenM_def wp_seq_ret)
  qed (use unread in blast)
  then show ?thesis using ini by (simp add: apply_config_def wp_simps)
qed

end
