(* ===== verification/Lb_Startup.thy ===== *)
theory Lb_Startup
  imports Lb_Apply
begin

text \<open>
  The first \<^verbatim>\<open>LbState::apply\<close> of a daemon.  It starts from the maps it finds: empty ones, or whatever
  a previous daemon left there, at any point of its life (\<open>pinned_state\<close> holds after each of its writes).
\<close>

section \<open>Adopting the pinned maps\<close>

definition just_started :: "lb \<Rightarrow> bool" where
  "just_started s \<longleftrightarrow> fresh_table s \<and> vips s = smap_empty \<and> adopted_vip_ids s = smap_empty \<and> \<not> lb_initialized s"

lemma wp_adopt_vips:
  assumes "\<And>k. k \<in> set keys \<Longrightarrow> vk_pad k = 0 \<and> vip_map (kmaps s) k \<noteq> None"
    "\<And>s'. knobs s s' \<Longrightarrow> vips s' = vips s \<Longrightarrow> same_table s s' \<Longrightarrow> kmaps s' = kmaps s \<Longrightarrow> ktrace s' = ktrace s \<Longrightarrow>
      (\<And>sp. smap_find (adopted_vip_ids s') sp =
        (if VipSpec_key sp \<in> set keys then map_option vip_id (vip_map (kmaps s) (VipSpec_key sp))
         else smap_find (adopted_vip_ids s) sp)) \<Longrightarrow> Q () s'"
  shows "wp (forM keys adopt_vip) Q R s"
  using assms
proof (induction keys arbitrary: s)
  case Nil
  have "Q () s" by (rule Nil.prems) (simp_all add: same_table_def)
  then show ?case by (simp add: wp_simps)
next
  case (Cons k keys)
  then obtain v where v: "vip_map (kmaps s) k = Some v" and pad: "vk_pad k = 0" by force
  obtain sp0 where k: "k = VipSpec_key sp0" using VipSpec_key_spec [OF pad] by metis
  let ?s = "s\<lparr>adopted_vip_ids := smap_insert (key_spec k) (vip_id v) (adopted_vip_ids s)\<rparr>"
  have "wp (forM keys adopt_vip) Q R ?s"
  proof (rule Cons.IH)
    fix s'
    assume A: "knobs ?s s'" "vips s' = vips ?s" "same_table ?s s'" "kmaps s' = kmaps ?s" "ktrace s' = ktrace ?s"
      "\<And>sp. smap_find (adopted_vip_ids s') sp =
        (if VipSpec_key sp \<in> set keys then map_option vip_id (vip_map (kmaps ?s) (VipSpec_key sp))
         else smap_find (adopted_vip_ids ?s) sp)"
    show "Q () s'"
      by (rule Cons.prems(2))
        (use A v in \<open>auto simp: knobs_def same_table_def k\<close>)
  qed (use Cons.prems(1) in auto)
  moreover have "wp (adopt_vip k) Q' R s = Q' () ?s" for Q' using v by (simp add: adopt_vip_def wp_simps)
  ultimately show ?case by (simp add: wp_simps)
qed

lemma core_adopted:
  assumes sf: "safe c s0" and rt: "rt_inv s" and k: "kmaps s = kmaps s0" "ktrace s = ktrace s0"
    and vp: "vips s = smap_empty" and sl: "slots s = pinned_slot (kmaps s0)"
    and ad: "\<And>sp. smap_find (adopted_vip_ids s) sp = map_option vip_id (vip_map (kmaps s0) (VipSpec_key sp))"
  shows "core c False [] f {} {} {} {} s"
proof -
  note ps = safeD [OF sf]
  have ow: "owner s sp i \<longleftrightarrow> (\<exists>val. vip_map (kmaps s0) (VipSpec_key sp) = Some val \<and> vip_id val = i)" for sp i
    by (auto simp: owner_def vp ad)
  have wf: "vips_wf s"
    unfolding vips_wf_def
  proof (intro conjI allI impI)
    show "i < PB_MAX_VIPS" if "owner s sp i" for sp i
      using that ps(1) unfolding ow pinned_state_def dp_safe_def by blast
    show "sp = sp'" if "owner s sp i \<and> owner s sp' i" for sp sp' i
    proof -
      have "VipSpec_key sp = VipSpec_key sp'"
        using that ps(1) unfolding ow pinned_state_def by metis
      then show ?thesis by simp
    qed
  qed (simp_all add: vp)
  have use: "mac_known s a i" if "real_addr (reals (kmaps s0) i) = a" "usable_real (kmaps s0) i" for a i
  proof -
    have "i \<noteq> 0" using that(2) ps(1) by (auto simp: usable_real_def pinned_state_def)
    then have v: "valid_id i" using that(2) by (simp add: usable_real_def valid_id_def word_gt_0)
    then show ?thesis
      using usable_mac_known [OF rt _ v] rt_inv_mirrors [OF rt v] that by (simp add: k mirrors_def)
  qed
  have "entries_ok {} s"
    unfolding entries_ok_def k(1)
  proof (intro conjI allI impI)
    show "finite (dom (vip_map (kmaps s0)))" using ps(1) by (simp add: pinned_state_def)
    fix key val
    assume A: "vip_map (kmaps s0) key = Some val"
    then have "vk_pad key = 0" using ps(1) by (simp add: pinned_state_def)
    then have "key = VipSpec_key (key_spec key)" using VipSpec_key_spec by simp
    then show "\<exists>sp. key = VipSpec_key sp \<and> owner s sp (vip_id val)" using A unfolding ow by metis
    obtain ring where "rings (kmaps s0) (vip_id val) = Some ring" "length ring = unat PB_RING_SIZE"
      "\<forall>r \<in> set ring. r = PB_REAL_NONE \<or> usable_real (kmaps s0) r"
      using A ps(1) unfolding pinned_state_def dp_safe_def by blast
    then show "ring_uses s UNIV (vip_id val)" using use unfolding ring_uses_def k(1) by blast
  qed (simp_all add: vp)
  moreover have "refs s a = 0" for a
    using sl by (simp add: refs_def pinned_slot_def split: option.split)
  then have "refs_ok [] {} s" by (simp add: refs_ok_def holders_def vp)
  moreover have "pins_ok c False s"
    using ps(2) use unfolding pins_ok_def kept_def by blast
  moreover have "safe c s" using sf k by (simp add: safe_def)
  ultimately show ?thesis
    using rt wf by (simp add: core_def tight_def rings_ok_def fresh_ok_def vp)
qed

lemma wp_adopt_locked:
  assumes law: "keys_law E" and st: "just_started s" and sf: "safe c s"
    and ok: "\<And>s'. core c False [] f {} {} {} {} s' \<Longrightarrow> knobs s s' \<Longrightarrow> vips s' = smap_empty \<Longrightarrow> kmaps s' = kmaps s \<Longrightarrow>
      (\<And>sp. smap_find (adopted_vip_ids s') sp = map_option vip_id (vip_map (kmaps s) (VipSpec_key sp))) \<Longrightarrow> Q () s'"
  shows "wp (adopt_locked E) Q R s"
proof -
  let ?keys = "\<lambda>s. vip_keys E (vip_map (kmaps s))"
  have ps: "pinned_state (kmaps s)" using safeD(1) [OF sf] .
  then have fin: "finite (dom (vip_map (kmaps s)))" by (simp add: pinned_state_def)
  have "wp adopt (\<lambda>_. wp (bindM (gets ?keys) (\<lambda>keys. forM keys adopt_vip)) Q R) R s"
  proof (rule wp_use [OF adopt_spec [of s]])
    fix s1
    assume A: "rt_inv s1 \<and> rest s s1 \<and> kmaps s1 = kmaps s \<and> ktrace s1 = ktrace s \<and> slots s1 = pinned_slot (kmaps s)"
    have lb1: "vips s1 = smap_empty" "adopted_vip_ids s1 = smap_empty" "knobs s s1"
      using rest_lb [of s s1] A st by (simp_all add: just_started_def knobs_def)
    have keys: "set (?keys s1) = dom (vip_map (kmaps s))"
      using law fin A by (simp add: keys_law_def)
    have "wp (forM (?keys s1) adopt_vip) Q R s1"
    proof (rule wp_adopt_vips)
      show "vk_pad k = 0 \<and> vip_map (kmaps s1) k \<noteq> None" if "k \<in> set (?keys s1)" for k
        using that ps A unfolding keys by (auto simp: pinned_state_def)
      fix s2
      assume B: "knobs s1 s2" "vips s2 = vips s1" "same_table s1 s2" "kmaps s2 = kmaps s1" "ktrace s2 = ktrace s1"
        "\<And>sp. smap_find (adopted_vip_ids s2) sp =
          (if VipSpec_key sp \<in> set (?keys s1) then map_option vip_id (vip_map (kmaps s1) (VipSpec_key sp))
           else smap_find (adopted_vip_ids s1) sp)"
      have ad: "smap_find (adopted_vip_ids s2) sp = map_option vip_id (vip_map (kmaps s) (VipSpec_key sp))" for sp
        unfolding B(6) keys lb1 using A by (auto simp: domIff)
      have "rt_inv s2" using A B(4) same_table_rt_inv [OF B(3)] by simp
      moreover have "slots s2 = pinned_slot (kmaps s)" using A B(3) by (simp add: same_table_def)
      ultimately have "core c False [] f {} {} {} {} s2"
        using A B lb1 ad by (intro core_adopted [OF sf]) simp_all
      then show "Q () s2" using A B lb1 ad knobs_trans [OF lb1(3) B(1)] by (intro ok) simp_all
    qed
    then show "wp (bindM (gets ?keys) (\<lambda>keys. forM keys adopt_vip)) Q R s1" by (simp add: wp_simps)
  qed (use st ps in \<open>auto simp: just_started_def pinned_state_def\<close>)
  then show ?thesis by (simp add: adopt_locked_def wp_simps)
qed

section \<open>Creating the configured VIPs\<close>

lemma wp_apply_new:
  assumes "smap_find (vips s) (vc_spec vc) = None"
    "wp (create_vip_locked E (vc_spec vc) (vip_flag_bits (vc_no_conntrack vc)) (want_of vc)) (\<lambda>_. Q ()) R s"
  shows "wp (apply_vip E hc vc) Q R s"
  using assms by (simp add: apply_vip_def wp_simps smap_count_def)

lemma wp_startup_vips:
  assumes E: "env_ok E" and "core c False [] f {} {} {} {} s" "\<forall>vc \<in> set vcs. reals_ok (vc_reals vc)"
      "distinct (map vc_spec vcs)" "vc_spec ` set vcs \<inter> dom (model_of s) = {}"
    and "\<And>s'. core c False [] f {} {} {} {} s' \<Longrightarrow> knobs s s' \<Longrightarrow> vips_applied vcs (model_of s) (model_of s') \<Longrightarrow>
      (\<And>sp i. owner s sp i \<Longrightarrow> owner s' sp i) \<Longrightarrow> Q () s'"
    and "\<And>e s'. vcs \<noteq> [] \<Longrightarrow> safe c s' \<Longrightarrow> R e s'"
  shows "wp (forM vcs (apply_vip E hc)) Q R s"
  using assms(2-7)
proof (induction vcs arbitrary: s)
  case Nil
  then have "Q () s" by (intro Nil.prems(5)) auto
  then show ?case by (simp add: wp_simps)
next
  case (Cons vc vcs)
  let ?sp = "vc_spec vc" and ?want = "want_of vc" and ?fl = "vip_flag_bits (vc_no_conntrack vc)"
  have rs: "reals_ok (vc_reals vc)" using Cons.prems(2) by simp
  have None: "smap_find (vips s) ?sp = None" using Cons.prems(4) by auto
  note want = want_of_find [OF rs]
  have nz: "a \<noteq> 0" if "smap_find ?want a \<noteq> None" for a
  proof -
    have "a \<in> rc_addr ` set (vc_reals vc)" using that unfolding want dom_want [symmetric] by blast
    then show ?thesis using rs by (auto simp: reals_ok_def)
  qed
  have "wp (create_vip_locked E ?sp ?fl ?want) (\<lambda>_. wp (forM vcs (apply_vip E hc)) Q R) R s"
  proof (rule wp_create_vip [OF E Cons.prems(1) None nz])
    fix s1 v
    assume A: "core c False [] ?sp {} ({} - {?sp}) ({} - {?sp}) ({} - {?sp}) s1" "knobs s s1"
      "smap_find (adopted_vip_ids s1) = (smap_find (adopted_vip_ids s))(?sp := None)"
      "smap_find (vips s1) = (smap_find (vips s))(?sp \<mapsto> v)" "v_flags v = ?fl"
      "smap_find (adopted_vip_ids s) ?sp \<in> {None, Some (v_id v)}" "member_addrs v = dom (smap_find ?want)"
      "\<And>a w. smap_find ?want a = Some w \<Longrightarrow> \<exists>m. smap_find (v_members v) a = Some m \<and> new_member w (m\<lparr>in_ring := False\<rparr>)"
    have c1: "core c False [] f {} {} {} {} s1" using A(1) core_focus [of c False "[]" ?sp _ _ _ _ f] by simp
    have "members_after Map.empty (smap_find ?want) (snd (vip_model v))"
      using A(7,8) by (fastforce simp: members_after_def member_addrs_model [symmetric] snd_vip_model new_member_def)
    then have va: "vip_applied vc (model_of s) (model_of s1)"
      using model_upd [OF A(4)] A(5) None want by (auto simp: vip_applied_def model_of_def vip_model_def)
    have ow: "owner s1 sp i" if "owner s sp i" for sp i
      using that A(3,4,6) None by (auto simp: owner_def)
    show "wp (forM vcs (apply_vip E hc)) Q R s1"
    proof (rule Cons.IH [OF c1])
      show "vc_spec ` set vcs \<inter> dom (model_of s1) = {}"
        using model_addrs_applied(2) [OF va] Cons.prems(3,4) by auto
      show "Q () s'" if "core c False [] f {} {} {} {} s'" "knobs s1 s'" "vips_applied vcs (model_of s1) (model_of s')"
        "\<And>sp i. owner s1 sp i \<Longrightarrow> owner s' sp i" for s'
        using that va ow knobs_trans [OF A(2) that(2)] by (intro Cons.prems(5)) auto
    qed (use Cons.prems(2,3,6) in simp_all)
  qed (use Cons.prems(6) coreD(2) [OF Cons.prems(1)] in blast)+
  then show ?case using wp_apply_new [OF None] by (simp add: wp_simps)
qed

section \<open>Finishing the start-up\<close>

lemma core_forget_dead:
  "core c t [] f {} {sp} {} {} s \<Longrightarrow> smap_find (vips s) sp = None \<Longrightarrow> core c t [] f {} {} {} {} s"
  unfolding core_def entries_ok_def by (metis insertE option.distinct(1) singletonD)

lemma wp_drop_pinned:
  assumes E: "env_ok E" and core: "core c False [] f {} {} {} {} s" and ad: "smap_find (adopted_vip_ids s) sp = Some i"
    and pin: "\<And>a j. (sp, a, j) \<notin> g_pins c"
    and ok: "\<And>s'. core c False [] f {} {} {} {} s' \<Longrightarrow> settings s s' \<Longrightarrow> vips s' = vips s \<Longrightarrow>
      vip_map (kmaps s') = (vip_map (kmaps s))(VipSpec_key sp := None) \<Longrightarrow> Q () s'"
  shows "wp (drop_pinned E (sp, i)) Q R s"
proof -
  note C = coreD [OF core]
  have no: "smap_find (vips s) sp = None" using vips_wfD(4) [OF C(3) ad] .
  have own: "sp' = sp" if "owner s sp' i" for sp'
    using vips_wfD(3) [OF C(3) that] ad by (auto simp: owner_def)
  have "wp (vip_map_delete E sp) (\<lambda>_. wp (remove_ring E i) Q R) R s"
  proof (rule wp_vip_map_delete [OF E core pin])
    fix s1
    assume A: "core c False [] f {} {sp} {} {} s1" "vips s1 = vips s" "settings s s1"
      "vip_map (kmaps s1) = (vip_map (kmaps s))(VipSpec_key sp := None)"
    have c1: "core c False [] f {} {} {} {} s1" by (rule core_forget_dead [OF A(1)]) (simp add: A(2) no)
    have ow: "owner s1 = owner s" using A(2,3) by (simp add: owner_def settings_def fun_eq_iff)
    show "wp (remove_ring E i) Q R s1"
    proof (rule wp_remove_ring [OF E c1])
      show "vip_id val \<noteq> i" if M: "vip_map (kmaps s1) k = Some val" for k val
      proof -
        obtain sp' where "k = VipSpec_key sp'" "owner s sp' (vip_id val)"
          using coreD(6) [OF c1] M unfolding entries_ok_def ow by blast
        then show ?thesis using M own A(4) by auto
      qed
      show "sp' \<in> {} \<and> sp' \<in> {}" if "smap_find (vips s1) sp' = Some v" "v_id v = i" for sp' v
        using own [of sp'] that no A(2) by (auto simp: owner_def)
      show "Q () s2" if "core c False [] f {} {} {} {} s2" "vips s2 = vips s1" "settings s1 s2"
        "vip_map (kmaps s2) = vip_map (kmaps s1)" for s2
        using that A settings_trans [OF A(3) that(3)] by (intro ok) simp_all
    qed
  qed
  then show ?thesis using no by (simp add: drop_pinned_def wp_simps smap_count_def)
qed

lemma wp_drop_all_pinned:
  assumes E: "env_ok E" and "core c False [] f {} {} {} {} s"
    "\<And>sp i. (sp, i) \<in> set ps \<Longrightarrow> smap_find (adopted_vip_ids s) sp = Some i"
    and pin: "\<And>sp i a j. (sp, i) \<in> set ps \<Longrightarrow> (sp, a, j) \<notin> g_pins c"
    and "\<And>s'. core c False [] f {} {} {} {} s' \<Longrightarrow> settings s s' \<Longrightarrow> vips s' = vips s \<Longrightarrow>
      (\<And>sp. vip_map (kmaps s') (VipSpec_key sp) = (if sp \<in> fst ` set ps then None else vip_map (kmaps s) (VipSpec_key sp))) \<Longrightarrow> Q () s'"
  shows "wp (forM ps (drop_pinned E)) Q R s"
  using assms(2-)
proof (induction ps arbitrary: s)
  case Nil
  then have "Q () s" by (intro Nil.prems(4)) auto
  then show ?case by (simp add: wp_simps)
next
  case (Cons p ps)
  obtain sp i where p: "p = (sp, i)" by (cases p)
  have "wp (drop_pinned E (sp, i)) (\<lambda>_. wp (forM ps (drop_pinned E)) Q R) R s"
  proof (rule wp_drop_pinned [OF E Cons.prems(1)])
    fix s1
    assume A: "core c False [] f {} {} {} {} s1" "settings s s1" "vips s1 = vips s"
      "vip_map (kmaps s1) = (vip_map (kmaps s))(VipSpec_key sp := None)"
    show "wp (forM ps (drop_pinned E)) Q R s1"
    proof (rule Cons.IH [OF A(1)])
      show "smap_find (adopted_vip_ids s1) sp' = Some j" if "(sp', j) \<in> set ps" for sp' j
        using Cons.prems(2) [of sp' j] A(2) that by (simp add: settings_def)
      show "(sp', a, k) \<notin> g_pins c" if "(sp', j) \<in> set ps" for sp' j a k
        using Cons.prems(3) [of sp' j] that by simp
      show "Q () s'" if "core c False [] f {} {} {} {} s'" "settings s1 s'" "vips s' = vips s1"
        "\<And>sp. vip_map (kmaps s') (VipSpec_key sp) = (if sp \<in> fst ` set ps then None else vip_map (kmaps s1) (VipSpec_key sp))" for s'
        using that A settings_trans [OF A(2) that(2)] by (intro Cons.prems(4)) (simp_all add: p)
    qed
  qed (use Cons.prems(2,3) [of sp i] in \<open>auto simp: p\<close>)
  then show ?case by (simp add: wp_simps p)
qed

text \<open>With all pinned entries that are not wanted gone, the adopted ids can be forgotten.\<close>

lemma core_clear_adopted:
  assumes core: "core c t [] f {} {} {} {} s"
    and all: "\<And>sp. vip_map (kmaps s) (VipSpec_key sp) \<noteq> None \<Longrightarrow> smap_find (vips s) sp \<noteq> None"
  shows "core c t [] f {} {} {} {} (s\<lparr>adopted_vip_ids := smap_empty\<rparr>)"
proof -
  let ?s = "s\<lparr>adopted_vip_ids := smap_empty\<rparr>"
  note C = coreD [OF core]
  have st: "same_table s ?s" by (simp add: same_table_def)
  note T = same_table_simps [OF st]
  have ow: "owner ?s sp i \<longleftrightarrow> (\<exists>v. smap_find (vips s) sp = Some v \<and> v_id v = i)" for sp i
    by (simp add: owner_def)
  have sub: "owner ?s sp i \<Longrightarrow> owner s sp i" for sp i by (auto simp: owner_def)
  have "vips_wf ?s"
    using vips_wfD(1) [OF C(3)] vips_wfD(2) [OF C(3) sub] vips_wfD(3) [OF C(3) sub sub] unfolding vips_wf_def
    by auto
  moreover have "ring_uses ?s = ring_uses s" using same_table_ring_uses [OF st] by (simp add: fun_eq_iff)
  moreover have "fresh_vip ?s = fresh_vip s" using same_table_fresh [OF st] by (simp add: fun_eq_iff)
  moreover have "\<exists>sp. k = VipSpec_key sp \<and> owner ?s sp (vip_id val)" if A: "vip_map (kmaps s) k = Some val" for k val
  proof -
    obtain sp where sp: "k = VipSpec_key sp" using C(6) A unfolding entries_ok_def by blast
    then obtain v where v: "smap_find (vips s) sp = Some v" using all A by force
    then have "v_id v = vip_id val" using C(6) A sp unfolding entries_ok_def by force
    then show ?thesis using sp v by (auto simp: ow)
  qed
  moreover have "rt_inv ?s" using C(1) same_table_rt_inv [OF st] by simp
  moreover have "holders ?s = holders s" by (simp add: holders_def fun_eq_iff)
  ultimately show ?thesis
    using C T(3,4,7) by (simp add: core_def safe_def refs_ok_def entries_ok_def rings_ok_def fresh_ok_def pins_ok_def)
qed

text \<open>Freeing the adopted reals nobody wants touches no ring, no member and no pinned real.\<close>

lemma safe_drop:
  assumes core: "core c t [] f {} {} {} {} s" and ow: "owned {} s" and kq: "kquiet (drop_step s) s s'"
    and pin: "\<And>sp a i. (sp, a, i) \<in> g_pins c \<Longrightarrow> \<exists>v. smap_find (vips s) sp = Some v \<and> a \<in> member_addrs v"
  shows "safe c s'"
proof (rule safe_kquiet [OF coreD(2) [OF core] kq])
  note C = coreD [OF core]
  note ps = safeD [OF C(2)]
  fix m
  assume m: "drop_step s m"
  have q: "vip_map m = vip_map (kmaps s)" "rings m = rings (kmaps s)" "conntrack m = conntrack (kmaps s)"
    using m by (simp_all add: drop_step_def quiet_def)
  have same: "reals m i = reals (kmaps s) i" "neigh m i = neigh (kmaps s) i"
    if "mac_known s a i" "a \<in> member_addrs v" "smap_find (vips s) sp = Some v" for a i v sp
  proof -
    have "s_refs (slots s i) \<noteq> 0"
      using refs_gt_0 [OF C(4) that(2,3)] that(1) by (auto simp: refs_def mac_known_def)
    then show "reals m i = reals (kmaps s) i" "neigh m i = neigh (kmaps s) i"
      using m by (simp_all add: drop_step_def quiet_def)
  qed
  have "dp_safe m"
    unfolding dp_safe_def q
  proof (intro allI impI conjI)
    fix k val
    assume A: "vip_map (kmaps s) k = Some val"
    then show "vip_id val < PB_MAX_VIPS" using ps(1) by (auto simp: pinned_state_def dp_safe_def)
    obtain sp v where v: "smap_find (vips s) sp = Some v" "v_id v = vip_id val"
      using ow A unfolding owned_def by blast
    then have "ring_uses s (member_addrs v) (vip_id val)" using C(7) unfolding rings_ok_def by force
    then obtain ring where ring: "rings (kmaps s) (vip_id val) = Some ring" "length ring = unat PB_RING_SIZE"
      "\<And>r. r \<in> set ring \<Longrightarrow> r = PB_REAL_NONE \<or> (\<exists>a \<in> member_addrs v. mac_known s a r)"
      unfolding ring_uses_def by blast
    have "usable_real m r" if "a \<in> member_addrs v" "mac_known s a r" for a r
      using mac_known_usable(1) [OF C(1) that(2)] same [OF that(2,1) v(1)] by (simp add: usable_real_def)
    then show "\<exists>ring. rings (kmaps s) (vip_id val) = Some ring \<and> length ring = unat PB_RING_SIZE \<and>
        (\<forall>r \<in> set ring. r = PB_REAL_NONE \<or> usable_real m r)"
      using ring by blast
  qed
  moreover have ad: "real_addr (reals m i) = real_addr (reals (kmaps s) i) \<or> real_addr (reals m i) = 0" for i
    using m by (auto simp: drop_step_def)
  have "pinned_ok m"
    using ps(1) ad unfolding pinned_state_def pinned_ok_def by metis
  moreover have "real_addr (reals m 0) = 0" using ps(1) ad [of 0] by (auto simp: pinned_state_def)
  ultimately have "pinned_state m" using ps(1) unfolding pinned_state_def q by blast
  moreover have "real_addr (reals m i) = a \<and> usable_real m i" if P: "(sp, a, i) \<in> g_pins c" for sp a i
  proof -
    obtain v where v: "smap_find (vips s) sp = Some v" "a \<in> member_addrs v" using pin [OF P] by blast
    have "mac_known s a i" using C(9) P unfolding pins_ok_def by blast
    note same [OF this v(2,1)]
    then show ?thesis using ps(2) P unfolding kept_def usable_real_def by metis
  qed
  then have "kept c m" using ps(2) unfolding kept_def q by blast
  ultimately show "pinned_state m \<and> kept c m" by blast
qed

lemma wp_drop_unreferenced:
  assumes E: "env_ok E" and core: "core c False [] f {} {} {} {} s" and ow: "owned {} s"
    and pin: "\<And>sp a i. (sp, a, i) \<in> g_pins c \<Longrightarrow> \<exists>v. smap_find (vips s) sp = Some v \<and> a \<in> member_addrs v"
    and ok: "\<And>s'. core c True [] f {} {} {} {} s' \<Longrightarrow> rest s s' \<Longrightarrow> Q () s'"
  shows "wp (drop_unreferenced E) Q R s"
proof (rule wp_use [OF drop_unreferenced_spec [OF E, of s]])
  note C = coreD [OF core]
  show "s = s \<and> rt_inv s" using C(1) by simp
  fix s'
  assume A: "rt_inv s' \<and> rest s s' \<and>
    (\<forall>i. slots s' i = (if valid_id i \<and> s_refs (slots s i) = 0 then empty_slot else slots s i)) \<and>
    (\<forall>a i. smap_find (by_addr s') a = Some i \<longleftrightarrow> smap_find (by_addr s) a = Some i \<and> s_refs (slots s i) \<noteq> 0) \<and>
    kquiet (drop_step s) s s'"
  then have rt: "rt_inv s'" and re: "rest s s'" and kq: "kquiet (drop_step s) s s'"
    and sl: "\<And>i. slots s' i = (if valid_id i \<and> s_refs (slots s i) = 0 then empty_slot else slots s i)"
    and by_addr: "\<And>a i. smap_find (by_addr s') a = Some i \<longleftrightarrow> smap_find (by_addr s) a = Some i \<and> s_refs (slots s i) \<noteq> 0"
    by blast+
  let ?K = "used_addrs s"
  have used: "id_of s' a = id_of s a \<and> mac_of s' a = mac_of s a" if a: "a \<in> ?K" for a
  proof -
    obtain i where i: "id_of s a = Some i" "s_refs (slots s i) \<noteq> 0"
      using a by (auto simp: used_addrs_def refs_def unat_gt_0 split: option.splits)
    then have "id_of s' a = Some i" using by_addr by (simp add: id_of_def)
    then show ?thesis using i sl [of i] by (simp add: mac_of_def)
  qed
  have km: "vip_map (kmaps s') = vip_map (kmaps s)" "rings (kmaps s') = rings (kmaps s)"
    using kq by (auto simp: kquiet_def drop_step_def quiet_def)
  have st: "tab_step ?K s s'" using re km used by (simp add: tab_step_def)
  have rf: "refs s' a = refs s a" for a
  proof (cases "a \<in> ?K")
    case True
    then show ?thesis using used [OF True] sl by (auto simp: refs_def used_addrs_def split: option.splits)
  next
    case False
    moreover have "id_of s' a = None \<or> (\<exists>i. id_of s a = Some i \<and> s_refs (slots s i) \<noteq> 0)"
      using by_addr [of a] by (cases "id_of s' a") (auto simp: id_of_def)
    ultimately show ?thesis
      by (auto simp: refs_def used_addrs_def unat_eq_0 split: option.splits)
  qed
  have mem: "member_addrs v \<subseteq> ?K" if "smap_find (vips s) sp = Some v" for sp v
    using refs_gt_0 [OF C(4) _ that] by (auto simp: used_addrs_def)
  have c1: "core c False [] f {} {} {} {} s'"
  proof (rule core_tab_step [OF core st rt safe_drop [OF core ow kq pin]])
    show "ring_uses s ?K (vip_id val)" if M: "vip_map (kmaps s) k = Some val" for k val
    proof -
      obtain sp v where v: "smap_find (vips s) sp = Some v" "v_id v = vip_id val"
        using ow M unfolding owned_def by blast
      then have "ring_uses s (member_addrs v) (vip_id val)" using C(7) unfolding rings_ok_def by force
      then show ?thesis by (rule ring_uses_mono) (rule mem [OF v(1)])
    qed
    show "refs_ok [] {} s'" using C(4) rest_holders [OF re] rf by (simp add: refs_ok_def)
    show "a \<in> ?K" if "(sp, a, i) \<in> g_pins c" for sp a i using pin [OF that] mem by blast
  qed (use mem in \<open>auto simp: tight_def\<close>)
  have "tight True s'" using by_addr sl by (auto simp: tight_def)
  moreover have "pins_ok c True s'"
    using coreD(9) [OF c1] pin rest_lb(1) [OF re] by (simp add: pins_ok_def)
  ultimately have "core c True [] f {} {} {} {} s'" using c1 by (simp add: core_def)
  then show "Q x s'" for x using ok re by simp
qed simp

section \<open>The first call\<close>

lemma wp_finish_startup:
  assumes E: "env_ok E" and core: "core c False [] f {} {} {} {} s"
    and pin: "\<And>sp a i. (sp, a, i) \<in> g_pins c \<Longrightarrow> \<exists>v. smap_find (vips s) sp = Some v \<and> a \<in> member_addrs v"
    and ok: "\<And>s'. lb_inv c s' \<Longrightarrow> vips s' = vips s \<Longrightarrow> lb_hash s' = lb_hash s \<Longrightarrow> lb_next_hop s' = lb_next_hop s \<Longrightarrow>
      lb_health_enabled s' = lb_health_enabled s \<Longrightarrow> Q () s'"
  shows "wp (finish_startup E) Q R s"
proof -
  note C = coreD [OF core]
  let ?clear = "\<lambda>s. s\<lparr>adopted_vip_ids := smap_empty\<rparr>"
  let ?last = "modify (\<lambda>s. s\<lparr>lb_initialized := True\<rparr>) :: unit lb_act"
  have "wp (forM (items (adopted_vip_ids s)) (drop_pinned E)) (\<lambda>_. wp (seqM (modify ?clear) (seqM (drop_unreferenced E) ?last)) Q R) R s"
  proof (rule wp_drop_all_pinned [OF E core])
    show "smap_find (adopted_vip_ids s) sp = Some i" if "(sp, i) \<in> set (items (adopted_vip_ids s))" for sp i
      using that by (simp add: smap.in_entries)
    show "(sp, a, j) \<notin> g_pins c" if "(sp, i) \<in> set (items (adopted_vip_ids s))" for sp i a j
      using that pin [of sp a j] vips_wfD(4) [OF C(3), of sp i] by (auto simp: smap.in_entries)
    fix s1
    assume A: "core c False [] f {} {} {} {} s1" "settings s s1" "vips s1 = vips s"
      "\<And>sp. vip_map (kmaps s1) (VipSpec_key sp) =
        (if sp \<in> fst ` set (items (adopted_vip_ids s)) then None else vip_map (kmaps s) (VipSpec_key sp))"
    let ?s = "?clear s1"
    have "smap_find (vips s1) sp \<noteq> None" if M: "vip_map (kmaps s1) (VipSpec_key sp) \<noteq> None" for sp
    proof -
      obtain val where val: "vip_map (kmaps s1) (VipSpec_key sp) = Some val" using M by auto
      then obtain sp' where "VipSpec_key sp = VipSpec_key sp'" "owner s1 sp' (vip_id val)"
        using coreD(6) [OF A(1)] unfolding entries_ok_def by blast
      moreover have "smap_find (adopted_vip_ids s1) sp = None"
        using val A(2,4) by (auto simp: smap.in_keys settings_def split: if_splits)
      ultimately show ?thesis by (auto simp: owner_def)
    qed
    then have c1: "core c False [] f {} {} {} {} ?s" by (rule core_clear_adopted [OF A(1)])
    have "wp (drop_unreferenced E) (\<lambda>_. wp ?last Q R) R ?s"
    proof (rule wp_drop_unreferenced [OF E c1])
      show "owned {} ?s" by (rule owned_core [OF c1]) simp_all
      show "\<exists>v. smap_find (vips ?s) sp = Some v \<and> a \<in> member_addrs v" if "(sp, a, i) \<in> g_pins c" for sp a i
        using pin [OF that] A(3) by simp
      fix s2
      assume B: "core c True [] f {} {} {} {} s2" "rest ?s s2"
      let ?s2 = "s2\<lparr>lb_initialized := True\<rparr>"
      have st: "same_table s2 ?s2" by (simp add: same_table_def)
      have "rt_inv ?s2" using coreD(1) [OF B(1)] same_table_rt_inv [OF st] by simp
      moreover have "ring_uses ?s2 = ring_uses s2" using same_table_ring_uses [OF st] by (simp add: fun_eq_iff)
      moreover have "fresh_vip ?s2 = fresh_vip s2" using same_table_fresh [OF st] by (simp add: fun_eq_iff)
      moreover have "owner ?s2 = owner s2" "holders ?s2 = holders s2" by (simp_all add: owner_def holders_def fun_eq_iff)
      ultimately have "core c True [] f {} {} {} {} ?s2"
        using coreD [OF B(1)] same_table_simps(3,4,7) [OF st]
        by (simp add: core_def safe_def vips_wf_def refs_ok_def entries_ok_def rings_ok_def fresh_ok_def pins_ok_def)
      then have "lb_inv c ?s2" using rest_lb(2) [OF B(2)] by (intro lb_invI) simp_all
      then have "Q () ?s2" using rest_lb [OF B(2)] A(2,3) by (intro ok) (simp_all add: settings_def)
      then show "wp ?last Q R s2" by (simp add: wp_simps)
    qed
    then show "wp (seqM (modify ?clear) (seqM (drop_unreferenced E) ?last)) Q R s1" by (simp add: wp_simps)
  qed
  then show ?thesis by (simp add: finish_startup_def wp_simps)
qed

lemma vips_applied_members:
  assumes "vips_applied vcs Map.empty (model_of s)" "distinct (map vc_spec vcs)" "vc \<in> set vcs" "a \<in> rc_addr ` set (vc_reals vc)"
  shows "\<exists>v. smap_find (vips s) (vc_spec vc) = Some v \<and> a \<in> member_addrs v"
proof -
  obtain M0 M1 where A: "vip_applied vc M0 M1" "model_of s (vc_spec vc) = M1 (vc_spec vc)"
    using vips_applied_at [OF assms(1-3)] by blast
  then obtain ms' where ms: "model_of s (vc_spec vc) = Some (vip_flag_bits (vc_no_conntrack vc), ms')" "dom ms' = rc_addr ` set (vc_reals vc)"
    unfolding vip_applied_def members_after_def dom_want by auto
  then obtain v where "smap_find (vips s) (vc_spec vc) = Some v" "snd (vip_model v) = ms'" by (auto simp: model_of_def)
  then show ?thesis using ms(2) assms(4) by (auto simp: member_addrs_model)
qed

lemma wp_startup_tail:
  assumes E: "env_ok E" and cfg: "config_ok cfg" and pin: "op_keeps c (Apply cfg)"
    and c1: "core c False [] f {} {} {} {} s1" and v1: "vips s1 = smap_empty" and set: "set_to cfg s1"
    and ad: "\<And>sp. smap_find (adopted_vip_ids s1) sp = map_option vip_id (m (VipSpec_key sp))"
    and ok: "\<And>s'. lb_inv c s' \<Longrightarrow> reloaded cfg Map.empty (model_of s') \<Longrightarrow> set_to cfg s' \<Longrightarrow>
      (\<And>sp val. m (VipSpec_key sp) = Some val \<Longrightarrow> sp \<in> vc_spec ` set (c_vips cfg) \<Longrightarrow>
        \<exists>v. smap_find (vips s') sp = Some v \<and> v_id v = vip_id val) \<Longrightarrow> Q () s'"
    and err: "\<And>e s'. c_vips cfg \<noteq> [] \<Longrightarrow> safe c s' \<Longrightarrow> R e s'"
  shows "wp (seqM (forM (c_vips cfg) (apply_vip E hc)) (whenM True (finish_startup E))) Q R s1"
proof -
  let ?vcs = "c_vips cfg"
  have cf: "\<forall>vc \<in> set ?vcs. reals_ok (vc_reals vc)" "distinct (map vc_spec ?vcs)" using cfg by (simp_all add: config_ok_def)
  have M1: "model_of s1 = Map.empty" using v1 by (simp add: model_of_def fun_eq_iff)
  have "wp (forM ?vcs (apply_vip E hc)) (\<lambda>_. wp (finish_startup E) Q R) R s1"
  proof (rule wp_startup_vips [OF E c1 cf _ _ err])
    show "vc_spec ` set ?vcs \<inter> dom (model_of s1) = {}" using M1 by simp
    fix s2
    assume A: "core c False [] f {} {} {} {} s2" "knobs s1 s2" "vips_applied ?vcs (model_of s1) (model_of s2)"
      "\<And>sp i. owner s1 sp i \<Longrightarrow> owner s2 sp i"
    have rl: "reloaded cfg Map.empty (model_of s2)"
      by (rule reloadedI [OF _ cf(2)]) (use A(3) M1 in \<open>simp add: restrict_map_def\<close>)
    show "wp (finish_startup E) Q R s2"
    proof (rule wp_finish_startup [OF E A(1)])
      show "\<exists>v. smap_find (vips s2) sp = Some v \<and> a \<in> member_addrs v" if P: "(sp, a, i) \<in> g_pins c" for sp a i
      proof -
        obtain vc where vc: "vc \<in> set ?vcs" "vc_spec vc = sp" using op_keeps_spec [OF pin P] by auto
        have "a \<in> rc_addr ` set (vc_reals vc)" using P vc(2) by (intro op_keeps_reals [OF pin cfg vc(1)]) simp
        then show ?thesis using vips_applied_members [OF A(3) [unfolded M1] cf(2) vc(1)] vc(2) by simp
      qed
      fix s'
      assume B: "lb_inv c s'" "vips s' = vips s2" "lb_hash s' = lb_hash s2" "lb_next_hop s' = lb_next_hop s2"
        "lb_health_enabled s' = lb_health_enabled s2"
      show "Q () s'"
      proof (rule ok [OF B(1)])
        show "reloaded cfg Map.empty (model_of s')" using rl B(2) by (simp add: model_of_def)
        show "set_to cfg s'" using set A(2) B(3-5) by (simp add: set_to_def knobs_def)
        fix sp val
        assume D: "m (VipSpec_key sp) = Some val" "sp \<in> vc_spec ` set ?vcs"
        then have "owner s2 sp (vip_id val)" using ad by (intro A(4)) (simp add: owner_def)
        moreover have "sp \<in> dom (model_of s2)" using rl D(2) by (simp add: reloaded_def)
        moreover have "smap_find (adopted_vip_ids s2) sp = None" if "smap_find (vips s2) sp \<noteq> None"
          using that vips_wfD(4) [OF coreD(3) [OF A(1)], of sp] by (cases "smap_find (adopted_vip_ids s2) sp") auto
        ultimately show "\<exists>v. smap_find (vips s') sp = Some v \<and> v_id v = vip_id val"
          using B(2) by (auto simp: owner_def)
      qed
    qed
  qed
  then show ?thesis by (simp add: wp_simps whenM_def)
qed

lemma wp_startup:
  assumes E: "env_ok E" "keys_law E" and st: "just_started s" and sf: "safe c s" and cfg: "config_ok cfg"
    and pin: "op_keeps c (Apply cfg)"
    and ok: "\<And>s'. lb_inv c s' \<Longrightarrow> reloaded cfg Map.empty (model_of s') \<Longrightarrow> set_to cfg s' \<Longrightarrow>
      (\<And>sp val. vip_map (kmaps s) (VipSpec_key sp) = Some val \<Longrightarrow> sp \<in> vc_spec ` set (c_vips cfg) \<Longrightarrow>
        \<exists>v. smap_find (vips s') sp = Some v \<and> v_id v = vip_id val) \<Longrightarrow> Q () s'"
    and err: "\<And>e s'. safe c s' \<Longrightarrow> c_vips cfg \<noteq> [] \<or> Mac_parse (if_address E (lb_interface s)) = None \<Longrightarrow> R e s'"
  shows "wp (apply_config E cfg) Q R s"
proof -
  let ?f = "VipSpec 0 0 0" and ?vcs = "c_vips cfg"
  let ?set = "\<lambda>s. s\<lparr>lb_health_enabled := hc_enabled (c_health cfg), lb_next_hop := c_next_hop cfg, lb_hash := c_hash cfg\<rparr>"
  let ?vips = "\<lambda>hc. seqM (forM ?vcs (apply_vip E hc)) (whenM True (finish_startup E)) :: unit lb_act"
  let ?tail = "bindM (gets (\<lambda>s. lb_hash s \<noteq> c_hash cfg)) (\<lambda>hc. seqM (modify ?set) (bindM (gets (\<lambda>s. smap_keys (vips s))) (\<lambda>sps.
    seqM (forM sps (drop_unwanted E (vc_spec ` set ?vcs))) (?vips hc)))) :: unit lb_act"
  have "wp (adopt_locked E) (\<lambda>_. wp (seqM (write_config_map E cfg) ?tail) Q R) R s"
  proof (rule wp_adopt_locked [OF E(2) st sf])
    fix s1
    assume A: "core c False [] ?f {} {} {} {} s1" "vips s1 = smap_empty" "knobs s s1"
      "\<And>sp. smap_find (adopted_vip_ids s1) sp = map_option vip_id (vip_map (kmaps s) (VipSpec_key sp))"
    have "wp (write_config_map E cfg) (\<lambda>_. wp ?tail Q R) R s1"
    proof (rule wp_write_config_map [OF E(1) A(1)])
      fix m s2
      assume B: "core c False [] ?f {} {} {} {} s2" "kernel_write s1 s2"
      have v2: "vips s2 = smap_empty" "adopted_vip_ids s2 = adopted_vip_ids s1"
        using A(2) B(2) by (simp_all add: kernel_write_def settings_def)
      have "core c False [] ?f {} {} {} UNIV (?set s2)"
        by (rule core_mono [OF core_new_settings [OF B(1)]]) simp
      then have "core c False [] ?f {} {} {} {} (?set s2)" by (rule core_stale) (simp add: v2 fun_eq_iff)
      then have "wp (?vips (lb_hash s2 \<noteq> c_hash cfg)) Q R (?set s2)"
      proof (rule wp_startup_tail [where m = "vip_map (kmaps s)", OF E(1) cfg pin])
      qed (use v2 A(4) in \<open>simp_all add: set_to_def ok err\<close>)
      then show "wp ?tail Q R s2" using v2(1) by (simp add: wp_simps smap_keys_def)
    qed (use err coreD(2) [OF A(1)] A(3) in \<open>auto simp: knobs_def\<close>)
    then show "wp (seqM (write_config_map E cfg) ?tail) Q R s1" by (simp add: wp_simps)
  qed
  then show ?thesis using st by (simp add: apply_config_def just_started_def wp_simps)
qed

end
