(* ===== verification/Lb_System.thy ===== *)
theory Lb_System
  imports Lb_Startup Dataplane_Claims
begin

text \<open>
  The daemon and the XDP program together.

  \<open>later E P K s0 s\<close>: the system went from \<open>s0\<close> to \<open>s\<close> by operations of the daemon that satisfy \<open>P\<close>, packets
  that satisfy \<open>K\<close>, and crashes.  The daemon may die after any of its writes; the packets go on, and the next
  daemon starts on the maps that are left.  A daemon that has just started accepts no operation but the
  configuration (\<^verbatim>\<open>Daemon::Daemon\<close> calls \<^verbatim>\<open>LbState::apply\<close> before it serves anything).  After each event
  \<^const>\<open>ktrace\<close> holds the states the maps went through during that event, so that a property of
  \<open>set (kmaps s # ktrace s)\<close> covers what a packet in the middle of an operation sees.

  An operation that is refused by an \<^verbatim>\<open>ApiError\<close> leaves the daemon running; after a runtime error (the kernel
  had no memory for a ring or an entry, the table of reals is full) the run ends, or goes on with a restart.
\<close>

section \<open>Events\<close>

type_synonym packets = "kernel \<Rightarrow> u8 list \<Rightarrow> maps \<Rightarrow> maps \<Rightarrow> bool"

definition quiet_trace :: "lb \<Rightarrow> lb" where
  "quiet_trace s = s\<lparr>ktrace := []\<rparr>"

definition accepts :: "lb \<Rightarrow> lb_op \<Rightarrow> bool" where
  "accepts s op \<longleftrightarrow> lb_initialized s \<or> (\<exists>cfg. op = Apply cfg)"

inductive later :: "env \<Rightarrow> (lb_op \<Rightarrow> bool) \<Rightarrow> packets \<Rightarrow> lb \<Rightarrow> lb \<Rightarrow> bool" for E P K s0 where
  now: "later E P K s0 s0"
| returned:
    "later E P K s0 s \<Longrightarrow> P op \<Longrightarrow> accepts s op \<Longrightarrow> run_op E op (quiet_trace s) = (Ret u, s') \<Longrightarrow> later E P K s0 s'"
| rejected:
    "later E P K s0 s \<Longrightarrow> P op \<Longrightarrow> lb_initialized s \<Longrightarrow> run_op E op (quiet_trace s) = (Throw (ApiError w), s') \<Longrightarrow>
     later E P K s0 s'"
| packet:
    "later E P K s0 s \<Longrightarrow> xdp_packetbalance k frame (kmaps s) = ((act, m), frame') \<Longrightarrow> K k frame (kmaps s) m \<Longrightarrow>
     later E P K s0 (s\<lparr>kmaps := m, ktrace := []\<rparr>)"
| crash:
    "later E P K s0 s \<Longrightarrow> P op \<Longrightarrow> accepts s op \<Longrightarrow> run_op E op (quiet_trace s) = (r, s1) \<Longrightarrow>
     kmaps s2 \<in> set (kmaps s # kmaps s1 # ktrace s1) \<Longrightarrow> just_started s2 \<Longrightarrow> ktrace s2 = [] \<Longrightarrow> later E P K s0 s2"

text \<open>The daemon starts on empty maps, or on what an earlier one left.\<close>

definition first_start :: "lb \<Rightarrow> bool" where
  "first_start s \<longleftrightarrow> just_started s \<and> ktrace s = [] \<and> pinned_state (kmaps s)"

definition reachable :: "env \<Rightarrow> lb \<Rightarrow> bool" where
  "reachable E s \<longleftrightarrow> (\<exists>s0. first_start s0 \<and> later E op_ok (\<lambda>_ _ _ _. True) s0 s)"

section \<open>The invariant between events\<close>

definition here :: "(vip_spec \<times> u32 \<times> u32) set \<Rightarrow> maps \<Rightarrow> ghost" where
  "here P m = \<lparr>g_ct = conntrack m, g_pins = P\<rparr>"

definition inv_at :: "(vip_spec \<times> u32 \<times> u32) set \<Rightarrow> lb \<Rightarrow> bool" where
  "inv_at P s \<longleftrightarrow> lb_inv (here P (kmaps s)) (quiet_trace s)"

definition keeps :: "(vip_spec \<times> u32 \<times> u32) set \<Rightarrow> lb_op \<Rightarrow> bool" where
  "keeps P op \<longleftrightarrow> op_ok op \<and> op_keeps \<lparr>g_ct = (\<lambda>_. None), g_pins = P\<rparr> op"

lemma here_simps [simp]: "g_ct (here P m) = conntrack m" "g_pins (here P m) = P"
  by (simp_all add: here_def)

lemma quiet_trace_simps [simp]:
  "kmaps (quiet_trace s) = kmaps s" "ktrace (quiet_trace s) = []" "model_of (quiet_trace s) = model_of s"
  "vips (quiet_trace s) = vips s" "id_of (quiet_trace s) = id_of s" "mac_of (quiet_trace s) = mac_of s"
  "quiet_trace (quiet_trace s) = quiet_trace s" "lb_initialized (quiet_trace s) = lb_initialized s"
  by (simp_all add: quiet_trace_def model_of_def id_of_def mac_of_def fun_eq_iff split: option.split)

lemma keepsD: "keeps P op \<Longrightarrow> op_ok op" "keeps P op \<Longrightarrow> op_keeps (here P m) op"
  by (simp_all add: keeps_def op_keeps_def)

lemma keeps_nothing: "keeps {} = op_ok"
  by (simp add: keeps_def op_keeps_def fun_eq_iff)

text \<open>The invariant does not depend on the maps the data plane writes.\<close>

definition control :: "maps \<Rightarrow> maps" where
  "control m = m\<lparr>conntrack := (\<lambda>_. None), stats := (\<lambda>_ _ _. 0), real_stats := (\<lambda>_ _. \<lparr>rs_packets = 0, rs_bytes = 0\<rparr>)\<rparr>"

lemma control_eq:
  "control m' = control m \<longleftrightarrow>
   vip_map m' = vip_map m \<and> rings m' = rings m \<and> reals m' = reals m \<and> neigh m' = neigh m \<and> config m' = config m"
  by (cases m; cases m') (auto simp: control_def)

lemma xdp_control:
  assumes "xdp_packetbalance k frame m = ((act, m'), frame')"
  shows "control m' = control m"
proof (cases "classify m frame")
  case (Fwd f vip bs mi ic len tos)
  then have "forward k frame f vip (config m) bs mi ic len tos m = ((act, m'), frame')"
    using assms by (simp add: xdp_packetbalance_classify run_parsed_def)
  then show ?thesis using forward_control_maps(1) by (simp add: control_eq)
qed (use assms in \<open>auto simp: control_eq xdp_packetbalance_classify run_parsed_def drop_global_def pass_global_def count_global_def\<close>)

lemma pinned_state_control:
  "control m' = control m \<Longrightarrow> pinned_state m' = pinned_state m"
  by (simp add: control_eq pinned_state_def dp_safe_def pinned_ok_def usable_real_def)

lemma usable_control: "control m' = control m \<Longrightarrow> usable_real m' r = usable_real m r"
  by (simp add: control_eq usable_real_def)

lemma lb_inv_control:
  assumes inv: "lb_inv c s" and k: "control m = control (kmaps s)" and c: "g_pins c' = g_pins c" "g_ct c' = conntrack m"
  shows "lb_inv c' (s\<lparr>kmaps := m, ktrace := []\<rparr>)"
proof -
  let ?s = "s\<lparr>kmaps := m, ktrace := []\<rparr>"
  note C = coreD [OF lb_inv_core [OF inv, of "VipSpec 0 0 0"]]
  have m: "vip_map m = vip_map (kmaps s)" "rings m = rings (kmaps s)" "reals m = reals (kmaps s)" "neigh m = neigh (kmaps s)"
    using k by (simp_all add: control_eq)
  have table: "id_of ?s = id_of s" "mac_of ?s = mac_of s"
    by (simp_all add: id_of_def mac_of_def fun_eq_iff split: option.split)
  have "rt_inv ?s" using C(1) by (simp add: rt_inv_def mirrors_def m)
  moreover have "safe c' ?s"
    using C(2) pinned_state_control [OF k] usable_control [OF k] by (simp add: safe_def kept_def m c)
  moreover have "vips_wf ?s" using C(3) by (simp add: vips_wf_def owner_def)
  moreover have "refs ?s = refs s" by (simp add: fun_eq_iff refs_def table split: option.split)
  then have "refs_ok [] {} ?s" using C(4) by (simp add: refs_ok_def holders_def)
  moreover have "tight True ?s" using C(5) by (simp add: tight_def)
  moreover have ru: "ring_uses ?s = ring_uses s" by (simp add: fun_eq_iff ring_uses_def mac_known_def table m)
  have "owner ?s = owner s" by (simp add: owner_def fun_eq_iff)
  then have "entries_ok {} ?s" using C(6) by (simp add: entries_ok_def m ru)
  moreover have "rings_ok {} (VipSpec 0 0 0) {} ?s" using C(7) by (simp add: rings_ok_def ru)
  moreover have "fresh_vip ?s = fresh_vip s"
    by (simp add: fun_eq_iff fresh_vip_def backends_of_def eligible_def table m)
  then have "fresh_ok {} ?s" using C(8) by (simp add: fresh_ok_def)
  moreover have "pins_ok c' True ?s" using C(9) by (simp add: pins_ok_def mac_known_def table c)
  ultimately show ?thesis using inv by (simp add: lb_inv_def core_def)
qed

lemma inv_at_control:
  assumes "inv_at P s" "control m = control (kmaps s)"
  shows "inv_at P (s\<lparr>kmaps := m, ktrace := []\<rparr>)"
  using lb_inv_control [OF assms(1) [unfolded inv_at_def], of m "here P m"] assms(2)
  by (simp add: inv_at_def quiet_trace_def)

text \<open>The states of the maps since the trace was emptied carry over.\<close>

lemma inv_at_forget:
  assumes "lb_inv (here P m0) s"
  shows "inv_at P s" "conntrack (kmaps s) = conntrack m0"
proof -
  show "conntrack (kmaps s) = conntrack m0" using lb_inv_safe [OF assms] by (simp add: safe_def kept_def)
  then have "lb_inv (here P (kmaps s)) (s\<lparr>kmaps := kmaps s, ktrace := []\<rparr>)"
    by (intro lb_inv_control [OF assms]) simp_all
  then show "inv_at P s" by (simp add: inv_at_def quiet_trace_def)
qed

section \<open>Operations\<close>

lemma op_refines:
  assumes "env_ok E" "op_ok op" "op_keeps c op" "\<And>cfg. op \<noteq> Apply cfg"
  shows "refines E c op"
  using assms
  by (cases op) (auto simp: op_ok_def intro: add_vip_refines del_vip_refines add_real_refines del_real_refines
      set_weight_refines set_draining_refines report_health_refines neighbor_resolved_refines)

lemma wp_run:
  assumes "wp m Q R s" "m s = (r, s')"
  shows "case r of Ret x \<Rightarrow> Q x s' | Throw e \<Rightarrow> R e s' | Wrong \<Rightarrow> False"
  using assms by (auto simp: wp_def split: outcome.split)

lemma run_op_inv:
  assumes E: "env_ok E" and inv: "lb_inv c s" and op: "op_ok op" "op_keeps c op" and run: "run_op E op s = (r, s')"
  shows "(r = Ret u \<longrightarrow> lb_inv c s' \<and> lb_step op (model_of s) (model_of s')) \<and> (r = Throw (ApiError w) \<longrightarrow> lb_inv c s') \<and>
    r \<noteq> Wrong \<and> safe c s'"
proof (cases "\<exists>cfg. op = Apply cfg")
  case True
  then obtain cfg where cfg: "op = Apply cfg" by blast
  have "config_ok cfg" using op(1) by (simp add: cfg op_ok_def validate_config_Inr)
  then have "wp (apply_config E cfg) (\<lambda>_ s'. lb_inv c s' \<and> reloaded cfg (model_of s) (model_of s'))
      (\<lambda>e s'. is_runtime_error e \<and> safe c s') s"
    by (rule wp_reload [OF E inv _ op(2) [unfolded cfg]]) (use lb_inv_safe [OF inv] in simp_all)
  from wp_run [OF this] run show ?thesis
    by (auto simp: cfg run_op_def lb_step_def lb_inv_safe split: outcome.splits)
next
  case False
  then have "refines E c op" using op_refines [OF E op] by blast
  then have "wp (run_op E op) (\<lambda>_. stepped c op s) (refused E c op s) s" using inv by (simp add: refines_def)
  from wp_run [OF this run] inv show ?thesis
    by (auto simp: stepped_def refused_def failed_def lb_inv_safe split: outcome.splits)
qed

lemma first_apply_inv:
  assumes E: "env_ok E" "keys_law E" and s: "just_started s" "safe (here P m) s" and cfg: "keeps P (Apply cfg)"
    and run: "apply_config E cfg s = (r, s')"
  shows "r = Ret u \<Longrightarrow> lb_inv (here P m) s'" "safe (here P m) s'"
proof -
  have "config_ok cfg" using keepsD(1) [OF cfg] by (simp add: op_ok_def validate_config_Inr)
  then have "wp (apply_config E cfg) (\<lambda>_ s'. lb_inv (here P m) s' \<and> safe (here P m) s') (\<lambda>_. safe (here P m)) s"
    by (rule wp_startup [OF E s _ keepsD(2) [OF cfg]]) (simp_all add: lb_inv_safe)
  from wp_run [OF this run] show "r = Ret u \<Longrightarrow> lb_inv (here P m) s'" "safe (here P m) s'"
    by (auto split: outcome.splits)
qed

section \<open>Runs\<close>

lemma lb_inv_here: "lb_inv (here P m) s \<Longrightarrow> lb_inv (here P (kmaps s)) s"
  using inv_at_forget(2) [of P m s] by (simp add: here_def)

lemma lb_inv_quiet: "lb_inv (here P (kmaps s)) s \<Longrightarrow> lb_inv (here P (kmaps s)) (quiet_trace s)"
  using inv_at_forget(1) [of P "kmaps s" s] by (simp add: inv_at_def)

lemma safe_quiet: "safe c s \<Longrightarrow> safe c (quiet_trace s)"
  by (simp add: safe_def)

text \<open>Between two events a daemon is in service, or it has just started.\<close>

definition sys_inv :: "(vip_spec \<times> u32 \<times> u32) set \<Rightarrow> lb \<Rightarrow> bool" where
  "sys_inv P s \<longleftrightarrow> lb_inv (here P (kmaps s)) s \<or> just_started s \<and> safe (here P (kmaps s)) s"

lemma sys_inv_safe: "sys_inv P s \<Longrightarrow> safe (here P (kmaps s)) s"
  by (auto simp: sys_inv_def lb_inv_safe)

lemma sys_inv_up: "sys_inv P s \<Longrightarrow> lb_initialized s \<Longrightarrow> lb_inv (here P (kmaps s)) s"
  by (auto simp: sys_inv_def just_started_def)

lemma run_op_later:
  assumes E: "env_ok E" "keys_law E" and inv: "sys_inv P s" and op: "keeps P op" "accepts s op"
    and run: "run_op E op (quiet_trace s) = (r, s')"
  shows "r = Ret u \<Longrightarrow> lb_inv (here P (kmaps s)) s'"
    "lb_initialized s \<Longrightarrow> r = Throw (ApiError w) \<Longrightarrow> lb_inv (here P (kmaps s)) s'" "safe (here P (kmaps s)) s'"
proof -
  have "(r = Ret u \<longrightarrow> lb_inv (here P (kmaps s)) s') \<and>
    (lb_initialized s \<longrightarrow> r = Throw (ApiError w) \<longrightarrow> lb_inv (here P (kmaps s)) s') \<and> safe (here P (kmaps s)) s'"
  proof (cases "lb_initialized s")
    case True
    then show ?thesis
      using run_op_inv [OF E(1) lb_inv_quiet [OF sys_inv_up [OF inv True]] keepsD(1) [OF op(1)] keepsD(2) [OF op(1)] run]
      by blast
  next
    case False
    then obtain cfg where cfg: "op = Apply cfg" using op(2) by (auto simp: accepts_def)
    have "just_started s" using False inv by (auto simp: sys_inv_def lb_inv_def)
    then have "just_started (quiet_trace s)" by (simp add: just_started_def fresh_table_def quiet_trace_def)
    then show ?thesis
      using first_apply_inv [OF E _ safe_quiet [OF sys_inv_safe [OF inv]], of cfg] op(1) run False
      by (simp add: cfg run_op_def)
  qed
  then show "r = Ret u \<Longrightarrow> lb_inv (here P (kmaps s)) s'"
    "lb_initialized s \<Longrightarrow> r = Throw (ApiError w) \<Longrightarrow> lb_inv (here P (kmaps s)) s'" "safe (here P (kmaps s)) s'"
    by blast+
qed

lemma crash_inv:
  assumes E: "env_ok E" "keys_law E" and inv: "sys_inv P s" and op: "keeps P op" "accepts s op"
    and run: "run_op E op (quiet_trace s) = (r, s1)" and s2: "kmaps s2 \<in> set (kmaps s # kmaps s1 # ktrace s1)"
    "just_started s2" "ktrace s2 = []"
  shows "sys_inv P s2" "conntrack (kmaps s2) = conntrack (kmaps s)"
proof -
  have k: "pinned_state (kmaps s2) \<and> kept (here P (kmaps s)) (kmaps s2)"
    using run_op_later(3) [OF E inv op run] sys_inv_safe [OF inv] s2(1) by (auto simp: safe_def)
  then show "conntrack (kmaps s2) = conntrack (kmaps s)" by (simp add: kept_def)
  then have "safe (here P (kmaps s2)) s2" using k s2(3) by (simp add: safe_def here_def)
  then show "sys_inv P s2" using s2(2) by (simp add: sys_inv_def)
qed

lemma packet_inv:
  assumes inv: "sys_inv P s" and run: "xdp_packetbalance k frame (kmaps s) = ((act, m), frame')"
  shows "sys_inv P (s\<lparr>kmaps := m, ktrace := []\<rparr>)"
proof (cases "lb_inv (here P (kmaps s)) s")
  case True
  then have "inv_at P s" by (rule inv_at_forget(1))
  from inv_at_control [OF this xdp_control [OF run]] show ?thesis by (simp add: inv_at_def quiet_trace_def sys_inv_def)
next
  case False
  then have A: "just_started s \<and> safe (here P (kmaps s)) s" using inv by (simp add: sys_inv_def)
  note c = xdp_control [OF run]
  have "safe (here P m) (s\<lparr>kmaps := m, ktrace := []\<rparr>)"
    using A pinned_state_control [OF c] usable_control [OF c] c by (simp add: safe_def kept_def control_eq)
  then show ?thesis using A by (simp add: sys_inv_def just_started_def fresh_table_def)
qed

lemma later_inv:
  assumes E: "env_ok E" "keys_law E" and "sys_inv P s0" "later E (keeps P) K s0 s"
  shows "sys_inv P s"
  using assms(4)
proof induction
  case now
  then show ?case by (rule assms(3))
next
  case (returned s op u s')
  then show ?case using lb_inv_here run_op_later(1) [OF E] unfolding sys_inv_def by blast
next
  case (rejected s op w s')
  then show ?case using lb_inv_here run_op_later(2) [OF E] unfolding sys_inv_def accepts_def by blast
next
  case (packet s k frame act m frame')
  then show ?case by (intro packet_inv)
next
  case (crash s op r s1 s2)
  then show ?case using crash_inv(1) [OF E] by blast
qed

lemma reachable_inv:
  assumes "env_ok E" "keys_law E" "reachable E s"
  shows "sys_inv {} s"
proof -
  obtain s0 where s0: "first_start s0" "later E op_ok (\<lambda>_ _ _ _. True) s0 s" using assms(3) unfolding reachable_def by blast
  then have "sys_inv {} s0" by (simp add: sys_inv_def first_start_def safe_def kept_def)
  then show ?thesis using later_inv [OF assms(1,2)] s0(2) by (simp add: keeps_nothing)
qed

section \<open>Pinning a real\<close>

text \<open>The maps forward to real \<open>a\<close> in slot \<open>r\<close>, and a daemon in service has it as a member of \<open>sp\<close>.\<close>

definition serves :: "lb \<Rightarrow> vip_spec \<Rightarrow> u32 \<Rightarrow> u32 \<Rightarrow> bool" where
  "serves s sp a r \<longleftrightarrow>
     real_addr (reals (kmaps s) r) = a \<and> usable_real (kmaps s) r \<and> vip_map (kmaps s) (VipSpec_key sp) \<noteq> None \<and>
     (lb_initialized s \<longrightarrow> (\<exists>v. smap_find (vips s) sp = Some v \<and> a \<in> member_addrs v))"

lemma sys_inv_pin:
  assumes inv: "sys_inv {} s" and sv: "serves s sp a r"
  shows "sys_inv {(sp, a, r)} (quiet_trace s)"
proof -
  let ?c = "here {(sp, a, r)} (kmaps s)"
  have sf: "safe ?c (quiet_trace s)"
    using sys_inv_safe [OF inv] sv by (simp add: safe_def kept_def serves_def)
  show ?thesis
  proof (cases "lb_initialized s")
    case True
    have q: "lb_inv (here {} (kmaps s)) (quiet_trace s)" using lb_inv_quiet [OF sys_inv_up [OF inv True]] .
    note C = coreD [OF lb_inv_core [OF sys_inv_up [OF inv True]]]
    have "r \<noteq> 0" using sv safeD(1) [OF sf] by (auto simp: serves_def usable_real_def pinned_state_def)
    then have v: "valid_id r" using sv by (simp add: serves_def usable_real_def valid_id_def word_gt_0)
    have "mac_known s a r"
      using usable_mac_known [OF C(1) _ v] rt_inv_mirrors [OF C(1) v] sv by (simp add: serves_def mirrors_def)
    then have "pins_ok ?c True (quiet_trace s)" using sv True by (simp add: pins_ok_def mac_known_def serves_def)
    then show ?thesis using q sf by (simp add: sys_inv_def lb_inv_def core_def)
  next
    case False
    then have "just_started (quiet_trace s)"
      using inv by (auto simp: sys_inv_def lb_inv_def just_started_def fresh_table_def quiet_trace_def)
    then show ?thesis using sf by (simp add: sys_inv_def)
  qed
qed

text \<open>Packets among which the flow \<open>f\<close> on CPU \<open>c\<close> goes on: its entry is not evicted and it does not start afresh.\<close>

definition goes_on :: "cpu_id \<Rightarrow> pb_flow \<Rightarrow> packets" where
  "goes_on c f k frame m m' \<longleftrightarrow>
     kernel_ok k \<and> conntrack m' (flow_key f) \<noteq> None \<and>
     (\<forall>vip mi ic len tos. classify m frame = Fwd f vip True mi ic len tos \<longrightarrow> cpu k \<noteq> c)"

lemma pinned_usable:
  assumes "safe (here {(sp, a, r)} m0) s" "m \<in> set (kmaps s # ktrace s)"
  shows "usable_real m r" "real_addr (reals m r) = a" "vip_map m (VipSpec_key sp) \<noteq> None" "conntrack m = conntrack m0"
  using assms by (auto simp: safe_def kept_def)

lemma usable_alive: "usable_real m r \<Longrightarrow> real_alive m r"
  by (simp add: usable_real_def real_alive_def not_le)

lemma later_flow_run:
  assumes E: "env_ok E" "keys_law E" and inv: "sys_inv {(sp, a, r)} s0"
    and "later E (keeps {(sp, a, r)}) (goes_on c f) s0 s"
  shows "flow_run c f r (kmaps s0) (kmaps s)"
  using assms(4)
proof induction
  case now
  then show ?case by (rule flow_run.begin_run)
next
  case (returned s op u s')
  then have "conntrack (kmaps s') = conntrack (kmaps s)"
    using inv_at_forget(2) run_op_later(1) [OF E later_inv [OF E inv returned.hyps(1)]] by blast
  then show ?case by (rule flow_run.control_plane [OF returned.IH])
next
  case (rejected s op w s')
  then have "conntrack (kmaps s') = conntrack (kmaps s)"
    using inv_at_forget(2) run_op_later(2) [OF E later_inv [OF E inv rejected.hyps(1)]] unfolding accepts_def by blast
  then show ?case by (rule flow_run.control_plane [OF rejected.IH])
next
  case (packet s k frame act m frame')
  have "real_alive (kmaps s) r"
    by (intro usable_alive pinned_usable(1) [OF sys_inv_safe [OF later_inv [OF E inv packet.hyps(1)]]]) simp
  then show ?case
    using flow_run.other_packet [OF packet.IH _ _ _ packet.hyps(2)] packet.hyps(3) by (auto simp: goes_on_def)
next
  case (crash s op r' s1 s2)
  then have "conntrack (kmaps s2) = conntrack (kmaps s)"
    using crash_inv(2) [OF E later_inv [OF E inv crash.hyps(1)]] by blast
  then show ?case by (rule flow_run.control_plane [OF crash.IH])
qed

lemma later_pinned:
  assumes E: "env_ok E" "keys_law E" and inv: "sys_inv {(sp, a, r)} s0" and run: "later E (keeps {(sp, a, r)}) (goes_on c f) s0 s"
    and live: "ct_live (kmaps s0) c (flow_key f) r" and m: "m \<in> set (kmaps s # ktrace s)"
  shows "usable_real m r" "real_addr (reals m r) = a" "ct_live m c (flow_key f) r" "vip_map m (VipSpec_key sp) \<noteq> None"
proof -
  note p = pinned_usable [OF sys_inv_safe [OF later_inv [OF E inv run]] m]
  then show "usable_real m r" "real_addr (reals m r) = a" "vip_map m (VipSpec_key sp) \<noteq> None" by blast+
  have "flow_run c f r (kmaps s0) m" by (rule flow_run.control_plane [OF later_flow_run [OF E inv run] p(4)])
  then show "ct_live m c (flow_key f) r" using live by (rule flow_run_keeps_live)
qed

end
