(* ===== verification/Lb_Claims.thy ===== *)
theory Lb_Claims
  imports Lb_System
begin

text \<open>
  The claims about \<^verbatim>\<open>LbState\<close> and about the daemon and the XDP program together: connections survive whatever
  the daemon does as long as their real stays, the maps are safe at every moment, every operation does what
  its specification says or says why not, and the rings, tables and reference counts are exact.
\<close>

section \<open>Rings and members\<close>

lemma ring_of_vip:
  assumes inv: "lb_inv c s" and v: "smap_find (vips s) sp = Some v"
  obtains ring where "rings (kmaps s) (v_id v) = Some ring"
    "build_ring (map (backend_for s) (items (v_members v))) (lb_hash s) PB_RING_SIZE = Some (Inr ring)"
    "\<And>r. r \<in> set ring \<Longrightarrow> r \<noteq> PB_REAL_NONE \<Longrightarrow>
      \<exists>a m. smap_find (v_members v) a = Some m \<and> in_ring m \<and> 0 < m_weight m \<and> id_of s a = Some r"
proof -
  note C = coreD [OF lb_inv_core [OF inv]]
  have ids: "id_of s a \<noteq> None" if "smap_find (v_members v) a \<noteq> None" for a
    using member_id [OF C(4) _ v, of a] that by (auto simp: member_addrs_def domIff)
  let ?bs = "map (backend_for s) (items (v_members v))"
  have bs: "backends_of s (v_members v) = Some ?bs" by (rule backends_of_Some) (use ids in blast)
  obtain ring where ring: "build_ring ?bs (lb_hash s) PB_RING_SIZE = Some (Inr ring)" "rings (kmaps s) (v_id v) = Some ring"
  proof -
    have "fresh_vip s v" using C(8) v by (simp add: fresh_ok_def)
    then show ?thesis using bs that by (auto simp: fresh_vip_def)
  qed
  have ok: "ids_ok ?bs" by (rule backends_ids_ok(1) [OF C(1)]) (use ids in blast)
  note rc = build_ring_contents [OF ring_size_ok_PB_RING_SIZE ok ring(1)]
  have "\<exists>a m. smap_find (v_members v) a = Some m \<and> in_ring m \<and> 0 < m_weight m \<and> id_of s a = Some r"
    if r: "r \<in> set ring" "r \<noteq> PB_REAL_NONE" for r
  proof (cases "\<exists>b \<in> set ?bs. 0 < bk_weight b")
    case False
    then have "ring = replicate (unat PB_RING_SIZE) PB_REAL_NONE" by (intro rc(3)) (auto simp: word_gt_0)
    then show ?thesis using r by (simp add: in_set_replicate)
  next
    case True
    then obtain b where "b \<in> set ?bs" "0 < bk_weight b" "r = bk_real_id b" using rc(2) r by blast
    then obtain a m where am: "(a, m) \<in> set (items (v_members v))" "in_ring m" "0 < m_weight m" "r = the (id_of s a)"
      by (auto simp: backend_for_def split: if_splits)
    then show ?thesis using ids [of a] by (auto simp: smap.in_entries)
  qed
  then show ?thesis using ring by (intro that) auto
qed

lemma id_of_inj: "rt_inv s \<Longrightarrow> id_of s a = Some i \<Longrightarrow> id_of s b = Some i \<Longrightarrow> a = b"
  using id_of_slot by metis

lemma table_full_card:
  assumes inv: "lb_inv c s" and full: "table_full s"
  shows "511 \<le> card (model_addrs (model_of s))"
proof -
  note C = coreD [OF lb_inv_core [OF inv]]
  let ?g = "\<lambda>i. s_addr (slots s i)"
  have id: "id_of s (?g i) = Some i" if "valid_id i" for i
    using that full C(1) by (simp add: table_full_def rt_inv_def id_of_def)
  have "inj_on ?g {i. valid_id i}" by (rule inj_onI) (metis id mem_Collect_eq option.inject)
  moreover have "?g ` {i. valid_id i} \<subseteq> model_addrs (model_of s)"
  proof (rule image_subsetI)
    fix i
    assume "i \<in> {i. valid_id i}"
    then have i: "id_of s (?g i) = Some i" by (simp add: id)
    then have "s_refs (slots s i) \<noteq> 0" using C(5) by (simp add: tight_def id_of_def)
    then have "0 < refs s (?g i)" using i by (simp add: refs_def unat_gt_0)
    then show "?g i \<in> model_addrs (model_of s)" using used_addrs_model [OF C(4)] unfolding used_addrs_def by blast
  qed
  ultimately show ?thesis
    using card_inj_on_le [OF _ _ finite_model_addrs, of ?g "{i. valid_id i}"] by (simp add: card_valid_ids)
qed

lemma vip_ids_taken_card:
  assumes "vip_ids_taken s"
  shows "64 \<le> card (dom (model_of s))"
proof -
  let ?g = "\<lambda>sp. v_id (the (smap_find (vips s) sp))"
  have dom: "dom (model_of s) = dom (smap_find (vips s))" by (auto simp: model_of_def)
  have "set vip_ids \<subseteq> ?g ` dom (smap_find (vips s))"
    using assms by (force simp: vip_ids_taken_def set_vip_ids)
  then have "card (set vip_ids) \<le> card (dom (smap_find (vips s)))"
    by (rule surj_card_le [OF smap.finite_dom_find])
  then show ?thesis by (simp add: dom card_vip_ids)
qed

section \<open>A concrete daemon\<close>

text \<open>
  A kernel that never fails, all MACs resolved at once, and a daemon that starts with no service on empty maps:
  the parameters on which the claims are instantiated.
\<close>

definition all_words :: "'a::len word list" where
  "all_words = map of_nat [0..<2 ^ LENGTH('a)]"

definition all_vip_keys :: "pb_vip_key list" where
  "all_vip_keys = map (\<lambda>(a, p, pr, pad). \<lparr>vk_addr = a, vk_port = p, vk_proto = pr, vk_pad = pad\<rparr>)
     (List.product all_words (List.product all_words (List.product all_words all_words)))"

definition demo_env :: env where
  "demo_env = \<lparr>sys = (\<lambda>_ _. 0), strerror = (\<lambda>_. []), batch_count = (\<lambda>_. 0), epoch_ms = (\<lambda>_. 0),
     mac_lookup = Some (\<lambda>_ _. Some (Mac 2 0 0 0 0 21)), if_address = (\<lambda>_. Mac_str (Mac 2 0 0 0 0 1)),
     vip_keys = (\<lambda>t. filter (\<lambda>k. t k \<noteq> None) all_vip_keys)\<rparr>"

definition start_on :: "maps \<Rightarrow> lb" where
  "start_on m = \<lparr>kmaps = m, ktrace = [], ticks = 0, slots = (\<lambda>_. empty_slot), by_addr = smap_empty, cursor = 1,
     vips = smap_empty, adopted_vip_ids = smap_empty, lb_interface = ''eth0'', lb_hash = Maglev, lb_next_hop = None,
     lb_health_enabled = False, lb_initialized = False, lb_next_incarnation = 0\<rparr>"

definition empty_maps :: maps where
  "empty_maps = demo_maps\<lparr>vip_map := Map.empty, rings := Map.empty, reals := (\<lambda>_. zero_pb_real), neigh := (\<lambda>_. zero_pb_mac)\<rparr>"

definition demo_config :: "vip_config list \<Rightarrow> config_data" where
  "demo_config vcs = \<lparr>c_interface = ''eth0'', c_xdp_mode = Auto, c_hash = Maglev, c_encap_src = Cidr (le32 10 99 0 0) (le32 255 255 255 0) 24,
     c_next_hop = None, c_conntrack_enabled = True, c_conntrack_size = 1024, c_icmp_pmtu = True, c_socket = [],
     c_pin_path = [], c_metrics_listen = [],
     c_health = \<lparr>hc_enabled = False, hc_interval_ms = 1000, hc_timeout_ms = 500, hc_fall = 3, hc_rise = 2\<rparr>,
     c_vips = vcs\<rparr>"

lemma all_words: "distinct (all_words :: 'a::len word list)" "set (all_words :: 'a word list) = UNIV"
proof -
  show "distinct (all_words :: 'a word list)"
    unfolding all_words_def distinct_map
    by (auto intro!: inj_onI dest!: arg_cong [of _ _ unat] simp: unat_of_nat)
  have "w \<in> of_nat ` {0..<2 ^ LENGTH('a)}" for w :: "'a word"
    by (intro image_eqI [of _ _ "unat w"]) simp_all
  then show "set (all_words :: 'a word list) = UNIV" by (auto simp: all_words_def)
qed

lemma demo_env_ok: "env_ok demo_env" "inserts_ok demo_env"
  by (simp_all add: env_ok_def arrays_ok_def deletes_ok_def macs_ok_def inserts_ok_def demo_env_def zero_mac_def)

lemma demo_keys_law: "keys_law demo_env"
proof -
  let ?f = "\<lambda>(a, p, pr, pad). \<lparr>vk_addr = a, vk_port = p, vk_proto = pr, vk_pad = pad\<rparr> :: pb_vip_key"
  have "distinct all_vip_keys"
    unfolding all_vip_keys_def distinct_map by (auto simp: distinct_product all_words intro!: inj_onI)
  moreover have "k \<in> set all_vip_keys" for k :: pb_vip_key
    unfolding all_vip_keys_def set_map
    by (rule image_eqI [of _ _ "(vk_addr k, vk_port k, vk_proto k, vk_pad k)"]) (simp_all add: all_words)
  ultimately show ?thesis by (auto simp: keys_law_def demo_env_def)
qed

lemma just_started_start_on: "just_started (start_on m)" "ktrace (start_on m) = []" "kmaps (start_on m) = m"
  by (simp_all add: start_on_def just_started_def fresh_table_def)

lemma pinned_empty: "pinned_state empty_maps"
  by (simp add: pinned_state_def dp_safe_def pinned_ok_def empty_maps_def zero_pb_real_def)

lemma demo_config_ok: "validate_config (demo_config []) = Inr ()"
  by (simp add: validate_config_Inr config_ok_def demo_config_def health_ok_def config_addrs_def)

lemma demo_mac: "Mac_parse (if_address demo_env i) \<noteq> None"
  by (simp add: demo_env_def Mac_parse_str)

text \<open>After the first configuration: in service, without VIPs.\<close>

lemma demo_up: "\<exists>s. reachable demo_env s \<and> lb_initialized s \<and> model_of s = Map.empty"
proof -
  let ?s = "start_on empty_maps" and ?c = "here {} empty_maps"
  have "wp (apply_config demo_env (demo_config [])) (\<lambda>_ s. lb_initialized s \<and> model_of s = Map.empty) (\<lambda>_ _. False) ?s"
  proof (rule wp_startup [OF demo_env_ok(1) demo_keys_law just_started_start_on(1)])
    show "safe ?c ?s" by (simp add: safe_def kept_def pinned_empty just_started_start_on)
    show "config_ok (demo_config [])" using demo_config_ok by (simp add: validate_config_Inr)
    show "lb_initialized s \<and> model_of s = Map.empty"
      if "lb_inv ?c s" "reloaded (demo_config []) Map.empty (model_of s)" for s
      using that by (simp add: lb_inv_def reloaded_def demo_config_def model_of_def)
  qed (use demo_mac in \<open>simp_all add: op_keeps_def demo_config_def\<close>)
  then obtain s where s: "apply_config demo_env (demo_config []) ?s = (Ret (), s)" "lb_initialized s" "model_of s = Map.empty"
    by (auto simp: wp_def split: prod.splits outcome.splits)
  have "first_start ?s" by (simp add: first_start_def just_started_start_on pinned_empty)
  moreover have "later demo_env op_ok (\<lambda>_ _ _ _. True) ?s s"
  proof (rule later.returned [OF later.now, of _ "Apply (demo_config [])" _ _ "()"])
    show "run_op demo_env (Apply (demo_config [])) (quiet_trace ?s) = (Ret (), s)"
      using s(1) by (simp add: run_op_def quiet_trace_def start_on_def)
  qed (simp_all add: op_ok_def demo_config_ok accepts_def)
  ultimately show ?thesis using s(2,3) unfolding reachable_def by blast
qed

lemma op_runs:
  assumes E: "env_ok E" "keys_law E" "inserts_ok E" and s: "reachable E s" "lb_initialized s"
    and op: "op_ok op" "\<And>cfg. op \<noteq> Apply cfg" "lb_step op (model_of s) M'"
    and room: "card (model_addrs (model_of s)) < 511" "card (dom (model_of s)) < 64"
  shows "\<exists>s'. reachable E s' \<and> lb_initialized s' \<and> lb_step op (model_of s) (model_of s')"
proof -
  have inv: "lb_inv (here {} (kmaps s)) (quiet_trace s)"
    using lb_inv_quiet [OF sys_inv_up [OF reachable_inv [OF E(1,2) s(1)] s(2)]] .
  have k: "keeps {} op" using op(1) by (simp add: keeps_nothing)
  have "wp (run_op E op) (\<lambda>_. stepped (here {} (kmaps s)) op (quiet_trace s)) (refused E (here {} (kmaps s)) op (quiet_trace s)) (quiet_trace s)"
    using op_refines [OF E(1) op(1) keepsD(2) [OF k] op(2)] inv by (simp add: refines_def)
  moreover have "\<not> refused E (here {} (kmaps s)) op (quiet_trace s) e s'" for e s'
    using vip_ids_taken_card [of "quiet_trace s"] table_full_card [OF inv] op(3) E(3) room
    by (auto simp: refused_def cannot_def failed_def)
  ultimately obtain u s' where run: "run_op E op (quiet_trace s) = (Ret u, s')" "stepped (here {} (kmaps s)) op (quiet_trace s) s'"
    by (auto simp: wp_def split: prod.splits outcome.splits)
  obtain s0 where "first_start s0" "later E op_ok (\<lambda>_ _ _ _. True) s0 s" using s(1) unfolding reachable_def by blast
  moreover have "later E op_ok (\<lambda>_ _ _ _. True) s0 s'" if "later E op_ok (\<lambda>_ _ _ _. True) s0 s" for s0
    using that run(1) op(1) s(2) by (intro later.returned [of E op_ok _ s0 s op u s']) (simp_all add: accepts_def)
  ultimately show ?thesis using run(2) unfolding reachable_def by (auto simp: stepped_def lb_inv_def)
qed

text \<open>In service with one VIP and one real of weight 1.\<close>

definition demo_sp :: vip_spec where
  "demo_sp = VipSpec (le32 198 51 100 1) (bswap16 80) 6"

definition demo_real :: u32 where
  "demo_real = le32 10 0 0 21"

lemma demo_fresh:
  "\<exists>s m. reachable demo_env s \<and> lb_initialized s \<and> new_member 1 m \<and>
     model_of s = [demo_sp \<mapsto> (vip_flag_bits False, [demo_real \<mapsto> m])]"
proof -
  note runs = op_runs [OF demo_env_ok(1) demo_keys_law demo_env_ok(2)]
  obtain s0 where s0: "reachable demo_env s0" "lb_initialized s0" "model_of s0 = Map.empty" using demo_up by blast
  have "\<exists>s1. reachable demo_env s1 \<and> lb_initialized s1 \<and> lb_step (AddVip demo_sp False) (model_of s0) (model_of s1)"
    by (rule runs [OF s0(1,2), of _ "[demo_sp \<mapsto> (vip_flag_bits False, Map.empty)]"])
      (simp_all add: op_ok_def lb_step_def s0(3) model_addrs_def)
  then obtain s1 where s1: "reachable demo_env s1" "lb_initialized s1" "model_of s1 = [demo_sp \<mapsto> (vip_flag_bits False, Map.empty)]"
    by (auto simp: lb_step_def s0(3))
  let ?m = "default_member"
  have "\<exists>s2. reachable demo_env s2 \<and> lb_initialized s2 \<and> lb_step (AddReal demo_sp demo_real 1) (model_of s1) (model_of s2)"
    by (rule runs [OF s1(1,2), of _ "[demo_sp \<mapsto> (vip_flag_bits False, [demo_real \<mapsto> ?m])]"])
      (auto simp: op_ok_def lb_step_def s1(3) model_addrs_def demo_real_def le32_def new_member_def default_member_def
        kMaxRealWeight_def intro!: exI [of _ default_member])
  then show ?thesis by (auto simp: lb_step_def s1(3))
qed

lemma demo_served:
  "\<exists>s v m. reachable demo_env s \<and> lb_initialized s \<and> dom (model_of s) = {demo_sp} \<and>
     model_addrs (model_of s) = {demo_real} \<and> smap_find (vips s) demo_sp = Some v \<and>
     smap_find (v_members v) demo_real = Some m \<and> member_addrs v = {demo_real} \<and> m_weight m = 1"
proof -
  obtain s2 m where s2: "reachable demo_env s2" "lb_initialized s2" "new_member 1 m"
    "model_of s2 = [demo_sp \<mapsto> (vip_flag_bits False, [demo_real \<mapsto> m])]"
    using demo_fresh by blast
  then obtain v where v: "smap_find (vips s2) demo_sp = Some v" "vip_model v = (vip_flag_bits False, [demo_real \<mapsto> m])"
    by (auto simp: model_of_def fun_eq_iff split: if_splits)
  then obtain m' where "smap_find (v_members v) demo_real = Some m'" "m = forget m'"
    by (auto simp: vip_model_def fun_eq_iff split: if_splits)
  moreover have "member_addrs v = {demo_real}" using v(2) by (simp add: member_addrs_model)
  moreover have "model_addrs (model_of s2) = {demo_real}" by (auto simp: s2(4) model_addrs_def split: if_splits)
  ultimately show ?thesis using s2 v(1) by (intro exI [of _ s2] exI [of _ v] exI [of _ m']) auto
qed

section \<open>Claims\<close>

text \<open>
  C1.  Established connections survive.  Take a moment at which the maps forward to the real \<open>a\<close> in slot \<open>r\<close> for the
  service \<open>sp\<close>, the CPU of \<open>k\<close> has a live entry of the flow \<open>f\<close> for it, and any run from there: API calls, configuration
  reloads, health reports, neighbour changes, packets of all flows on all CPUs, crashes of the daemon at any point and
  restarts.  If the run does not remove that real from that service, and does not evict or restart the flow, then at every
  moment, also between any two writes of an operation, a packet of \<open>f\<close> leaves in a tunnel to \<open>a\<close>.
\<close>

theorem connections_survive:
  assumes E: "env_ok E" "keys_law E" and s0: "reachable E s0" "serves s0 sp a r" "ct_live (kmaps s0) (cpu k) (flow_key f) r"
    and run: "later E (keeps {(sp, a, r)}) (goes_on (cpu k) f) (quiet_trace s0) s" and m: "m \<in> set (kmaps s # ktrace s)"
    and pkt: "kernel_ok k" "classify m frame = Fwd f vip False mi ic len tos" "uses_ct (config m) vip"
      "\<not> 3500 < len + 20" "adjust_head k frame \<noteq> None"
  shows "\<exists>m' check. xdp_packetbalance k frame m =
      ((XDP_TX, m'), tunnel_frame (mac (neigh m r)) (lb_mac (config m))
         (outer_header (outer_source (config m) (flow_hash f)) a (ucast (len + 20)) tos check) (drop 14 frame)) \<and>
    mac (neigh m r) \<noteq> zero_mac"
proof -
  have inv: "sys_inv {(sp, a, r)} (quiet_trace s0)" by (rule sys_inv_pin [OF reachable_inv [OF E s0(1)] s0(2)])
  have "ct_live (kmaps (quiet_trace s0)) (cpu k) (flow_key f) r" using s0(3) by simp
  note p = later_pinned [OF E inv run this m]
  note chosen = live_flow_forwarded [OF pkt(1) p(3) pkt(2,3) p(1)]
  obtain m' frame' where run: "xdp_packetbalance k frame m = ((XDP_TX, m'), frame')"
    using forward_TX [OF pkt(1,2) chosen [symmetric] p(1) pkt(4,5)] by blast
  then obtain f' vip' bs' mi' ic' len' tos' r' check where tx: "classify m frame = Fwd f' vip' bs' mi' ic' len' tos'"
    "r' = chosen_real m (cpu k) f' (vip_id vip') (uses_ct (config m) vip') bs'"
    "frame' = tunnel_frame (mac (neigh m r')) (lb_mac (config m))
       (outer_header (outer_source (config m) (flow_hash f')) (real_addr (reals m r')) (ucast (len' + 20)) tos' check) (drop 14 frame)"
    by (rule xdp_TX [OF pkt(1)]) blast
  then show ?thesis using run pkt(2) chosen p(1,2) by (auto simp: usable_real_def)
qed

lemma pinned_tracked: "pinned_state (demo_maps\<lparr>conntrack := t\<rparr>)"
  by (auto simp: pinned_state_def dp_safe_def pinned_ok_def demo_maps_def usable_real_def zero_pb_real_def PB_MAX_REALS_def
      PB_MAX_VIPS_def zero_mac_def le32_def in_set_replicate split: if_splits)

lemma tracked_rings: "demo_maps\<lparr>conntrack := t, rings := rings demo_maps\<rparr> = demo_maps\<lparr>conntrack := t\<rparr>"
  by (simp add: demo_maps_def)

definition demo_vip :: vip_config where
  "demo_vip = \<lparr>vc_spec = demo_sp, vc_no_conntrack = False, vc_reals = [\<lparr>rc_addr = demo_real, rc_weight = 1\<rparr>]\<rparr>"

lemma demo_vip_ok: "keeps {(demo_sp, demo_real, r)} (Apply (demo_config [demo_vip]))"
  by (simp add: keeps_def op_ok_def validate_config_Inr config_ok_def demo_config_def health_ok_def config_addrs_def demo_vip_def
      reals_ok_def kMaxRealWeight_def demo_real_def le32_def op_keeps_def)

theorem connections_survive_witness:
  "\<exists>s m' check. later demo_env (keeps {(demo_sp, demo_real, 1)}) (goes_on 0 demo_flow) (start_on (demo_maps\<lparr>conntrack := demo_ct\<rparr>)) s \<and>
     xdp_packetbalance demo_kernel (demo_frame 16) (kmaps s) =
       ((XDP_TX, m'), tunnel_frame (Mac 2 0 0 0 0 21) (Mac 2 0 0 0 0 1)
          (outer_header (outer_source (config demo_maps) (flow_hash demo_flow)) demo_real 60 0 check) (drop 14 (demo_frame 16)))"
proof -
  let ?m = "demo_maps\<lparr>conntrack := demo_ct\<rparr>" and ?P = "{(demo_sp, demo_real, 1 :: u32)}"
  let ?s = "start_on ?m" and ?op = "Apply (demo_config [demo_vip])"
  have key: "VipSpec_key demo_sp = \<lparr>vk_addr = le32 198 51 100 1, vk_port = bswap16 80, vk_proto = 6, vk_pad = 0\<rparr>"
    by (simp add: VipSpec_key_def demo_sp_def)
  have u: "usable_real ?m 1" using demo_simps(5) [where t = demo_ct and g = "rings demo_maps"] by (simp only: tracked_rings)
  have "reachable demo_env ?s"
    unfolding reachable_def first_start_def using just_started_start_on pinned_tracked later.now by metis
  moreover have "serves ?s demo_sp demo_real 1"
    using u by (simp add: serves_def just_started_start_on key) (simp add: demo_maps_def demo_real_def start_on_def)
  moreover have "ct_live (kmaps ?s) (cpu demo_kernel) (flow_key demo_flow) 1"
    by (simp add: just_started_start_on demo_simps ct_live_def conntrack_lookup_def)
  moreover have q: "quiet_trace ?s = ?s" by (simp add: quiet_trace_def start_on_def)
  moreover obtain r s1 where run: "run_op demo_env ?op ?s = (r, s1)" by (cases "run_op demo_env ?op ?s")
  then have crashed: "later demo_env (keeps ?P) (goes_on 0 demo_flow) ?s ?s"
    using later.crash [OF later.now, of "keeps ?P" ?op ?s demo_env r s1 ?s "goes_on 0 demo_flow"] demo_vip_ok
    by (simp add: accepts_def just_started_start_on q)
  moreover have "classify ?m (demo_frame 16) = Fwd demo_flow \<lparr>vip_id = 0, vip_flags = 0\<rparr> False True False 40 0"
    using demo_classify [where t = demo_ct and g = "rings demo_maps" and flags = 16]
    by (simp only: tracked_rings) (simp add: bit_numeral_simps)
  moreover have "config ?m = config demo_maps" "mac (neigh ?m 1) = Mac 2 0 0 0 0 21" "lb_mac (config ?m) = Mac 2 0 0 0 0 1"
    by (simp_all add: demo_maps_def)
  ultimately have "\<exists>m' check. xdp_packetbalance demo_kernel (demo_frame 16) ?m =
       ((XDP_TX, m'), tunnel_frame (Mac 2 0 0 0 0 21) (Mac 2 0 0 0 0 1)
          (outer_header (outer_source (config demo_maps) (flow_hash demo_flow)) demo_real 60 0 check) (drop 14 (demo_frame 16)))"
    using connections_survive [OF demo_env_ok(1) demo_keys_law, of ?s demo_sp demo_real 1 demo_kernel demo_flow ?s ?m "demo_frame 16"
        "\<lparr>vip_id = 0, vip_flags = 0\<rparr>" True False 40 0] demo_kernel_ok demo_simps(2,3,9)
    by (simp add: just_started_start_on)
  then show ?thesis using crashed just_started_start_on(3) by metis
qed



text \<open>
  C3.  Every operation does what the specification says, or throws and says why.  For every API call, health report and
  neighbour report, in every reachable state: if it returns, the services and members changed as \<open>lb_step\<close> prescribes;
  if it throws an \<^verbatim>\<open>ApiError\<close>, nothing changed and either the specification allows no such step or a VIP is to be
  added and all 64 ids are taken; if it throws a runtime error, either nothing changed, a real is to be added and all 511
  ids are taken, or the kernel refused an insertion.  It never uses an empty \<^verbatim>\<open>optional\<close> or a dangling reference.
\<close>

theorem operations_refine:
  assumes E: "env_ok E" "keys_law E" and s: "reachable E s" "lb_initialized s" and op: "op_ok op" "\<forall>cfg. op \<noteq> Apply cfg"
    and run: "run_op E op s = (r, s')"
  shows "case r of
      Ret u \<Rightarrow> lb_step op (model_of s) (model_of s')
    | Throw e \<Rightarrow>
        (\<exists>w. e = ApiError w) \<and> s' = s \<and>
          ((\<forall>M'. \<not> lb_step op (model_of s) M') \<or> (\<exists>sp nc. op = AddVip sp nc) \<and> 64 \<le> card (dom (model_of s))) \<or>
        is_runtime_error e \<and>
          (s' = s \<and> (\<exists>sp a w. op = AddReal sp a w) \<and> 511 \<le> card (model_addrs (model_of s)) \<or> \<not> inserts_ok E)
    | Wrong \<Rightarrow> False"
proof -
  let ?c = "here {} (kmaps s)"
  have inv: "lb_inv ?c s" by (rule sys_inv_up [OF reachable_inv [OF E s(1)] s(2)])
  have "op_keeps ?c op" by (simp add: op_keeps_def)
  then have "wp (run_op E op) (\<lambda>_. stepped ?c op s) (refused E ?c op s) s"
    using op_refines [OF E(1) op(1)] op(2) inv by (simp add: refines_def)
  from wp_run [OF this run] show ?thesis
    using vip_ids_taken_card [of s] table_full_card [OF inv]
    by (auto simp: stepped_def refused_def cannot_def failed_def split: outcome.splits)
qed

theorem operations_refine_witness:
  "\<exists>s s'. reachable demo_env s \<and> run_op demo_env (SetDraining demo_sp demo_real True) s = (Ret (), s') \<and>
     on_member demo_sp demo_real (\<lambda>m. m\<lparr>m_draining := True\<rparr>) (model_of s) (model_of s')"
proof -
  obtain s v m where s: "reachable demo_env s" "lb_initialized s" "dom (model_of s) = {demo_sp}"
    "smap_find (vips s) demo_sp = Some v" "smap_find (v_members v) demo_real = Some m" "model_addrs (model_of s) = {demo_real}"
    using demo_served by blast
  obtain r s' where run: "run_op demo_env (SetDraining demo_sp demo_real True) s = (r, s')"
    by (cases "run_op demo_env (SetDraining demo_sp demo_real True) s")
  have "\<exists>M'. on_member demo_sp demo_real (\<lambda>m. m\<lparr>m_draining := True\<rparr>) (model_of s) M'"
    using s(4,5) by (auto simp: on_member_def model_of_def vip_model_def)
  then show ?thesis
    using operations_refine [OF demo_env_ok(1) demo_keys_law s(1,2) _ _ run] demo_env_ok(2) s(1,3,6) run
    by (auto simp: op_ok_def lb_step_def split: outcome.splits)
qed







text \<open>
  C9.  A reload applies the configuration and nothing else.  If it returns, the services, flags, members and weights are
  exactly the configured ones, a member that stays in its service keeps its health, its counters and its draining mark,
  a new one starts fresh, and hash, next hop and health checking are the configured ones.  It throws only if the
  interface's MAC cannot be read (then nothing has changed), if the kernel refuses an insertion, or if the old and the new
  configuration together name more than 511 reals.
\<close>

theorem reload_applies:
  assumes E: "env_ok E" "keys_law E" and s: "reachable E s" "lb_initialized s" and cfg: "validate_config cfg = Inr ()"
    and run: "apply_config E cfg s = (r, s')"
  shows "case r of
      Ret u \<Rightarrow> reloaded cfg (model_of s) (model_of s') \<and> lb_hash s' = c_hash cfg \<and> lb_next_hop s' = c_next_hop cfg \<and>
        lb_health_enabled s' = hc_enabled (c_health cfg)
    | Throw e \<Rightarrow> is_runtime_error e \<and>
        (s' = s \<and> Mac_parse (if_address E (lb_interface s)) = None \<or> \<not> inserts_ok E \<or>
         511 < card (model_addrs (model_of s) \<union> config_addrs (c_vips cfg)))
    | Wrong \<Rightarrow> False"
proof -
  let ?c = "here {} (kmaps s)"
  have inv: "lb_inv ?c s" by (rule sys_inv_up [OF reachable_inv [OF E s(1)] s(2)])
  have "config_ok cfg" "op_keeps ?c (Apply cfg)" using cfg by (simp_all add: validate_config_Inr op_keeps_def)
  then have "wp (apply_config E cfg)
    (\<lambda>_ s'. reloaded cfg (model_of s) (model_of s') \<and> lb_hash s' = c_hash cfg \<and> lb_next_hop s' = c_next_hop cfg \<and>
        lb_health_enabled s' = hc_enabled (c_health cfg))
    (\<lambda>e s'. is_runtime_error e \<and> (s' = s \<and> Mac_parse (if_address E (lb_interface s)) = None \<or> \<not> inserts_ok E \<or>
         511 < card (model_addrs (model_of s) \<union> config_addrs (c_vips cfg)))) s"
    by (rule wp_reload [OF E(1) inv]) (auto simp: set_to_def fits_def not_le)
  from wp_run [OF this run] show ?thesis by simp
qed

theorem reload_applies_witness:
  "\<exists>s s'. reachable demo_env s \<and> dom (model_of s) = {demo_sp} \<and> apply_config demo_env (demo_config []) s = (Ret (), s') \<and>
     dom (model_of s') = {}"
proof -
  obtain s where s: "reachable demo_env s" "lb_initialized s" "dom (model_of s) = {demo_sp}"
    "model_addrs (model_of s) = {demo_real}"
    using demo_served by blast
  obtain r s' where run: "apply_config demo_env (demo_config []) s = (r, s')" by (cases "apply_config demo_env (demo_config []) s")
  have "config_addrs (c_vips (demo_config [])) = {}" "c_vips (demo_config []) = []" by (simp_all add: config_addrs_def demo_config_def)
  then show ?thesis
    using reload_applies [OF demo_env_ok(1) demo_keys_law s(1,2) demo_config_ok run] s demo_env_ok(2)
      demo_mac [of "lb_interface s"] run
    by (auto simp: reloaded_def split: outcome.splits)
qed


lemma demo_neighbor:
  "\<exists>s s' ip. reachable demo_env s \<and> lb_initialized s \<and> id_of s demo_real \<noteq> None \<and>
     (case lb_next_hop s of None \<Rightarrow> demo_real = ip | Some h \<Rightarrow> h = ip) \<and>
     neighbor_resolved demo_env ip (Mac 2 0 0 0 0 21) s = (Ret (), s')"
proof -
  obtain s v m where s: "reachable demo_env s" "lb_initialized s" "smap_find (vips s) demo_sp = Some v" "member_addrs v = {demo_real}"
    using demo_served by blast
  have inv: "lb_inv (here {} (kmaps s)) s" by (rule sys_inv_up [OF reachable_inv [OF demo_env_ok(1) demo_keys_law s(1)] s(2)])
  have "id_of s demo_real \<noteq> None" using member_id [OF coreD(4) [OF lb_inv_core [OF inv]] _ s(3)] s(4) by simp
  moreover obtain ip where "case lb_next_hop s of None \<Rightarrow> demo_real = ip | Some h \<Rightarrow> h = ip" by (cases "lb_next_hop s") auto
  moreover have "wp (neighbor_resolved demo_env ip (Mac 2 0 0 0 0 21)) (\<lambda>_ _. True) (\<lambda>_ _. False) s"
    using demo_env_ok(2) by (intro wp_neighbor_resolved [OF demo_env_ok(1) inv]) (simp_all add: failed_def zero_mac_def)
  then have "\<exists>s'. neighbor_resolved demo_env ip (Mac 2 0 0 0 0 21) s = (Ret (), s')"
    by (auto simp: wp_def split: prod.splits outcome.splits)
  ultimately show ?thesis using s(1,2) by blast
qed


end
