(* ===== verification/Map_Reader.thy ===== *)
theory Map_Reader
  imports Dataplane_Claims Kernel_Calls
begin

text \<open>
  \<^verbatim>\<open>src/daemon/map_reader.cpp\<close>, \<^verbatim>\<open>src/daemon/counters.h\<close> and \<^verbatim>\<open>read_ring\<close> of \<^verbatim>\<open>src/daemon/ring_map.cpp\<close>: what the
  daemon reads back from the maps of the data plane.

  The counters are read from one state of the maps.  The connection table is walked with one call at a
  time while the data plane inserts and the kernel evicts, so the results of the \<open>n\<close>-th \<^verbatim>\<open>bpf_map_get_next_key\<close>
  and \<^verbatim>\<open>bpf_map_lookup_elem\<close> are parameters (\<open>walker\<close>); \<open>quiet_walk\<close> is the documented behaviour on a table
  that nobody changes.  Likewise the batches of \<^verbatim>\<open>bpf_map_lookup_batch\<close> are parameters (\<open>ring_reader\<close>), and
  \<open>batches_of\<close> states what the kernel documents for an array.
\<close>

section \<open>Construction\<close>

record map_reader =
  ncpus :: nat
  ct_max_entries :: u32

text \<open>\<open>cpus\<close> is \<^verbatim>\<open>libbpf_num_possible_cpus()\<close>, \<open>info\<close> the \<^verbatim>\<open>max_entries\<close> of the map info, if the call succeeds.\<close>

definition new_map_reader :: "int \<Rightarrow> u32 option \<Rightarrow> map_reader result" where
  "new_map_reader cpus info =
     (if cpus \<le> 0 then Inl (RuntimeError ''libbpf_num_possible_cpus failed'')
      else Inr \<lparr>ncpus = nat cpus, ct_max_entries = (case info of Some n \<Rightarrow> n | None \<Rightarrow> 0)\<rparr>)"

section \<open>Counters\<close>

definition lookup_percpu :: "(cpu_id \<Rightarrow> 'a) option \<Rightarrow> nat \<Rightarrow> 'a list" where
  "lookup_percpu elem n = (case elem of None \<Rightarrow> [] | Some value \<Rightarrow> map value [0..<n])"

definition stats_elem :: "maps \<Rightarrow> u32 \<Rightarrow> (cpu_id \<Rightarrow> pb_stats) option" where
  "stats_elem m index = map_option (\<lambda>i c. stats m c i) (stats_slot index)"

definition real_stats_elem :: "maps \<Rightarrow> u32 \<Rightarrow> (cpu_id \<Rightarrow> pb_real_stats) option" where
  "real_stats_elem m real_id = (if real_id < PB_MAX_REALS then Some (\<lambda>c. real_stats m c real_id) else None)"

definition counters :: "map_reader \<Rightarrow> maps \<Rightarrow> u32 \<Rightarrow> pb_stats" where
  "counters r m index =
     foldl (\<lambda>sum_so_far cpu i. sum_so_far i + cpu i) (\<lambda>_. 0) (lookup_percpu (stats_elem m index) (ncpus r))"

definition real_counters :: "map_reader \<Rightarrow> maps \<Rightarrow> u32 \<Rightarrow> pb_real_stats" where
  "real_counters r m real_id =
     foldl (\<lambda>acc cpu. \<lparr>rs_packets = rs_packets acc + rs_packets cpu, rs_bytes = rs_bytes acc + rs_bytes cpu\<rparr>)
       \<lparr>rs_packets = 0, rs_bytes = 0\<rparr> (lookup_percpu (real_stats_elem m real_id) (ncpus r))"

definition all_counters :: "pb_counter list" where
  "all_counters =
     [PB_CNT_PACKETS, PB_CNT_BYTES, PB_CNT_CT_HIT, PB_CNT_CT_MISS, PB_CNT_HASH, PB_CNT_SYN, PB_CNT_TX, PB_CNT_PASS,
      PB_CNT_DROP_FRAG, PB_CNT_DROP_OPTS, PB_CNT_DROP_NO_REAL, PB_CNT_DROP_ADJ_HEAD, PB_CNT_DROP_MTU, PB_CNT_DROP_SHORT,
      PB_CNT_DROP_OTHER, PB_CNT_ICMP_PMTU_FWD]"

definition kCounterNames :: "string list" where
  "kCounterNames =
     [''packets'', ''bytes'', ''ct_hit'', ''ct_miss'', ''hash'', ''syn'', ''tx'', ''pass'', ''drop_frag'', ''drop_opts'',
      ''drop_no_real'', ''drop_adj_head'', ''drop_mtu'', ''drop_short'', ''drop_other'', ''icmp_pmtu_fwd'']"

section \<open>The connection table\<close>

record flow_row =
  fr_key :: pb_ct_key
  fr_value :: pb_ct_value
  fr_cpu :: u32

record walker =
  ct_next :: "nat \<Rightarrow> pb_ct_key option \<Rightarrow> pb_ct_key option"
  ct_get :: "nat \<Rightarrow> pb_ct_key \<Rightarrow> (cpu_id \<Rightarrow> pb_ct_value) option"

type_synonym flow_filter = "(pb_ct_key \<Rightarrow> pb_ct_value \<Rightarrow> bool) option"

definition keeps_row :: "flow_filter \<Rightarrow> pb_ct_key \<Rightarrow> pb_ct_value \<Rightarrow> bool" where
  "keeps_row keep key v \<longleftrightarrow> (case keep of None \<Rightarrow> True | Some f \<Rightarrow> f key v)"

fun cpus_loop :: "flow_filter \<Rightarrow> nat \<Rightarrow> pb_ct_key \<Rightarrow> (cpu_id \<Rightarrow> pb_ct_value) \<Rightarrow> cpu_id list \<Rightarrow> flow_row list \<Rightarrow> flow_row list" where
  "cpus_loop keep limit key values [] rows = rows"
| "cpus_loop keep limit key values (c # cs) rows =
     (if length rows \<ge> limit then rows
      else if last_seen_ns (values c) = 0 then cpus_loop keep limit key values cs rows
      else if \<not> keeps_row keep key (values c) then cpus_loop keep limit key values cs rows
      else cpus_loop keep limit key values cs
             (rows @ [\<lparr>fr_key = key, fr_value = values c, fr_cpu = of_nat c\<rparr>]))"

text \<open>The first argument counts down what the bound of the loop leaves; \<open>walked\<close> is the variable of the code.\<close>

fun flows_loop ::
  "walker \<Rightarrow> nat \<Rightarrow> flow_filter \<Rightarrow> nat \<Rightarrow> nat \<Rightarrow> nat \<Rightarrow> pb_ct_key option \<Rightarrow> flow_row list \<Rightarrow> flow_row list" where
  "flows_loop W n keep limit 0 walked key rows = rows"
| "flows_loop W n keep limit (Suc left) walked key rows =
     (if length rows \<ge> limit then rows
      else case ct_next W walked key of
        None \<Rightarrow> rows
      | Some nxt \<Rightarrow>
          (case ct_get W walked nxt of
             None \<Rightarrow> flows_loop W n keep limit left (Suc walked) (Some nxt) rows
           | Some values \<Rightarrow>
               flows_loop W n keep limit left (Suc walked) (Some nxt) (cpus_loop keep limit nxt values [0..<n] rows)))"

definition flows :: "map_reader \<Rightarrow> walker \<Rightarrow> flow_filter \<Rightarrow> nat \<Rightarrow> flow_row list" where
  "flows r W keep limit = flows_loop W (ncpus r) keep limit (Suc (unat (ct_max_entries r))) 0 None []"

fun entries_loop :: "walker \<Rightarrow> nat \<Rightarrow> nat \<Rightarrow> pb_ct_key option \<Rightarrow> nat" where
  "entries_loop W 0 n key = n"
| "entries_loop W (Suc left) n key =
     (case ct_next W n key of None \<Rightarrow> n | Some nxt \<Rightarrow> entries_loop W left (Suc n) (Some nxt))"

definition conntrack_entries :: "map_reader \<Rightarrow> walker \<Rightarrow> nat" where
  "conntrack_entries r W = entries_loop W (Suc (unat (ct_max_entries r))) 0 None"

section \<open>Reading a ring back\<close>

text \<open>
  \<open>rr_lookup\<close> is the id of the inner map (0 if the lookup fails), \<open>rr_open\<close> the descriptor, \<open>rr_errno\<close> the error
  if it is negative, \<open>rr_batch n tok count\<close> the \<open>n\<close>-th batch: error, next token, and the pairs it stored.
\<close>

record ring_reader =
  rr_lookup :: "u32 \<Rightarrow> u32"
  rr_open :: "u32 \<Rightarrow> int"
  rr_errno :: int
  rr_batch :: "u32 \<Rightarrow> nat \<Rightarrow> u32 option \<Rightarrow> u32 \<Rightarrow> int \<times> u32 \<times> (u32 \<times> u32) list"

partial_function (option) batch_loop ::
  "(int \<Rightarrow> string) \<Rightarrow> (nat \<Rightarrow> u32 option \<Rightarrow> u32 \<Rightarrow> int \<times> u32 \<times> (u32 \<times> u32) list) \<Rightarrow> nat \<Rightarrow> u32 option \<Rightarrow> (u32 \<times> u32) list \<Rightarrow>
   (u32 \<times> u32) list result option" where
  [code]: "batch_loop es batch n tok got =
     (if length got < unat PB_RING_SIZE then
        (case batch n tok (of_nat (unat PB_RING_SIZE - length got)) of
           (err, out, part) \<Rightarrow>
             (if err = - ENOENT then Some (Inr (got @ part))
              else if err \<noteq> 0 then Some (Inl (RuntimeError (''read ring map: '' @ es err)))
              else batch_loop es batch (Suc n) (Some out) (got @ part)))
      else Some (Inr got))"

fun store_slots :: "(u32 \<times> u32) list \<Rightarrow> u32 list \<Rightarrow> u32 list" where
  "store_slots [] ring = ring"
| "store_slots ((k, v) # kvs) ring = store_slots kvs (if k < PB_RING_SIZE then ring[unat k := v] else ring)"

definition read_ring :: "(int \<Rightarrow> string) \<Rightarrow> ring_reader \<Rightarrow> u32 \<Rightarrow> u32 list result option" where
  "read_ring es R vid =
     (let inner_id = rr_lookup R vid in
      if inner_id = 0 then Some (Inr [])
      else if rr_open R inner_id < 0 then
        Some (Inl (RuntimeError (''open ring map id '' @ to_string (unat inner_id) @ '': '' @ es (rr_errno R))))
      else
        (case batch_loop es (rr_batch R inner_id) 0 None [] of
           None \<Rightarrow> None
         | Some (Inl e) \<Rightarrow> Some (Inl e)
         | Some (Inr got) \<Rightarrow> Some (Inr (store_slots got (replicate (unat PB_RING_SIZE) PB_REAL_NONE)))))"

section \<open>What the kernel documents\<close>

definition quiet_walk :: "walker \<Rightarrow> ct_table \<Rightarrow> pb_ct_key list \<Rightarrow> bool" where
  "quiet_walk W t ks \<longleftrightarrow>
     distinct ks \<and> set ks = dom t \<and> (\<forall>n k. ct_get W n k = t k) \<and>
     (\<forall>n. ct_next W n None = (if ks = [] then None else Some (ks ! 0))) \<and>
     (\<forall>n i. i < length ks \<longrightarrow> ct_next W n (Some (ks ! i)) = (if Suc i < length ks then Some (ks ! Suc i) else None))"

text \<open>
  A batch from position \<open>p\<close> stores the next entries, at least one and at most as many as asked for, and says
  \<^verbatim>\<open>ENOENT\<close> only at the end.  \<open>pos\<close> is the position a token stands for.
\<close>

definition batches_of :: "u32 list \<Rightarrow> (u32 option \<Rightarrow> nat) \<Rightarrow> (nat \<Rightarrow> u32 option \<Rightarrow> u32 \<Rightarrow> int \<times> u32 \<times> (u32 \<times> u32) list) \<Rightarrow> bool" where
  "batches_of ring pos batch \<longleftrightarrow>
     pos None = 0 \<and>
     (\<forall>n tok count. pos tok < length ring \<and> 0 < count \<longrightarrow>
        (\<exists>err out k. batch n tok count = (err, out, map (\<lambda>i. (of_nat i, ring ! i)) [pos tok..<pos tok + k]) \<and>
           0 < k \<and> k \<le> unat count \<and> pos tok + k \<le> length ring \<and>
           (err = 0 \<and> pos (Some out) = pos tok + k \<or> err = - ENOENT \<and> pos tok + k = length ring)))"

section \<open>Sums over the CPUs\<close>

lemma counters_sum:
  "counters r m index x =
     (case stats_slot index of None \<Rightarrow> 0 | Some i \<Rightarrow> sum_list (map (\<lambda>c. stats m c i x) [0..<ncpus r]))"
proof -
  have "foldl (\<lambda>acc cpu i. acc i + cpu i) s vs x = s x + sum_list (map (\<lambda>v. v x) vs)" for s and vs :: "pb_stats list"
    by (induction vs arbitrary: s) (simp_all add: add.assoc)
  then show ?thesis
    by (auto simp: counters_def lookup_percpu_def stats_elem_def comp_def split: option.split)
qed

lemma real_counters_sum:
  "real_id < PB_MAX_REALS \<Longrightarrow>
   real_counters r m real_id = \<lparr>rs_packets = sum_list (map (\<lambda>c. rs_packets (real_stats m c real_id)) [0..<ncpus r]),
     rs_bytes = sum_list (map (\<lambda>c. rs_bytes (real_stats m c real_id)) [0..<ncpus r])\<rparr>"
proof -
  have "foldl (\<lambda>acc cpu. \<lparr>rs_packets = rs_packets acc + rs_packets cpu, rs_bytes = rs_bytes acc + rs_bytes cpu\<rparr>) s vs =
      \<lparr>rs_packets = rs_packets s + sum_list (map rs_packets vs), rs_bytes = rs_bytes s + sum_list (map rs_bytes vs)\<rparr>"
    for s :: pb_real_stats and vs :: "pb_real_stats list"
    by (induction vs arbitrary: s) (simp_all add: add.assoc)
  then show "real_id < PB_MAX_REALS \<Longrightarrow> ?thesis"
    by (simp add: real_counters_def lookup_percpu_def real_stats_elem_def comp_def)
qed

lemma sum_list_balance:
  fixes f g :: "'a \<Rightarrow> u64"
  assumes "\<And>c. c \<in> set cs \<Longrightarrow> f c = g c"
  shows "sum_list (map f cs) = sum_list (map g cs)"
  using assms by (induction cs) auto

section \<open>Walking the table\<close>

definition row :: "pb_ct_key \<Rightarrow> (cpu_id \<Rightarrow> pb_ct_value) \<Rightarrow> cpu_id \<Rightarrow> flow_row" where
  "row key values c = \<lparr>fr_key = key, fr_value = values c, fr_cpu = of_nat c\<rparr>"

definition shown :: "flow_filter \<Rightarrow> pb_ct_key \<Rightarrow> (cpu_id \<Rightarrow> pb_ct_value) \<Rightarrow> cpu_id \<Rightarrow> bool" where
  "shown keep key values c \<longleftrightarrow> last_seen_ns (values c) \<noteq> 0 \<and> keeps_row keep key (values c)"

definition rows_of :: "flow_filter \<Rightarrow> nat \<Rightarrow> ct_table \<Rightarrow> pb_ct_key \<Rightarrow> flow_row list" where
  "rows_of keep n t key =
     (case t key of None \<Rightarrow> [] | Some values \<Rightarrow> map (row key values) (filter (shown keep key values) [0..<n]))"

lemma cpus_loop_take:
  "length rows \<le> limit \<Longrightarrow>
   cpus_loop keep limit key values cs rows = take limit (rows @ map (row key values) (filter (shown keep key values) cs))"
  by (induction cs arbitrary: rows) (auto simp: shown_def row_def take_Cons' Suc_diff_Suc)

lemma take_take_append: "take n (take n xs @ ys) = take n (xs @ ys)"
  by (cases "length xs \<le> n") auto

lemma flows_loop_quiet:
  assumes "quiet_walk W t ks" "i \<le> length ks" "length ks \<le> i + left" "length rows \<le> limit"
    "key = (if i = 0 then None else Some (ks ! (i - 1)))"
  shows "flows_loop W n keep limit left walked key rows = take limit (rows @ concat (map (rows_of keep n t) (drop i ks)))"
  using assms(2-5)
proof (induction left arbitrary: i walked key rows)
  case (Suc left)
  note w = assms(1) [unfolded quiet_walk_def]
  show ?case
  proof (cases "length rows \<ge> limit \<or> i = length ks")
    case True
    have "ct_next W walked key = None" if "i = length ks"
      using w Suc.prems(4) that by (cases i) auto
    then show ?thesis using True Suc.prems(3) by auto
  next
    case False
    then have i: "i < length ks" using Suc.prems(1) by simp
    have nxt: "ct_next W walked key = Some (ks ! i)" using w Suc.prems(4) i by (cases i) auto
    obtain vals where v: "t (ks ! i) = Some vals" using w i by (metis domD nth_mem)
    let ?rows = "take limit (rows @ map (row (ks ! i) vals) (filter (shown keep (ks ! i) vals) [0..<n]))"
    have "flows_loop W n keep limit left (Suc walked) (Some (ks ! i)) ?rows =
        take limit (?rows @ concat (map (rows_of keep n t) (drop (Suc i) ks)))"
      by (rule Suc.IH) (use i Suc.prems(2) in simp_all)
    also have "\<dots> = take limit (rows @ concat (map (rows_of keep n t) (drop i ks)))"
      unfolding take_take_append Cons_nth_drop_Suc [OF i, symmetric] by (simp add: rows_of_def v)
    finally show ?thesis using False nxt v w Suc.prems(3) by (simp add: cpus_loop_take)
  qed
qed simp

lemma entries_loop_quiet:
  assumes "quiet_walk W t ks" "i \<le> length ks" "key = (if i = 0 then None else Some (ks ! (i - 1)))"
  shows "entries_loop W left i key = min (i + left) (length ks)"
  using assms(2,3)
proof (induction left arbitrary: i key)
  case (Suc left)
  note w = assms(1) [unfolded quiet_walk_def]
  show ?case
  proof (cases "i = length ks")
    case True
    then have "ct_next W i key = None" using w Suc.prems(2) by (cases i) auto
    then show ?thesis using True by simp
  next
    case False
    then have i: "i < length ks" using Suc.prems(1) by simp
    then have "ct_next W i key = Some (ks ! i)" using w Suc.prems(2) by (cases i) auto
    then show ?thesis using Suc.IH [of "Suc i" "Some (ks ! i)"] i by simp
  qed
qed simp

text \<open>What every walk promises, whatever happens to the table meanwhile.\<close>

definition row_ok :: "walker \<Rightarrow> nat \<Rightarrow> flow_filter \<Rightarrow> nat \<Rightarrow> flow_row \<Rightarrow> bool" where
  "row_ok W n keep calls x \<longleftrightarrow>
     (\<exists>i < calls. \<exists>values. ct_get W i (fr_key x) = Some values \<and>
        (\<exists>c < n. fr_value x = values c \<and> fr_cpu x = of_nat c \<and> shown keep (fr_key x) values c))"

lemma row_ok_mono: "row_ok W n keep calls x \<Longrightarrow> calls \<le> calls' \<Longrightarrow> row_ok W n keep calls' x"
  unfolding row_ok_def by (elim exE conjE) (intro exI conjI, auto)

lemma flows_loop_ok:
  assumes "length rows \<le> limit" "\<forall>x \<in> set rows. row_ok W n keep walked x"
  shows "length (flows_loop W n keep limit left walked key rows) \<le> limit \<and>
    (\<forall>x \<in> set (flows_loop W n keep limit left walked key rows). row_ok W n keep (walked + left) x)"
  using assms
proof (induction left arbitrary: walked key rows)
  case (Suc left)
  show ?case
  proof (cases "length rows \<ge> limit \<or> ct_next W walked key = None")
    case True
    then have "flows_loop W n keep limit (Suc left) walked key rows = rows" by auto
    moreover have "\<forall>x \<in> set rows. row_ok W n keep (walked + Suc left) x"
      using Suc.prems(2) row_ok_mono [of W n keep walked _ "walked + Suc left"] by simp
    ultimately show ?thesis using Suc.prems(1) by simp
  next
    case False
    then obtain nxt where nxt: "ct_next W walked key = Some nxt" by auto
    have old: "\<forall>x \<in> set rows. row_ok W n keep (Suc walked) x" using Suc.prems(2) row_ok_mono [of W n keep walked] by simp
    show ?thesis
    proof (cases "ct_get W walked nxt")
      case None
      then show ?thesis using Suc.IH [OF Suc.prems(1) old] False nxt by simp
    next
      case (Some vals)
      let ?rows = "cpus_loop keep limit nxt vals [0..<n] rows"
      have c: "?rows = take limit (rows @ map (row nxt vals) (filter (shown keep nxt vals) [0..<n]))"
        by (rule cpus_loop_take [OF Suc.prems(1)])
      have new: "row_ok W n keep (Suc walked) (row nxt vals i)" if "i < n" "shown keep nxt vals i" for i
        unfolding row_ok_def row_def using that Some by (intro exI [of _ walked] conjI exI [of _ vals] exI [of _ i]) auto
      have "row_ok W n keep (Suc walked) x" if x: "x \<in> set ?rows" for x
      proof -
        have "x \<in> set rows \<or> (\<exists>i < n. shown keep nxt vals i \<and> x = row nxt vals i)"
          using in_set_takeD [OF x [unfolded c]] by auto
        then show ?thesis using old new by blast
      qed
      then show ?thesis using Suc.IH [of ?rows "Suc walked" "Some nxt"] False nxt Some by (simp add: c)
    qed
  qed
qed simp

section \<open>Reading a ring\<close>

lemma unat_of_nat_small: "n < 2 ^ 32 \<Longrightarrow> unat (of_nat n :: u32) = n"
  by (simp add: unat_of_nat)

lemma store_slots_prefix:
  assumes "i + k \<le> length ring" "length ring = unat PB_RING_SIZE" "length base = unat PB_RING_SIZE"
  shows "store_slots (map (\<lambda>j. (of_nat j, ring ! j)) [i..<i + k]) (take i ring @ drop i base) = take (i + k) ring @ drop (i + k) base"
  using assms(1)
proof (induction k arbitrary: i)
  case (Suc k)
  have i: "i < length ring" using Suc.prems by simp
  have w: "(of_nat i :: u32) < PB_RING_SIZE" "unat (of_nat i :: u32) = i"
    using i assms(2) by (simp_all add: word_less_nat_alt unat_of_nat)
  have "(take i ring @ drop i base)[i := ring ! i] = take (Suc i) ring @ drop (Suc i) base"
  proof (rule nth_equalityI)
    show "length ((take i ring @ drop i base)[i := ring ! i]) = length (take (Suc i) ring @ drop (Suc i) base)"
      using i assms(2,3) by simp
    fix j
    assume "j < length ((take i ring @ drop i base)[i := ring ! i])"
    then show "(take i ring @ drop i base)[i := ring ! i] ! j = (take (Suc i) ring @ drop (Suc i) base) ! j"
      using i assms(2,3) by (auto simp: nth_append nth_list_update min_def less_Suc_eq)
  qed
  then have "store_slots (map (\<lambda>j. (of_nat j, ring ! j)) (i # [Suc i..<Suc i + k])) (take i ring @ drop i base) =
      take (Suc i + k) ring @ drop (Suc i + k) base"
    using Suc.IH [of "Suc i"] Suc.prems w by simp
  moreover have "[i..<i + Suc k] = i # [Suc i..<Suc i + k]" by (simp add: upt_conv_Cons)
  ultimately show ?case by simp
qed simp

lemma store_all_slots:
  assumes "length ring = unat PB_RING_SIZE"
  shows "store_slots (map (\<lambda>j. (of_nat j, ring ! j)) [0..<length ring]) (replicate (unat PB_RING_SIZE) PB_REAL_NONE) = ring"
  using store_slots_prefix [of 0 "length ring" ring "replicate (unat PB_RING_SIZE) PB_REAL_NONE"] assms by simp

lemma batch_loop_reads:
  assumes law: "batches_of ring pos batch" and len: "length ring = unat PB_RING_SIZE"
    and "pos tok \<le> length ring" "got = map (\<lambda>j. (of_nat j, ring ! j)) [0..<pos tok]"
  shows "batch_loop es batch n tok got = Some (Inr (map (\<lambda>j. (of_nat j, ring ! j)) [0..<length ring]))"
  using assms(3,4)
proof (induction "length ring - pos tok" arbitrary: n tok got rule: less_induct)
  case less
  show ?case
  proof (cases "pos tok = length ring")
    case True
    then show ?thesis using less.prems len by (simp add: batch_loop.simps)
  next
    case False
    then have p: "pos tok < length ring" using less.prems(1) by simp
    let ?count = "of_nat (unat PB_RING_SIZE - length got) :: u32"
    have n: "unat PB_RING_SIZE - length got = length ring - pos tok" using less.prems(2) len by simp
    have c: "unat ?count = length ring - pos tok"
      unfolding n using len by (intro unat_of_nat_small) simp
    then have c0: "0 < ?count" using p by (metis unat_gt_0 word_gt_0 zero_less_diff)
    obtain err out k where b: "batch n tok ?count = (err, out, map (\<lambda>i. (of_nat i, ring ! i)) [pos tok..<pos tok + k])"
      "0 < k" "pos tok + k \<le> length ring"
      "err = 0 \<and> pos (Some out) = pos tok + k \<or> err = - ENOENT \<and> pos tok + k = length ring"
      using law [unfolded batches_of_def, THEN conjunct2, rule_format, of tok ?count n] p c0 by blast
    let ?got = "map (\<lambda>j. (of_nat j, ring ! j)) [0..<pos tok + k]"
    have g: "got @ map (\<lambda>i. (of_nat i, ring ! i)) [pos tok..<pos tok + k] = ?got"
      using less.prems(2) by (simp add: upt_add_eq_append [of 0 "pos tok" k])
    have lt: "length got < unat PB_RING_SIZE" using p less.prems(2) len by simp
    from b(4) show ?thesis
    proof (elim disjE conjE)
      assume e: "err = 0" "pos (Some out) = pos tok + k"
      then have "batch_loop es batch (Suc n) (Some out) ?got = Some (Inr (map (\<lambda>j. (of_nat j, ring ! j)) [0..<length ring]))"
        using p b(2,3) by (intro less.hyps) simp_all
      moreover have "err \<noteq> - ENOENT" using e by (simp add: ENOENT_def)
      ultimately show ?thesis using lt b(1) e(1) g by (subst batch_loop.simps) simp
    next
      assume "err = - ENOENT" "pos tok + k = length ring"
      then show ?thesis using lt b(1) g by (subst batch_loop.simps) simp
    qed
  qed
qed

text \<open>A kernel that serves one slot per call.\<close>

definition slow_batch :: "u32 list \<Rightarrow> nat \<Rightarrow> u32 option \<Rightarrow> u32 \<Rightarrow> int \<times> u32 \<times> (u32 \<times> u32) list" where
  "slow_batch ring n tok count =
     (let p = (case tok of None \<Rightarrow> 0 | Some b \<Rightarrow> unat b) in (0, of_nat (Suc p), [(of_nat p, ring ! p)]))"

lemma slow_batches:
  fixes pos :: "u32 option \<Rightarrow> nat"
  defines "pos \<equiv> \<lambda>tok. case tok of None \<Rightarrow> 0 | Some b \<Rightarrow> unat b"
  assumes "length ring < 2 ^ 32"
  shows "batches_of ring pos (slow_batch ring)"
  unfolding batches_of_def
proof (intro conjI allI impI)
  fix n tok and count :: u32
  assume A: "pos tok < length ring \<and> 0 < count"
  have "unat (of_nat (Suc (pos tok)) :: u32) = Suc (pos tok)" using A assms(2) by (intro unat_of_nat_small) simp
  then have "pos (Some (of_nat (Suc (pos tok)))) = pos tok + 1" by (simp add: pos_def)
  moreover have "1 \<le> unat count" using A by (simp add: word_less_nat_alt)
  ultimately show "\<exists>err out k. slow_batch ring n tok count = (err, out, map (\<lambda>i. (of_nat i, ring ! i)) [pos tok..<pos tok + k]) \<and>
      0 < k \<and> k \<le> unat count \<and> pos tok + k \<le> length ring \<and>
      (err = 0 \<and> pos (Some out) = pos tok + k \<or> err = - ENOENT \<and> pos tok + k = length ring)"
    using A
    by (intro exI [of _ 0] exI [of _ "of_nat (Suc (pos tok))"] exI [of _ 1]) (simp add: slow_batch_def pos_def Let_def)
qed (simp add: pos_def)

section \<open>Claims\<close>



text \<open>
  C39.  The flow listing.  Whatever happens to the table during the walk, \<^verbatim>\<open>MapReader::flows\<close> makes at most
  \<^verbatim>\<open>max_entries\<close> + 1 lookups and returns at most \<^verbatim>\<open>limit\<close> rows, each of which was read from the table in one of them, is in
  use on its CPU and passes the filter.  On a table that nobody changes, and that holds no more than \<^verbatim>\<open>max_entries\<close> keys, it
  lists exactly the first \<^verbatim>\<open>limit\<close> such copies in the order of the kernel, and \<^verbatim>\<open>conntrack_entries\<close> is the number of keys.
\<close>

theorem flows_listing:
  shows "length (flows r W keep limit) \<le> limit \<and>
    (\<forall>x \<in> set (flows r W keep limit). row_ok W (ncpus r) keep (Suc (unat (ct_max_entries r))) x) \<and>
    (quiet_walk W t ks \<and> length ks \<le> unat (ct_max_entries r) \<longrightarrow>
       flows r W keep limit = take limit (concat (map (rows_of keep (ncpus r) t) ks)) \<and>
       conntrack_entries r W = card (dom t))"
proof -
  have "flows r W keep limit = take limit (concat (map (rows_of keep (ncpus r) t) ks)) \<and> conntrack_entries r W = card (dom t)"
    if q: "quiet_walk W t ks" "length ks \<le> unat (ct_max_entries r)"
  proof -
    have "distinct ks" "set ks = dom t" using q(1) by (simp_all add: quiet_walk_def)
    then show ?thesis
      using flows_loop_quiet [OF q(1), of 0 _ "[]"] entries_loop_quiet [OF q(1), of 0] q(2) distinct_card [of ks]
      by (simp add: flows_def conntrack_entries_def del: flows_loop.simps entries_loop.simps)
  qed
  then show ?thesis
    using flows_loop_ok [of "[]" limit W "ncpus r" keep 0 "Suc (unat (ct_max_entries r))" None]
    by (simp add: flows_def del: flows_loop.simps)
qed

theorem flows_listing_witness:
  "let W = \<lparr>ct_next = (\<lambda>_ k. case k of None \<Rightarrow> Some (flow_key demo_flow) | Some _ \<Rightarrow> None), ct_get = (\<lambda>_. conntrack tracked_maps)\<rparr>
   in map fr_cpu (flows \<lparr>ncpus = 2, ct_max_entries = 8\<rparr> W None 10) = [0] \<and>
      conntrack_entries \<lparr>ncpus = 2, ct_max_entries = 8\<rparr> W = 1"
proof -
  let ?W = "\<lparr>ct_next = (\<lambda>_ k. case k of None \<Rightarrow> Some (flow_key demo_flow) | Some _ \<Rightarrow> None), ct_get = (\<lambda>_. conntrack tracked_maps)\<rparr>"
  have "quiet_walk ?W (conntrack tracked_maps) [flow_key demo_flow]" by (simp add: quiet_walk_def)
  then show ?thesis
    using flows_listing [of "\<lparr>ncpus = 2, ct_max_entries = 8\<rparr>" ?W None 10 "conntrack tracked_maps" "[flow_key demo_flow]"]
    by (simp add: rows_of_def row_def shown_def keeps_row_def upt_rec zero_ct_value_def)
qed

text \<open>
  C38.  Reading a ring back terminates and gives the ring.  If the kernel serves the batches of an installed ring as it
  documents, \<^verbatim>\<open>read_ring\<close> returns, without an error, exactly the 65537 slots \<^verbatim>\<open>install_ring\<close> wrote.
\<close>

theorem read_ring_returns:
  assumes "rr_lookup R vid \<noteq> 0" "rr_open R (rr_lookup R vid) \<ge> 0" "length ring = unat PB_RING_SIZE"
    "batches_of ring pos (rr_batch R (rr_lookup R vid))"
  shows "read_ring es R vid = Some (Inr ring)"
proof -
  have "pos None = 0" using assms(4) by (simp add: batches_of_def)
  then have "batch_loop es (rr_batch R (rr_lookup R vid)) 0 None [] = Some (Inr (map (\<lambda>j. (of_nat j, ring ! j)) [0..<length ring]))"
    by (intro batch_loop_reads [OF assms(4,3)]) simp_all
  then show ?thesis using assms(1,2) store_all_slots [OF assms(3)] by (simp add: read_ring_def Let_def not_less)
qed

theorem read_ring_returns_witness:
  "read_ring (\<lambda>_. []) \<lparr>rr_lookup = (\<lambda>_. 7), rr_open = (\<lambda>_. 3), rr_errno = 0, rr_batch = (\<lambda>_. slow_batch (replicate 65537 1))\<rparr> 0 =
   Some (Inr (replicate 65537 1))"
  using slow_batches [of "replicate 65537 1"] by (intro read_ring_returns) simp_all

end
