(* ===== verification/Json.thy ===== *)
theory Json
  imports Std_Map "HOL-Library.List_Lexorder" "HOL-Library.Char_ord" Vip_Spec
begin

text \<open>
  The values of \<^verbatim>\<open>nlohmann::json\<close> the daemon and \<^verbatim>\<open>pbctl\<close> exchange.  The library is not part of the repository:
  its text format stays a parameter of the code that uses it (parsing a line, dumping a value), and only
  the documented data model is written down here.  An object is a \<^verbatim>\<open>std::map\<close> with string keys, kept as a
  list sorted by key; an integer is what \<^verbatim>\<open>is_number_integer\<close> accepts, \<^verbatim>\<open>int64_t\<close> or \<^verbatim>\<open>uint64_t\<close>; other
  numbers only matter as values that are no integers.
\<close>

section \<open>Values\<close>

datatype json =
    JNull
  | JBool bool
  | JInt int
  | JFloat string
  | JStr string
  | JArr "json list"
  | JObj "(string \<times> json) list"

text \<open>\<^verbatim>\<open>{{"k", v}, ...}\<close> and \<^verbatim>\<open>o["k"] = v\<close>.\<close>

definition obj_put :: "string \<Rightarrow> json \<Rightarrow> (string \<times> json) list \<Rightarrow> (string \<times> json) list" where
  "obj_put k v fs = ins_list k v fs"

definition jobj :: "(string \<times> json) list \<Rightarrow> json" where
  "jobj kvs = JObj (foldl (\<lambda>fields (k, v). obj_put k v fields) [] kvs)"

text \<open>\<^verbatim>\<open>contains\<close> and \<^verbatim>\<open>at\<close>; only an object has members.\<close>

definition jfind :: "json \<Rightarrow> string \<Rightarrow> json option" where
  "jfind j k = (case j of JObj fs \<Rightarrow> map_of fs k | _ \<Rightarrow> None)"

definition jput :: "string \<Rightarrow> json \<Rightarrow> json \<Rightarrow> json" where
  "jput k v j = (case j of JObj fs \<Rightarrow> JObj (obj_put k v fs) | _ \<Rightarrow> j)"

definition is_object :: "json \<Rightarrow> bool" where
  "is_object j \<longleftrightarrow> (case j of JObj _ \<Rightarrow> True | _ \<Rightarrow> False)"

text \<open>\<^verbatim>\<open>get<int64_t>()\<close>: an unsigned number is converted, so one above the range becomes negative.\<close>

definition get_int64 :: "int \<Rightarrow> int" where
  "get_int64 i = (if i \<ge> 2 ^ 63 then i - 2 ^ 64 else i)"

definition JWord :: "'a::len word \<Rightarrow> json" where
  "JWord w = JInt (int (unat w))"

section \<open>Lemmas\<close>

lemma map_of_obj_put [simp]: "map_of (obj_put k v fs) = (map_of fs)(k \<mapsto> v)"
  by (simp add: obj_put_def map_of_ins_list)

lemma map_of_rev_distinct: "distinct (map fst kvs) \<Longrightarrow> map_of (rev kvs) = map_of kvs"
  by (subst map_of_inject_set) (simp_all add: rev_map [symmetric])

lemma map_of_jobj: "distinct (map fst kvs) \<Longrightarrow> jfind (jobj kvs) k = map_of kvs k"
proof -
  have "map_of (foldl (\<lambda>fields (k, v). obj_put k v fields) acc kvs) = map_of acc ++ map_of (rev kvs)" for acc
    by (induction kvs arbitrary: acc) (auto simp: map_add_def fun_eq_iff split: option.splits)
  then show "distinct (map fst kvs) \<Longrightarrow> ?thesis"
    by (simp add: jfind_def jobj_def map_of_rev_distinct)
qed

lemma jfind_jput [simp]: "is_object j \<Longrightarrow> jfind (jput k v j) k' = (if k = k' then Some v else jfind j k')"
  by (auto simp: jfind_def jput_def is_object_def split: json.splits)

lemma is_object_simps [simp]: "is_object (jobj kvs)" "is_object (jput k v j) = is_object j"
  by (auto simp: is_object_def jobj_def jput_def split: json.split)

lemma get_int64_word: "get_int64 (int (unat (w :: u32))) = int (unat w)"
proof -
  have "uint w < 2 ^ 32" using uint_lt2p [of w] by simp
  then show ?thesis by (simp add: get_int64_def)
qed

end
