(* ===== verification/Options.thy ===== *)
theory Options
  imports Config Mac_Addr
begin

text \<open>
  \<^verbatim>\<open>src/daemon/options.cpp\<close>: the command line of the daemon and how it overrides the configuration file, with
  \<^verbatim>\<open>log::parse_level\<close> of \<^verbatim>\<open>src/daemon/log.cpp\<close>.

  The C library's \<^verbatim>\<open>getopt_long\<close> is not modelled: \<open>parse_options\<close> takes the options it returns, one after the other with their
  arguments, and the words it leaves over.  Where the code prints a text and exits, the model returns the exit status
  and the text.  \<open>stoul\<close> is \<^verbatim>\<open>std::stoul\<close> in base 10, with the number of characters it used.
\<close>

section \<open>Numbers in text\<close>

definition stoul :: "string \<Rightarrow> (u64 \<times> nat) result" where
  "stoul s =
     (let (neg, r) = strip_sign (dropWhile isspace s); digits = takeWhile isdigit r; v = dec_val 0 digits
      in if digits = [] then Inl (InvalidArgument ''stoul'')
         else if v \<ge> 2 ^ 64 then Inl (LogicError ''stoul'')
         else Inr (if neg then - of_nat v else of_nat v, length s - length (dropWhile isdigit r)))"

datatype 'a or_exit = Go 'a | Exit nat string

fun what :: "cpp_error \<Rightarrow> string" where
  "what (InvalidArgument w) = w"
| "what (RuntimeError w) = w"
| "what (LogicError w) = w"
| "what (ApiError w) = w"

definition quote :: "string \<Rightarrow> string" where
  "quote s = CHR 0x27 # s @ [CHR 0x27]"

section \<open>Options\<close>

datatype level = Debug | Info | Warn | Error

definition parse_level :: "string \<Rightarrow> level result" where
  "parse_level s =
     (if s = ''debug'' then Inr Debug
      else if s = ''info'' then Inr Info
      else if s = ''warn'' then Inr Warn
      else if s = ''error'' then Inr Error
      else Inl (InvalidArgument (''bad log level (debug|info|warn|error): '' @ s)))"

record options =
  o_config_path :: string
  o_interface :: "string option"
  o_xdp_mode :: "xdp_mode option"
  o_hash :: "hash_mode option"
  o_no_conntrack :: bool
  o_icmp_pmtu :: bool
  o_conntrack_size :: "u32 option"
  o_socket :: "string option"
  o_pin_path :: "string option"
  o_metrics_listen :: "string option"
  o_no_health_check :: bool
  o_detach_on_exit :: bool
  o_recreate_maps :: bool
  o_log_level :: level

definition default_options :: options where
  "default_options =
     \<lparr>o_config_path = ''/etc/packetbalance/packetbalance.yaml'', o_interface = None, o_xdp_mode = None, o_hash = None,
      o_no_conntrack = False, o_icmp_pmtu = False, o_conntrack_size = None, o_socket = None, o_pin_path = None,
      o_metrics_listen = None, o_no_health_check = False, o_detach_on_exit = False, o_recreate_maps = False, o_log_level = Info\<rparr>"

definition override :: "'a option \<Rightarrow> ('a \<Rightarrow> config_data \<Rightarrow> config_data) \<Rightarrow> config_data \<Rightarrow> config_data" where
  "override x f c = (case x of Some v \<Rightarrow> f v c | None \<Rightarrow> c)"

definition apply_to :: "options \<Rightarrow> config_data \<Rightarrow> config_data" where
  "apply_to opts c0 =
     (let c = override (o_interface opts) (\<lambda>v c. c\<lparr>c_interface := v\<rparr>) c0;
          c = override (o_xdp_mode opts) (\<lambda>v c. c\<lparr>c_xdp_mode := v\<rparr>) c;
          c = override (o_hash opts) (\<lambda>v c. c\<lparr>c_hash := v\<rparr>) c;
          c = (if o_no_conntrack opts then c\<lparr>c_conntrack_enabled := False\<rparr> else c);
          c = (if o_icmp_pmtu opts then c\<lparr>c_icmp_pmtu := True\<rparr> else c);
          c = override (o_conntrack_size opts) (\<lambda>v c. c\<lparr>c_conntrack_size := v\<rparr>) c;
          c = override (o_socket opts) (\<lambda>v c. c\<lparr>c_socket := v\<rparr>) c;
          c = override (o_pin_path opts) (\<lambda>v c. c\<lparr>c_pin_path := v\<rparr>) c;
          c = override (o_metrics_listen opts) (\<lambda>v c. c\<lparr>c_metrics_listen := v\<rparr>) c
      in if o_no_health_check opts then c\<lparr>c_health := (c_health c)\<lparr>hc_enabled := False\<rparr>\<rparr> else c)"

section \<open>The command line\<close>

datatype flag =
    kConfig | kInterface | kXdpMode | kHash | kNoConntrack | kConntrackSize | kSocket | kPinPath | kMetricsListen
  | kNoHealthCheck | kRecreateMaps | kDetachOnExit | kLogLevel | kIcmpPmtu | kHelp | kOther

definition usage_error :: "string \<Rightarrow> 'a or_exit" where
  "usage_error msg = Exit 2 (''packetbalance: '' @ msg @ [CHR 10] @ ''try --help'' @ [CHR 10])"

definition parse_size :: "string \<Rightarrow> u32 result" where
  "parse_size s =
     bind_result (stoul s) (\<lambda>(n, used).
       if n = 0 \<or> n > push_bit 27 1 then Inl (InvalidArgument ''out of range'') else Inr (ucast n))"

fun set_option :: "flag \<Rightarrow> string \<Rightarrow> options \<Rightarrow> options result" where
  "set_option kConfig s opts = Inr (opts\<lparr>o_config_path := s\<rparr>)"
| "set_option kInterface s opts = Inr (opts\<lparr>o_interface := Some s\<rparr>)"
| "set_option kXdpMode s opts = bind_result (parse_xdp_mode s) (\<lambda>m. Inr (opts\<lparr>o_xdp_mode := Some m\<rparr>))"
| "set_option kHash s opts = bind_result (parse_hash_mode s) (\<lambda>m. Inr (opts\<lparr>o_hash := Some m\<rparr>))"
| "set_option kNoConntrack s opts = Inr (opts\<lparr>o_no_conntrack := True\<rparr>)"
| "set_option kIcmpPmtu s opts = Inr (opts\<lparr>o_icmp_pmtu := True\<rparr>)"
| "set_option kConntrackSize s opts = bind_result (parse_size s) (\<lambda>n. Inr (opts\<lparr>o_conntrack_size := Some n\<rparr>))"
| "set_option kSocket s opts = Inr (opts\<lparr>o_socket := Some s\<rparr>)"
| "set_option kPinPath s opts = Inr (opts\<lparr>o_pin_path := Some s\<rparr>)"
| "set_option kMetricsListen s opts = Inr (opts\<lparr>o_metrics_listen := Some s\<rparr>)"
| "set_option kNoHealthCheck s opts = Inr (opts\<lparr>o_no_health_check := True\<rparr>)"
| "set_option kRecreateMaps s opts = Inr (opts\<lparr>o_recreate_maps := True\<rparr>)"
| "set_option kDetachOnExit s opts = Inr (opts\<lparr>o_detach_on_exit := True\<rparr>)"
| "set_option kLogLevel s opts = bind_result (parse_level s) (\<lambda>l. Inr (opts\<lparr>o_log_level := l\<rparr>))"
| "set_option kHelp s opts = Inr opts"
| "set_option kOther s opts = Inr opts"

fun options_loop :: "string \<Rightarrow> (flag \<times> string) list \<Rightarrow> options \<Rightarrow> options or_exit" where
  "options_loop usage [] opts = Go opts"
| "options_loop usage ((c, s) # cs) opts =
     (if c = kHelp then Exit 0 usage
      else if c = kOther then usage_error ''unknown option''
      else case set_option c s opts of
        Inl e \<Rightarrow> usage_error (''bad value '' @ quote s @ '': '' @ what e)
      | Inr opts' \<Rightarrow> options_loop usage cs opts')"

definition parse_options :: "string \<Rightarrow> (flag \<times> string) list \<Rightarrow> string list \<Rightarrow> options or_exit" where
  "parse_options usage given left =
     (case options_loop usage given default_options of
        Exit n msg \<Rightarrow> Exit n msg
      | Go opts \<Rightarrow> (case left of [] \<Rightarrow> Go opts | w # _ \<Rightarrow> usage_error (''unexpected argument: '' @ w)))"

section \<open>What the options can hold\<close>

definition options_ok :: "options \<Rightarrow> bool" where
  "options_ok opts \<longleftrightarrow> (\<forall>n. o_conntrack_size opts = Some n \<longrightarrow> 0 < n \<and> n \<le> 134217728)"

lemma parse_size_range: "parse_size s = Inr n \<Longrightarrow> 0 < n \<and> n \<le> 134217728"
proof -
  assume "parse_size s = Inr n"
  then obtain v :: u64 where v: "v \<noteq> 0" "v \<le> 134217728" "n = ucast v"
    by (auto simp: parse_size_def bind_result_Inr not_less split: if_splits)
  have le: "uint v \<le> 134217728" using v(2) by (simp add: word_le_def)
  moreover have "uint n = uint v" using le by (simp add: v(3) unsigned_ucast_eq take_bit_eq_mod)
  ultimately show ?thesis
    using v(1) by (simp add: word_le_def word_less_def) (metis le_less uint_0_iff unsigned_greater_eq)
qed

lemma set_option_ok: "set_option c s opts = Inr opts' \<Longrightarrow> options_ok opts \<Longrightarrow> options_ok opts'"
  by (cases c) (auto simp: options_ok_def bind_result_Inr dest: parse_size_range)

lemma options_loop_ok: "options_loop u cs opts = Go opts' \<Longrightarrow> options_ok opts \<Longrightarrow> options_ok opts'"
  by (induction u cs opts rule: options_loop.induct)
     (auto simp: usage_error_def split: if_splits sum.splits dest: set_option_ok)

lemma parse_options_ok: "parse_options u given left = Go opts \<Longrightarrow> options_ok opts"
  by (auto simp: parse_options_def usage_error_def options_ok_def default_options_def
      split: or_exit.splits list.splits dest!: options_loop_ok)

lemma apply_to_fields [simp]:
  "c_encap_src (apply_to opts c) = c_encap_src c" "c_vips (apply_to opts c) = c_vips c"
  "c_next_hop (apply_to opts c) = c_next_hop c"
  "c_conntrack_size (apply_to opts c) = (case o_conntrack_size opts of Some n \<Rightarrow> n | None \<Rightarrow> c_conntrack_size c)"
  by (simp_all add: apply_to_def override_def Let_def split: option.split)

lemma apply_to_parsed: "options_ok opts \<Longrightarrow> parsed_ok c \<Longrightarrow> parsed_ok (apply_to opts c)"
  by (auto simp: parsed_ok_def options_ok_def split: option.split)

end
