(* ===== verification/Commands.thy ===== *)
theory Commands
  imports Json Lb_System Map_Reader Options
begin

text \<open>
  \<^verbatim>\<open>src/daemon/commands.cpp\<close>: one request line in, one response line out.

  \<open>api\<close> collects what the handler is constructed with and what it calls: the kernel and the host (\<open>env\<close>), the
  map reader, the walk of the connection table and the batches of a ring as the kernel serves them from the
  current maps, the clock, the JSON library's \<^verbatim>\<open>parse\<close> (a value, or the text of its \<^verbatim>\<open>parse_error\<close>) and \<^verbatim>\<open>dump\<close>, and
  the three hooks of the daemon.  Logging is left out.  Where the code passes several arguments that can each be
  rejected to one call, C++ does not fix the order; the model takes them from left to right, which only decides
  which of several errors is reported.
\<close>

section \<open>The interface\<close>

record daemon =
  d_state :: lb
  d_config :: config_data
  d_health :: health_config

type_synonym 'a d_act = "(daemon, 'a) act"

definition on_lb :: "'a lb_act \<Rightarrow> 'a d_act" where
  "on_lb m d = (case m (d_state d) of (r, s) \<Rightarrow> (r, d\<lparr>d_state := s\<rparr>))"

record api =
  a_env :: env
  a_reader :: map_reader
  a_walk :: "maps \<Rightarrow> walker"
  a_rings :: "maps \<Rightarrow> ring_reader"
  a_now :: u64
  a_parse :: "string \<Rightarrow> string + json"
  a_dump :: "json \<Rightarrow> string"
  h_reload :: "unit d_act"
  h_config :: "daemon \<Rightarrow> json"
  h_reals_changed :: "unit d_act option"

section \<open>Arguments\<close>

definition arg :: "json \<Rightarrow> string \<Rightarrow> json result" where
  "arg req name =
     (case jfind req name of None \<Rightarrow> Inl (ApiError (''missing argument '' @ quote name)) | Some v \<Rightarrow> Inr v)"

definition arg_string :: "json \<Rightarrow> string \<Rightarrow> string result" where
  "arg_string req name =
     bind_result (arg req name) (\<lambda>v.
       case v of JStr s \<Rightarrow> Inr s | _ \<Rightarrow> Inl (ApiError (''argument '' @ quote name @ '' must be a string'')))"

definition catch_invalid :: "'a result \<Rightarrow> 'a result" where
  "catch_invalid r = (case r of Inl e \<Rightarrow> Inl (if is_invalid_argument e then ApiError (what e) else e) | Inr x \<Rightarrow> Inr x)"

definition arg_vip :: "json \<Rightarrow> string \<Rightarrow> vip_spec result" where
  "arg_vip req name = catch_invalid (bind_result (arg_string req name) VipSpec_parse)"

definition arg_addr :: "json \<Rightarrow> string \<Rightarrow> u32 result" where
  "arg_addr req name = catch_invalid (bind_result (arg_string req name) parse_ipv4)"

definition arg_bool :: "json \<Rightarrow> string \<Rightarrow> bool \<Rightarrow> bool result" where
  "arg_bool req name fallback =
     (case jfind req name of
        None \<Rightarrow> Inr fallback
      | Some (JBool b) \<Rightarrow> Inr b
      | Some _ \<Rightarrow> Inl (ApiError (''argument '' @ quote name @ '' must be a boolean'')))"

definition arg_uint :: "json \<Rightarrow> string \<Rightarrow> u32 option \<Rightarrow> u32 result" where
  "arg_uint req name fallback =
     (case (jfind req name, fallback) of
        (None, Some d) \<Rightarrow> Inr d
      | _ \<Rightarrow>
          bind_result (arg req name) (\<lambda>v.
            case v of
              JInt i \<Rightarrow> (if get_int64 i < 0 \<or> get_int64 i > 2 ^ 32 - 1
                        then Inl (ApiError (''argument '' @ quote name @ '' must be a non-negative integer''))
                        else Inr (word_of_int i))
            | _ \<Rightarrow> Inl (ApiError (''argument '' @ quote name @ '' must be a non-negative integer''))))"

section \<open>Results\<close>

definition counters_json :: "pb_stats \<Rightarrow> json" where
  "counters_json c = jobj (map (\<lambda>(name, i). (name, JWord (c i))) (zip kCounterNames all_counters))"

definition proto_name :: "u8 \<Rightarrow> string" where
  "proto_name p = (if p = 6 then ''tcp'' else if p = 17 then ''udp'' else ''?'')"

definition real_name :: "(u32, u32) smap \<Rightarrow> u32 \<Rightarrow> string" where
  "real_name names i = (case smap_find names i of Some a \<Rightarrow> ipv4_to_string a | None \<Rightarrow> CHR ''#'' # to_string (unat i))"

definition vip_list :: "lb \<Rightarrow> json" where
  "vip_list s =
     JArr (map (\<lambda>v. jobj
       [(''vip'', JStr (VipSpec_str (vv_spec v))), (''vip_id'', JWord (vv_id v)), (''flags'', JWord (vv_flags v)),
        (''generation'', JWord (vv_generation v)),
        (''reals'', JArr (map (\<lambda>r. jobj
           [(''addr'', JStr (ipv4_to_string (rv_addr r))), (''real_id'', JWord (rv_real_id r)), (''weight'', JWord (rv_weight r)),
            (''up'', JBool (rv_up r)), (''draining'', JBool (rv_draining r)), (''in_ring'', JBool (rv_in_ring r)),
            (''mac'', case rv_mac r of Some m \<Rightarrow> JStr (Mac_str m) | None \<Rightarrow> JNull)]) (vv_reals v)))]) (snapshot s))"

text \<open>\<^verbatim>\<open>stats\<close>: the two objects are filled while the snapshot is walked.\<close>

definition put_real_stats :: "api \<Rightarrow> maps \<Rightarrow> json \<Rightarrow> real_view \<Rightarrow> json" where
  "put_real_stats A m rj r =
     (let rs = real_counters (a_reader A) m (rv_real_id r)
      in jput (ipv4_to_string (rv_addr r)) (jobj [(''packets'', JWord (rs_packets rs)), (''bytes'', JWord (rs_bytes rs))]) rj)"

fun stats_loop :: "api \<Rightarrow> maps \<Rightarrow> vip_spec option \<Rightarrow> vip_view list \<Rightarrow> json \<times> json \<times> bool \<Rightarrow> json \<times> json \<times> bool" where
  "stats_loop A m only [] acc = acc"
| "stats_loop A m only (v # vs) (vj, rj, found) =
     (if only \<noteq> None \<and> only \<noteq> Some (vv_spec v) then stats_loop A m only vs (vj, rj, found)
      else stats_loop A m only vs
        (jput (VipSpec_str (vv_spec v)) (counters_json (counters (a_reader A) m (vv_id v))) vj,
         foldl (put_real_stats A m) rj (vv_reals v), True))"

text \<open>\<^verbatim>\<open>if (req.contains(name)) x = parse(req)\<close>.\<close>

definition optional_arg :: "json \<Rightarrow> string \<Rightarrow> (json \<Rightarrow> string \<Rightarrow> 'a result) \<Rightarrow> 'a option result" where
  "optional_arg req name f =
     (case jfind req name of None \<Rightarrow> Inr None | Some _ \<Rightarrow> bind_result (f req name) (\<lambda>x. Inr (Some x)))"

definition stats_cmd :: "api \<Rightarrow> json \<Rightarrow> lb \<Rightarrow> json result" where
  "stats_cmd A req s =
     bind_result (optional_arg req ''vip'' arg_vip) (\<lambda>only.
       case stats_loop A (kmaps s) only (snapshot s) (jobj [], jobj [], False) of
         (vj, rj, found) \<Rightarrow>
           (case (only, found) of
              (Some sp, False) \<Rightarrow> Inl (ApiError (''unknown vip '' @ VipSpec_str sp))
            | _ \<Rightarrow> Inr (jobj [(''global'', counters_json (counters (a_reader A) (kmaps s) PB_STATS_GLOBAL)),
                               (''vips'', vj), (''reals'', rj)])))"

definition keep_flow :: "vip_spec option \<Rightarrow> u32 option \<Rightarrow> pb_ct_key \<Rightarrow> pb_ct_value \<Rightarrow> bool" where
  "keep_flow vip real_id k v \<longleftrightarrow>
     (case vip of
        None \<Rightarrow> True
      | Some sp \<Rightarrow> ck_daddr k = addr_be sp \<and> ck_dport k = port_be sp \<and> ck_proto k = proto sp) \<and>
     (case real_id of None \<Rightarrow> True | Some i \<Rightarrow> ct_real_id v = i)"

definition flow_json :: "u64 \<Rightarrow> (u32, u32) smap \<Rightarrow> flow_row \<Rightarrow> json" where
  "flow_json now names f =
     (let k = fr_key f; v = fr_value f in
      jobj [(''src'', JStr (ipv4_to_string (ck_saddr k))), (''dst'', JStr (ipv4_to_string (ck_daddr k))),
            (''sport'', JWord (port_from_be (ck_sport k))), (''dport'', JWord (port_from_be (ck_dport k))),
            (''proto'', JStr (proto_name (ck_proto k))), (''real'', JStr (real_name names (ct_real_id v))),
            (''vip'', JStr (VipSpec_str (VipSpec (ck_daddr k) (ck_dport k) (ck_proto k)))),
            (''age_ms'', if now > last_seen_ns v then JWord ((now - last_seen_ns v) div 1000000) else JInt 0),
            (''cpu'', JWord (fr_cpu f))])"

definition flows_cmd :: "api \<Rightarrow> json \<Rightarrow> json lb_act" where
  "flows_cmd A req =
     bindM (lift_result (optional_arg req ''vip'' arg_vip)) (\<lambda>vip.
     bindM (lift_result (optional_arg req ''real'' arg_addr)) (\<lambda>addr.
     bindM (gets (\<lambda>s. case addr of None \<Rightarrow> Inr None
                      | Some a \<Rightarrow> (case real_id_of s a of
                                     None \<Rightarrow> Inl (ApiError (''unknown real '' @ ipv4_to_string a))
                                   | Some i \<Rightarrow> Inr (Some i)))) (\<lambda>r.
     bindM (lift_result r) (\<lambda>real_id.
     bindM (lift_result (arg_uint req ''limit'' (Some 1000))) (\<lambda>limit.
     bindM (gets real_addrs) (\<lambda>names.
     bindM (deref names) (\<lambda>names.
     gets (\<lambda>s. JArr (map (flow_json (a_now A) names)
                        (flows (a_reader A) (a_walk A (kmaps s)) (Some (keep_flow vip real_id)) (unat limit)))))))))))"

definition count_ids :: "u32 list \<Rightarrow> (u32, u64) smap" where
  "count_ids ring =
     foldl (\<lambda>by_id i. smap_insert i ((case smap_find by_id i of Some n \<Rightarrow> n | None \<Rightarrow> 0) + 1) by_id) smap_empty ring"

definition slots_json :: "(u32, u32) smap \<Rightarrow> (u32, u64) smap \<Rightarrow> json" where
  "slots_json names by_id =
     foldl (\<lambda>slots (i, n). jput (if i = PB_REAL_NONE then ''none'' else real_name names i) (JWord n) slots)
       (jobj [(''none'', JInt 0)]) (items by_id)"

definition ring_show :: "api \<Rightarrow> json \<Rightarrow> json lb_act" where
  "ring_show A req =
     bindM (lift_result (arg_vip req ''vip'')) (\<lambda>spec.
     bindM (gets (\<lambda>s. find_view s spec)) (\<lambda>view.
       case view of
         None \<Rightarrow> throw (ApiError (''unknown vip '' @ VipSpec_str spec))
       | Some v \<Rightarrow>
           bindM (gets real_addrs) (\<lambda>names.
           bindM (deref names) (\<lambda>names.
           bindM (gets (\<lambda>s. read_ring (errstr (a_env A)) (a_rings A (kmaps s)) (vv_id v))) (\<lambda>r.
           bindM (deref r) (\<lambda>r.
           bindM (lift_result r) (\<lambda>ring.
           gets (\<lambda>s. jobj [(''size'', JInt (int (length ring))), (''hash'', JStr (hash_mode_name (lb_hash s))),
                           (''slots'', slots_json names (count_ids ring)), (''generation'', JWord (vv_generation v))]))))))))"

definition health_cmd :: "lb \<Rightarrow> json" where
  "health_cmd s =
     JArr (concat (map (\<lambda>v. map (\<lambda>r. jobj
       [(''vip'', JStr (VipSpec_str (vv_spec v))), (''addr'', JStr (ipv4_to_string (rv_addr r))), (''up'', JBool (rv_up r)),
        (''checked'', JBool (rv_checked r)), (''consecutive_ok'', JWord (rv_consecutive_ok r)),
        (''consecutive_fail'', JWord (rv_consecutive_fail r)), (''last_change_ms'', JInt (rv_last_change_ms r)),
        (''last_rtt_us'', JWord (rv_last_rtt_us r))]) (vv_reals v)) (snapshot s)))"

section \<open>Dispatch\<close>

definition call_hook :: "unit d_act option \<Rightarrow> unit d_act" where
  "call_hook h = (case h of None \<Rightarrow> ret () | Some f \<Rightarrow> f)"

definition vip_real :: "json \<Rightarrow> (vip_spec \<Rightarrow> u32 \<Rightarrow> 'a d_act) \<Rightarrow> 'a d_act" where
  "vip_real req f = bindM (lift_result (arg_vip req ''vip'')) (\<lambda>sp. bindM (lift_result (arg_addr req ''addr'')) (f sp))"

definition dispatch :: "api \<Rightarrow> json \<Rightarrow> json d_act" where
  "dispatch A req =
     bindM (lift_result (arg_string req ''cmd'')) (\<lambda>cmd.
       let E = a_env A; done = ret (jobj []) in
       if cmd = ''ping'' then ret (JStr ''pong'')
       else if cmd = ''vip.add'' then
         bindM (lift_result (arg_bool req ''no_conntrack'' False)) (\<lambda>no_ct.
         bindM (lift_result (arg_vip req ''vip'')) (\<lambda>sp.
         bindM (on_lb (add_vip E sp no_ct)) (\<lambda>i. ret (jobj [(''vip_id'', JWord i)]))))
       else if cmd = ''vip.del'' then
         bindM (lift_result (arg_vip req ''vip'')) (\<lambda>sp. seqM (on_lb (del_vip E sp)) done)
       else if cmd = ''vip.list'' then on_lb (gets vip_list)
       else if cmd = ''real.add'' then
         vip_real req (\<lambda>sp addr.
         bindM (lift_result (arg_uint req ''weight'' (Some 1))) (\<lambda>w.
         bindM (on_lb (add_real E sp addr w)) (\<lambda>i.
         seqM (call_hook (h_reals_changed A)) (ret (jobj [(''real_id'', JWord i)])))))
       else if cmd = ''real.del'' then vip_real req (\<lambda>sp addr. seqM (on_lb (del_real E sp addr)) done)
       else if cmd = ''real.weight'' then
         vip_real req (\<lambda>sp addr.
         bindM (lift_result (arg_uint req ''weight'' None)) (\<lambda>w. seqM (on_lb (set_weight E sp addr w)) done))
       else if cmd = ''real.drain'' \<or> cmd = ''real.undrain'' then
         vip_real req (\<lambda>sp addr. seqM (on_lb (set_draining E sp addr (cmd = ''real.drain''))) done)
       else if cmd = ''stats'' then on_lb (bindM (gets (stats_cmd A req)) lift_result)
       else if cmd = ''flows'' then on_lb (flows_cmd A req)
       else if cmd = ''ring.show'' then on_lb (ring_show A req)
       else if cmd = ''health'' then on_lb (gets health_cmd)
       else if cmd = ''reload'' then seqM (h_reload A) (seqM (call_hook (h_reals_changed A)) done)
       else if cmd = ''config'' then gets (h_config A)
       else throw (ApiError (''unknown command '' @ quote cmd)))"

definition ok_response :: "json \<Rightarrow> json" where
  "ok_response result = jobj [(''ok'', JBool True), (''result'', result)]"

definition error_response :: "string \<Rightarrow> json" where
  "error_response msg = jobj [(''ok'', JBool False), (''error'', JStr msg)]"

definition handle_line :: "api \<Rightarrow> string \<Rightarrow> string d_act" where
  "handle_line A line s =
     (case a_parse A line of
        Inl msg \<Rightarrow> (Ret (a_dump A (error_response (''bad json: '' @ msg))), s)
      | Inr req \<Rightarrow>
          (if \<not> is_object req then (Ret (a_dump A (error_response ''request must be a JSON object'')), s)
           else case dispatch A req s of
             (Ret result, s') \<Rightarrow> (Ret (a_dump A (ok_response result)), s')
           | (Throw e, s') \<Rightarrow> (Ret (a_dump A (error_response (what e))), s')
           | (Wrong, s') \<Rightarrow> (Wrong, s')))"

section \<open>Which operation a request stands for\<close>

definition both :: "'a result \<Rightarrow> 'b result \<Rightarrow> ('a \<Rightarrow> 'b \<Rightarrow> 'c) \<Rightarrow> 'c option" where
  "both x y f = (case (x, y) of (Inr a, Inr b) \<Rightarrow> Some (f a b) | _ \<Rightarrow> None)"

definition request_op :: "json \<Rightarrow> lb_op option" where
  "request_op req =
     (let vip = arg_vip req ''vip''; addr = arg_addr req ''addr''; pair = bind_result vip (\<lambda>sp. bind_result addr (\<lambda>a. Inr (sp, a))) in
      case arg_string req ''cmd'' of
        Inl _ \<Rightarrow> None
      | Inr cmd \<Rightarrow>
          if cmd = ''vip.add'' then both (arg_bool req ''no_conntrack'' False) vip (\<lambda>nc sp. AddVip sp nc)
          else if cmd = ''vip.del'' then both vip (Inr ()) (\<lambda>sp _. DelVip sp)
          else if cmd = ''real.add'' then both pair (arg_uint req ''weight'' (Some 1)) (\<lambda>(sp, a) w. AddReal sp a w)
          else if cmd = ''real.del'' then both pair (Inr ()) (\<lambda>(sp, a) _. DelReal sp a)
          else if cmd = ''real.weight'' then both pair (arg_uint req ''weight'' None) (\<lambda>(sp, a) w. SetWeight sp a w)
          else if cmd = ''real.drain'' \<or> cmd = ''real.undrain'' then
            both pair (Inr ()) (\<lambda>(sp, a) _. SetDraining sp a (cmd = ''real.drain''))
          else None)"

definition hook_ok :: "api \<Rightarrow> bool" where
  "hook_ok A \<longleftrightarrow> (\<forall>s. call_hook (h_reals_changed A) s = (Ret (), s))"

definition runs_as :: "json d_act \<Rightarrow> unit lb_act \<Rightarrow> daemon \<Rightarrow> bool" where
  "runs_as c m d \<longleftrightarrow>
     (case m (d_state d) of
        (Ret _, s) \<Rightarrow> \<exists>j. c d = (Ret j, d\<lparr>d_state := s\<rparr>)
      | (Throw e, s) \<Rightarrow> c d = (Throw e, d\<lparr>d_state := s\<rparr>)
      | (Wrong, s) \<Rightarrow> c d = (Wrong, d\<lparr>d_state := s\<rparr>))"

lemma lift_result_simps [simp]: "lift_result (Inr x) = ret x" "lift_result (Inl e) = throw e"
  by (simp_all add: lift_result_def)

lemma bindM_ret [simp]: "bindM (ret x) f = f x" "bindM (throw e) f = throw e"
  by (simp_all add: fun_eq_iff bindM_def ret_def throw_def)

lemma runs_as_value: "runs_as (bindM (on_lb m) (\<lambda>i. ret (j i))) (seqM m (ret ())) s"
  by (auto simp: runs_as_def on_lb_def bindM_def seqM_def ret_def split: prod.splits outcome.splits)

lemma runs_as_done: "runs_as (seqM (on_lb m) (ret j)) m s"
  by (auto simp: runs_as_def on_lb_def bindM_def seqM_def ret_def split: prod.splits outcome.splits)

lemma runs_as_hook:
  "hook_ok A \<Longrightarrow> runs_as (bindM (on_lb m) (\<lambda>i. seqM (call_hook (h_reals_changed A)) (ret (j i)))) (seqM m (ret ())) s"
  by (auto simp: hook_ok_def runs_as_def on_lb_def bindM_def seqM_def ret_def split: prod.splits outcome.splits)

lemma both_Some: "both x y f = Some z \<longleftrightarrow> (\<exists>a b. x = Inr a \<and> y = Inr b \<and> z = f a b)"
  by (auto simp: both_def split: sum.splits)

lemma pair_Inr: "bind_result x (\<lambda>a. bind_result y (\<lambda>b. Inr (a, b))) = Inr p \<longleftrightarrow> x = Inr (fst p) \<and> y = Inr (snd p)"
  by (cases x; cases y) auto

lemma request_op_cases:
  assumes "request_op req = Some op"
  obtains (add_vip) nc sp where "arg_string req ''cmd'' = Inr ''vip.add''" "arg_bool req ''no_conntrack'' False = Inr nc"
      "arg_vip req ''vip'' = Inr sp" "op = AddVip sp nc"
    | (del_vip) sp where "arg_string req ''cmd'' = Inr ''vip.del''" "arg_vip req ''vip'' = Inr sp" "op = DelVip sp"
    | (add_real) sp a w where "arg_string req ''cmd'' = Inr ''real.add''" "arg_vip req ''vip'' = Inr sp" "arg_addr req ''addr'' = Inr a"
      "arg_uint req ''weight'' (Some 1) = Inr w" "op = AddReal sp a w"
    | (del_real) sp a where "arg_string req ''cmd'' = Inr ''real.del''" "arg_vip req ''vip'' = Inr sp" "arg_addr req ''addr'' = Inr a"
      "op = DelReal sp a"
    | (set_weight) sp a w where "arg_string req ''cmd'' = Inr ''real.weight''" "arg_vip req ''vip'' = Inr sp"
      "arg_addr req ''addr'' = Inr a" "arg_uint req ''weight'' None = Inr w" "op = SetWeight sp a w"
    | (set_draining) sp a cmd where "arg_string req ''cmd'' = Inr cmd" "cmd = ''real.drain'' \<or> cmd = ''real.undrain''"
      "arg_vip req ''vip'' = Inr sp" "arg_addr req ''addr'' = Inr a" "op = SetDraining sp a (cmd = ''real.drain'')"
proof -
  obtain cmd where cmd: "arg_string req ''cmd'' = Inr cmd" using assms by (auto simp: request_op_def Let_def split: sum.splits)
  note r = assms [unfolded request_op_def Let_def cmd sum.case]
  consider "cmd = ''vip.add''" | "cmd = ''vip.del''" | "cmd = ''real.add''" | "cmd = ''real.del''" | "cmd = ''real.weight''"
    | "cmd = ''real.drain'' \<or> cmd = ''real.undrain''"
    using r by (simp split: if_split_asm)
  then show ?thesis
  proof cases
    case 1
    then show ?thesis using r cmd by (auto simp: both_Some intro!: add_vip)
  next
    case 2
    then show ?thesis using r cmd by (auto simp: both_Some intro!: del_vip)
  next
    case 3
    then show ?thesis using r cmd by (auto simp: both_Some pair_Inr intro!: add_real)
  next
    case 4
    then show ?thesis using r cmd by (auto simp: both_Some pair_Inr intro!: del_real)
  next
    case 5
    then show ?thesis using r cmd by (auto simp: both_Some pair_Inr intro!: set_weight)
  next
    case 6
    then have "\<exists>sp a. arg_vip req ''vip'' = Inr sp \<and> arg_addr req ''addr'' = Inr a \<and> op = SetDraining sp a (cmd = ''real.drain'')"
      using r by (auto simp: both_Some pair_Inr)
    then show ?thesis using cmd 6 set_draining by blast
  qed
qed

lemma dispatch_op:
  assumes hook: "hook_ok A" and op: "request_op req = Some op"
  shows "runs_as (dispatch A req) (run_op (a_env A) op) s"
  using op
proof (cases rule: request_op_cases)
  case add_vip
  then show ?thesis by (simp add: dispatch_def run_op_def runs_as_value)
next
  case del_vip
  then show ?thesis by (simp add: dispatch_def run_op_def runs_as_done)
next
  case add_real
  then show ?thesis by (simp add: dispatch_def run_op_def vip_real_def runs_as_hook [OF hook])
next
  case del_real
  then show ?thesis by (simp add: dispatch_def run_op_def vip_real_def runs_as_done)
next
  case set_weight
  then show ?thesis by (simp add: dispatch_def run_op_def vip_real_def runs_as_done)
next
  case set_draining
  then show ?thesis by (auto simp: dispatch_def run_op_def vip_real_def runs_as_done)
qed

text \<open>
  Every other command but \<^verbatim>\<open>reload\<close> only reads.  From a state in \<open>P\<close> such an action changes nothing and does not go wrong.
\<close>

definition reads :: "('s \<Rightarrow> bool) \<Rightarrow> ('s, 'a) act \<Rightarrow> bool" where
  "reads P m \<longleftrightarrow> (\<forall>s. P s \<longrightarrow> snd (m s) = s \<and> fst (m s) \<noteq> Wrong)"

lemma reads_basic: "reads P (ret x)" "reads P (throw e)" "reads P (gets g)" "reads P (lift_result r)"
  by (auto simp: reads_def ret_def throw_def gets_def lift_result_def split: sum.split)

lemma reads_deref: "(\<And>s. P s \<Longrightarrow> v \<noteq> None) \<Longrightarrow> reads P (deref v)"
  by (auto simp: reads_def deref_def ret_def split: option.split)

lemma reads_bind:
  assumes "reads P m" "\<And>x. reads (\<lambda>s. P s \<and> fst (m s) = Ret x) (f x)"
  shows "reads P (bindM m f)"
  unfolding reads_def
proof (intro allI impI)
  fix s
  assume s: "P s"
  then have m: "snd (m s) = s" "fst (m s) \<noteq> Wrong" using assms(1) by (simp_all add: reads_def)
  then show "snd (bindM m f s) = s \<and> fst (bindM m f s) \<noteq> Wrong"
    using assms(2) s by (cases "m s"; cases "fst (m s)") (auto simp: bindM_def reads_def)
qed

lemma reads_on_lb: "reads Q m \<Longrightarrow> (\<And>d. P d \<Longrightarrow> Q (d_state d)) \<Longrightarrow> reads P (on_lb m)"
  by (auto simp: reads_def on_lb_def split: prod.split) (metis daemon.surjective daemon.update_convs(1) snd_conv, metis fst_conv)

lemma reads_lift: "(\<And>x. r = Inr x \<Longrightarrow> reads P (f x)) \<Longrightarrow> reads P (bindM (lift_result r) f)"
  by (cases r) (simp_all add: reads_basic)

lemma reads_vip_real:
  "(\<And>sp a. arg_vip req ''vip'' = Inr sp \<Longrightarrow> arg_addr req ''addr'' = Inr a \<Longrightarrow> reads P (f sp a)) \<Longrightarrow> reads P (vip_real req f)"
  unfolding vip_real_def by (intro reads_lift)

lemma real_addrs_Some: "real_addrs s \<noteq> None"
proof -
  have "those (map (\<lambda>a. map_option (\<lambda>i. (i, a)) (smap_find (by_addr s) a)) as) \<noteq> None"
    if "\<And>a. a \<in> set as \<Longrightarrow> smap_find (by_addr s) a \<noteq> None" for as
    using that by (induction as) (auto simp: map_option_case split: option.splits)
  from this [of "smap_keys (by_addr s)"] show ?thesis
    by (auto simp: real_addrs_def Let_def id_of_def addrs_def domIff)
qed

lemma reads_flows: "reads P (flows_cmd A req)"
  unfolding flows_cmd_def
  by (intro reads_bind reads_basic reads_deref) (use real_addrs_Some in \<open>auto simp: gets_def\<close>)

text \<open>A ring read can only go wrong by not coming to an end.\<close>

definition rings_readable :: "api \<Rightarrow> lb \<Rightarrow> bool" where
  "rings_readable A s \<longleftrightarrow> (\<forall>v \<in> set (snapshot s). read_ring (errstr (a_env A)) (a_rings A (kmaps s)) (vv_id v) \<noteq> None)"

lemma find_view_snapshot: "find_view s sp = Some v \<Longrightarrow> v \<in> set (snapshot s) \<and> vv_spec v = sp"
  by (auto simp: find_view_def find_Some_iff)

lemma reads_ring: "reads (rings_readable A) (ring_show A req)"
proof -
  have "reads P (bindM (gets real_addrs) (\<lambda>names. bindM (deref names) (\<lambda>names.
     bindM (gets (\<lambda>s. read_ring (errstr (a_env A)) (a_rings A (kmaps s)) (vv_id v))) (\<lambda>r. bindM (deref r) (\<lambda>r.
     bindM (lift_result r) (\<lambda>ring. gets (f names ring)))))))"
    if "\<And>s. P s \<Longrightarrow> rings_readable A s \<and> v \<in> set (snapshot s)" for P f v
    by (intro reads_bind reads_basic reads_deref)
      (use that real_addrs_Some in \<open>auto simp: gets_def rings_readable_def\<close>)
  note body = this
  show ?thesis
    unfolding ring_show_def
  proof (intro reads_bind reads_basic, split option.split, intro conjI allI impI reads_basic, rule body)
    fix sp view v s
    assume "view = Some v" and "(rings_readable A s \<and> fst (lift_result (arg_vip req ''vip'') s) = Ret sp) \<and>
      fst (gets (\<lambda>s. find_view s sp) s) = Ret view"
    then show "rings_readable A s \<and> v \<in> set (snapshot s)" using find_view_snapshot [of s sp v] by (simp add: gets_def)
  qed
qed

lemma dispatch_reads:
  assumes none: "request_op req = None" and cmd: "arg_string req ''cmd'' = Inr cmd" "cmd \<noteq> ''reload''"
  shows "reads (\<lambda>d. rings_readable A (d_state d)) (dispatch A req)"
proof -
  note r = none [unfolded request_op_def Let_def cmd sum.case]
  consider "cmd = ''vip.add''" | "cmd = ''vip.del''" | "cmd = ''real.add''" | "cmd = ''real.del''" | "cmd = ''real.weight''"
    | "cmd = ''real.drain'' \<or> cmd = ''real.undrain''"
    | "cmd \<noteq> ''vip.add''" "cmd \<noteq> ''vip.del''" "cmd \<noteq> ''real.add''" "cmd \<noteq> ''real.del''" "cmd \<noteq> ''real.weight''"
      "\<not> (cmd = ''real.drain'' \<or> cmd = ''real.undrain'')"
    by argo
  then show ?thesis
  proof cases
    case 1
    show ?thesis using r by (simp add: dispatch_def cmd 1, intro reads_lift) (simp add: both_def)
  next
    case 2
    show ?thesis using r by (simp add: dispatch_def cmd 2, intro reads_lift) (simp add: both_def 2)
  next
    case 3
    show ?thesis using r by (simp add: dispatch_def cmd 3, intro reads_lift reads_vip_real) (simp add: both_def 3)
  next
    case 4
    show ?thesis using r by (simp add: dispatch_def cmd 4, intro reads_lift reads_vip_real) (simp add: both_def 4)
  next
    case 5
    show ?thesis using r by (simp add: dispatch_def cmd 5, intro reads_lift reads_vip_real) (simp add: both_def 5)
  next
    case 6
    then show ?thesis
    proof
      assume c: "cmd = ''real.drain''"
      show ?thesis using r by (simp add: dispatch_def cmd c, intro reads_lift reads_vip_real) (simp add: both_def c)
    next
      assume c: "cmd = ''real.undrain''"
      show ?thesis using r by (simp add: dispatch_def cmd c, intro reads_lift reads_vip_real) (simp add: both_def c)
    qed
  next
    case 7
    then have "dispatch A req =
      (if cmd = ''ping'' then ret (JStr ''pong'') else if cmd = ''vip.list'' then on_lb (gets vip_list)
       else if cmd = ''stats'' then on_lb (bindM (gets (stats_cmd A req)) lift_result) else if cmd = ''flows'' then on_lb (flows_cmd A req)
       else if cmd = ''ring.show'' then on_lb (ring_show A req) else if cmd = ''health'' then on_lb (gets health_cmd)
       else if cmd = ''config'' then gets (h_config A) else throw (ApiError (''unknown command '' @ quote cmd)))"
      using cmd(2) by (simp add: dispatch_def cmd(1) Let_def)
    then show ?thesis
      by (simp add: reads_basic reads_on_lb [OF reads_basic(3)] reads_on_lb [OF reads_flows] reads_on_lb [OF reads_ring]
          reads_on_lb [OF reads_bind [OF reads_basic(3) reads_basic(4)]])
  qed
qed

end
