(* ===== verification/Daemon.thy ===== *)
theory Daemon
  imports Commands Lb_Claims
begin

text \<open>
  \<^verbatim>\<open>src/daemon/daemon.cpp\<close>: the daemon reads its configuration, starts on the maps the loader opened, answers API
  requests and reloads.  The loader (libbpf: opening or creating the pinned maps and attaching the program) is an argument,
  as are the file system and the YAML library.  The three servers and the two worker threads are started by \<^verbatim>\<open>run\<close>, which has
  no logic of its own; waking the resolver thread changes nothing the model can see.
\<close>

section \<open>The code\<close>

definition load_config :: "'n yaml_api \<Rightarrow> (string \<Rightarrow> string option) \<Rightarrow> options \<Rightarrow> config_data result" where
  "load_config Y read_file opts =
     bind_result (load_config_file Y read_file (o_config_path opts)) (\<lambda>cfg.
       let cfg = apply_to opts cfg in bind_result (validate_config cfg) (\<lambda>_. Inr cfg))"

text \<open>The constructor.  It runs over the pinned maps, which stay when it throws.\<close>

definition start_daemon ::
  "'n yaml_api \<Rightarrow> (string \<Rightarrow> string option) \<Rightarrow> options \<Rightarrow> (config_data \<Rightarrow> (maps, unit) act) \<Rightarrow> map_reader result \<Rightarrow> env \<Rightarrow>
   (maps, daemon) act" where
  "start_daemon Y read_file opts loader reader E =
     bindM (lift_result (load_config Y read_file opts)) (\<lambda>cfg.
     seqM (loader cfg)
    (bindM (lift_result reader) (\<lambda>_ m.
       case apply_config E cfg (new_lb m (c_interface cfg)) of
         (Ret _, s) \<Rightarrow> (Ret \<lparr>d_state = s, d_config = cfg, d_health = c_health cfg\<rparr>, kmaps s)
       | (Throw e, s) \<Rightarrow> (Throw e, kmaps s)
       | (Wrong, s) \<Rightarrow> (Wrong, kmaps s))))"

text \<open>What takes effect on restart only keeps its running value.\<close>

definition keep_running :: "config_data \<Rightarrow> config_data \<Rightarrow> config_data" where
  "keep_running running incoming =
     incoming\<lparr>c_interface := c_interface running, c_xdp_mode := c_xdp_mode running, c_conntrack_size := c_conntrack_size running,
         c_socket := c_socket running, c_pin_path := c_pin_path running, c_metrics_listen := c_metrics_listen running,
         c_health := (c_health incoming)\<lparr>hc_enabled := hc_enabled (c_health running)\<rparr>\<rparr>"

definition reload :: "'n yaml_api \<Rightarrow> (string \<Rightarrow> string option) \<Rightarrow> options \<Rightarrow> env \<Rightarrow> unit d_act" where
  "reload Y read_file opts E =
     bindM (lift_result (case load_config Y read_file opts of
         Inl e \<Rightarrow> Inl (ApiError (''reload: '' @ what e)) | Inr cfg \<Rightarrow> Inr cfg)) (\<lambda>incoming.
     bindM (gets d_config) (\<lambda>running.
     let incoming = keep_running running incoming in
     seqM (on_lb (apply_config E incoming)) (modify (\<lambda>d. d\<lparr>d_health := c_health incoming, d_config := incoming\<rparr>))))"

definition config_json :: "options \<Rightarrow> xdp_mode \<Rightarrow> map_reader \<Rightarrow> config_data \<Rightarrow> json" where
  "config_json opts attached reader c =
     jobj [(''config_path'', JStr (o_config_path opts)), (''interface'', JStr (c_interface c)),
       (''xdp_mode'', JStr (xdp_mode_name attached)), (''xdp_mode_requested'', JStr (xdp_mode_name (c_xdp_mode c))),
       (''hash'', JStr (hash_mode_name (c_hash c))),
       (''conntrack'', jobj [(''enabled'', JBool (c_conntrack_enabled c)), (''size'', JWord (c_conntrack_size c))]),
       (''encap_src_prefix'', JStr (Cidr_str (c_encap_src c))), (''icmp_pmtu'', JBool (c_icmp_pmtu c)),
       (''next_hop'', case c_next_hop c of Some a \<Rightarrow> JStr (ipv4_to_string a) | None \<Rightarrow> JNull),
       (''socket'', JStr (c_socket c)), (''pin_path'', JStr (c_pin_path c)), (''metrics_listen'', JStr (c_metrics_listen c)),
       (''health_check'', jobj [(''enabled'', JBool (hc_enabled (c_health c))), (''interval_ms'', JWord (hc_interval_ms (c_health c))),
          (''timeout_ms'', JWord (hc_timeout_ms (c_health c))), (''fall'', JWord (hc_fall (c_health c))),
          (''rise'', JWord (hc_rise (c_health c)))]),
       (''detach_on_exit'', JBool (o_detach_on_exit opts)), (''num_possible_cpus'', JInt (int (ncpus reader))),
       (''vips'', JArr (map (\<lambda>v. jobj [(''vip'', JStr (VipSpec_str (vc_spec v))), (''no_conntrack'', JBool (vc_no_conntrack v)),
          (''reals'', JArr (map (\<lambda>r. jobj [(''address'', JStr (ipv4_to_string (rc_addr r))), (''weight'', JWord (rc_weight r))])
             (vc_reals v)))]) (c_vips c)))]"

text \<open>The hooks the daemon gives its command handler.\<close>

definition daemon_api :: "'n yaml_api \<Rightarrow> (string \<Rightarrow> string option) \<Rightarrow> options \<Rightarrow> xdp_mode \<Rightarrow> api \<Rightarrow> api" where
  "daemon_api Y read_file opts attached A =
     A\<lparr>h_reload := reload Y read_file opts (a_env A), h_config := (\<lambda>d. config_json opts attached (a_reader A) (d_config d)),
       h_reals_changed := Some (ret ())\<rparr>"

section \<open>Configurations\<close>

lemma load_config_spec:
  "res_spec is_runtime_error (\<lambda>c. config_ok c \<and> (options_ok opts \<longrightarrow> parsed_ok c)) (load_config Y fs opts)"
proof -
  have "res_spec is_runtime_error (\<lambda>c. config_ok c \<and> parsed_ok c) (load_config_file Y fs (o_config_path opts))"
    using parse_config_spec [of Y] by (auto simp: load_config_file_def split: option.split)
  then show ?thesis
    unfolding load_config_def Let_def
    by (rule res_bind) (auto intro!: res_bind [OF validate_config_error] simp: apply_to_parsed)
qed

lemma load_config_ok: "load_config Y fs opts = Inr cfg \<Longrightarrow> config_ok cfg"
  using load_config_spec [of opts Y fs] by simp

lemma keep_running_ok: "config_ok running \<Longrightarrow> config_ok incoming \<Longrightarrow> config_ok (keep_running running incoming)"
  by (simp add: keep_running_def config_ok_def health_ok_def)

section \<open>One request\<close>

text \<open>The kernel serves the rings of \<open>m\<close> as it documents, unless it fails the lookup or the open.\<close>

definition rings_served :: "ring_reader \<Rightarrow> maps \<Rightarrow> bool" where
  "rings_served R m \<longleftrightarrow>
     (\<forall>vid ring. rings m vid = Some ring \<and> length ring = unat PB_RING_SIZE \<longrightarrow>
        rr_lookup R vid = 0 \<or> rr_open R (rr_lookup R vid) < 0 \<or> (\<exists>pos. batches_of ring pos (rr_batch R (rr_lookup R vid))))"

lemma vip_ring_length:
  assumes inv: "lb_inv c s" and v: "smap_find (vips s) sp = Some v"
  obtains ring where "rings (kmaps s) (v_id v) = Some ring" "length ring = unat PB_RING_SIZE"
proof -
  note C = coreD [OF lb_inv_core [OF inv]]
  have ids: "id_of s a \<noteq> None" if "smap_find (v_members v) a \<noteq> None" for a
    using member_id [OF C(4) _ v, of a] that by (auto simp: member_addrs_def domIff)
  obtain ring where ring: "rings (kmaps s) (v_id v) = Some ring"
    "build_ring (map (backend_for s) (items (v_members v))) (lb_hash s) PB_RING_SIZE = Some (Inr ring)"
    using ring_of_vip [OF inv v] by blast
  have "ids_ok (map (backend_for s) (items (v_members v)))" by (rule backends_ids_ok(1) [OF C(1)]) (use ids in blast)
  from build_ring_contents(1) [OF ring_size_ok_PB_RING_SIZE this ring(2)] ring(1) show ?thesis by (rule that [rotated])
qed

lemma snapshot_vip:
  assumes "v \<in> set (snapshot s)"
  obtains w where "smap_find (vips s) (vv_spec v) = Some w" "vv_id v = v_id w"
  using assms by (auto simp: snapshot_def smap.in_entries)

lemma served_readable:
  assumes inv: "lb_inv c s" and "rings_served (a_rings A (kmaps s)) (kmaps s)"
  shows "rings_readable A s"
  unfolding rings_readable_def
proof
  fix v
  assume "v \<in> set (snapshot s)"
  then obtain w where w: "smap_find (vips s) (vv_spec v) = Some w" "vv_id v = v_id w" by (rule snapshot_vip)
  obtain ring where ring: "rings (kmaps s) (v_id w) = Some ring" "length ring = unat PB_RING_SIZE"
    by (rule vip_ring_length [OF inv w(1)])
  let ?R = "a_rings A (kmaps s)"
  consider "rr_lookup ?R (v_id w) = 0" | "rr_open ?R (rr_lookup ?R (v_id w)) < 0"
    | pos where "batches_of ring pos (rr_batch ?R (rr_lookup ?R (v_id w)))"
    using assms(2) ring unfolding rings_served_def by blast
  then show "read_ring (errstr (a_env A)) ?R (vv_id v) \<noteq> None"
  proof cases
    case 3
    then have "batch_loop (errstr (a_env A)) (rr_batch ?R (rr_lookup ?R (v_id w))) 0 None [] \<noteq> None"
      using batch_loop_reads [OF 3 ring(2), of None "[]" _ 0] by (simp add: batches_of_def)
    then show ?thesis by (auto simp: read_ring_def w(2) Let_def split: sum.split)
  qed (simp_all add: read_ring_def w(2) Let_def)
qed

text \<open>A request that is refused at once shows that a reachable state stays reachable when a new trace is begun.\<close>

lemma reachable_quiet:
  assumes "reachable E s" "lb_initialized s"
  shows "reachable E (quiet_trace s)"
proof -
  have "\<exists>w. run_op E (AddReal sp 0 0) t = (Throw (ApiError w), t)" for sp t
    by (auto simp: run_op_def add_real_def vip_or_throw_def seqM_def bindM_def gets_def ret_def throw_def
        split: option.split)
  moreover have "op_ok (AddReal sp 0 0)" for sp by (simp add: op_ok_def)
  ultimately show ?thesis using assms later.rejected unfolding reachable_def by meson
qed

definition in_service :: "env \<Rightarrow> daemon \<Rightarrow> bool" where
  "in_service E d \<longleftrightarrow> reachable E (d_state d) \<and> lb_initialized (d_state d) \<and> validate_config (d_config d) = Inr ()"

text \<open>The daemon with an empty trace, which then holds the writes of one request.\<close>

definition begin_request :: "daemon \<Rightarrow> daemon" where
  "begin_request d = d\<lparr>d_state := quiet_trace (d_state d)\<rparr>"

definition maps_kept :: "daemon \<Rightarrow> daemon \<Rightarrow> bool" where
  "maps_kept d d' \<longleftrightarrow>
     (\<forall>m \<in> set (kmaps (d_state d') # ktrace (d_state d')). dp_safe m \<and> conntrack m = conntrack (kmaps (d_state d)))"

lemma safe_maps_kept: "safe (here {} (kmaps (d_state d))) (d_state d') \<Longrightarrow> maps_kept d d'"
  by (auto simp: safe_def maps_kept_def pinned_state_def kept_def)

lemma in_service_inv:
  assumes "env_ok E" "keys_law E" "in_service E d"
  shows "lb_inv (here {} (kmaps (d_state d))) (quiet_trace (d_state d))" "in_service E (begin_request d)"
    "maps_kept d (begin_request d)"
proof -
  show inv: "lb_inv (here {} (kmaps (d_state d))) (quiet_trace (d_state d))"
    using assms(3) by (intro lb_inv_quiet sys_inv_up [OF reachable_inv [OF assms(1,2)]]) (simp_all add: in_service_def)
  then show "maps_kept d (begin_request d)" by (intro safe_maps_kept) (simp add: begin_request_def lb_inv_safe)
  show "in_service E (begin_request d)" using assms(3) by (simp add: in_service_def begin_request_def reachable_quiet)
qed

lemma wp_on_lb [wp_simps]:
  "wp (on_lb m) Q R d = wp m (\<lambda>x s. Q x (d\<lparr>d_state := s\<rparr>)) (\<lambda>e s. R e (d\<lparr>d_state := s\<rparr>)) (d_state d)"
  by (auto simp: wp_def on_lb_def split: prod.splits outcome.splits)

lemma wp_runs_as:
  assumes "runs_as c m d" "wp m (\<lambda>_ s. Q (d\<lparr>d_state := s\<rparr>)) (\<lambda>e s. R e (d\<lparr>d_state := s\<rparr>)) (d_state d)"
  shows "wp c (\<lambda>_. Q) R d"
  using assms by (auto simp: wp_def runs_as_def split: prod.splits outcome.splits)

lemma wp_reads: "reads P m \<Longrightarrow> P d \<Longrightarrow> Q d \<Longrightarrow> (\<And>e. R e d) \<Longrightarrow> wp m (\<lambda>_. Q) R d"
  unfolding wp_def reads_def by (cases "m d"; cases "fst (m d)") fastforce+

text \<open>What holds after a request that went well, and after one on which the kernel or the table of reals failed.\<close>

definition served_well :: "env \<Rightarrow> daemon \<Rightarrow> daemon \<Rightarrow> bool" where
  "served_well E d d' \<longleftrightarrow> maps_kept d d' \<and> in_service E d'"

definition out_of_room :: "'n yaml_api \<Rightarrow> (string \<Rightarrow> string option) \<Rightarrow> options \<Rightarrow> env \<Rightarrow> daemon \<Rightarrow> bool" where
  "out_of_room Y fs opts E d \<longleftrightarrow> \<not> inserts_ok E \<or>
     (\<exists>cfg. load_config Y fs opts = Inr cfg \<and> \<not> fits cfg (model_of (d_state d)))"

definition served_badly :: "'n yaml_api \<Rightarrow> (string \<Rightarrow> string option) \<Rightarrow> options \<Rightarrow> env \<Rightarrow> daemon \<Rightarrow> daemon \<Rightarrow> bool" where
  "served_badly Y fs opts E d d' \<longleftrightarrow>
     maps_kept d d' \<and> validate_config (d_config d') = Inr () \<and> out_of_room Y fs opts E d"

lemma run_op_served:
  assumes E: "env_ok E" "keys_law E" and d: "in_service E d" and op: "op_ok op" "\<forall>cfg. op \<noteq> Apply cfg"
    and run: "run_op E op (quiet_trace (d_state d)) = (r, s')"
  shows "case r of
      Ret u \<Rightarrow> served_well E d (d\<lparr>d_state := s'\<rparr>)
    | Throw e \<Rightarrow> served_well E d (d\<lparr>d_state := s'\<rparr>) \<or> served_badly Y fs opts E d (d\<lparr>d_state := s'\<rparr>)
    | Wrong \<Rightarrow> False"
proof -
  let ?s = "quiet_trace (d_state d)" and ?c = "here {} (kmaps (d_state d))"
  note inv = in_service_inv [OF E d]
  have keep: "op_keeps ?c op" by (simp add: op_keeps_def)
  have "wp (run_op E op) (\<lambda>_. stepped ?c op ?s) (refused E ?c op ?s) ?s"
    using op_refines [OF E(1) op(1) keep] op(2) inv(1) by (simp add: refines_def)
  note res = wp_run [OF this run]
  show ?thesis
  proof (cases r)
    case (Ret u)
    then have s': "lb_inv ?c s'" using res by (simp add: stepped_def)
    have "reachable E s'"
      using d run op(1) Ret later.returned unfolding reachable_def in_service_def accepts_def by blast
    then show ?thesis
      using Ret s' d safe_maps_kept [of d "d\<lparr>d_state := s'\<rparr>"]
      by (simp add: served_well_def in_service_def lb_inv_safe) (simp add: lb_inv_def)
  next
    case (Throw e)
    then consider "s' = ?s" | "failed E ?c s'" using res by (auto simp: refused_def)
    then show ?thesis
    proof cases
      case 1
      then show ?thesis using Throw inv(2,3) by (simp add: served_well_def begin_request_def)
    next
      case 2
      then show ?thesis
        using Throw d safe_maps_kept [of d "d\<lparr>d_state := s'\<rparr>"]
        by (simp add: served_badly_def out_of_room_def failed_def in_service_def)
    qed
  qed (use res in simp)
qed

lemma fits_keep_running [simp]: "fits (keep_running running cfg) M = fits cfg M"
  by (simp add: fits_def keep_running_def)

lemma reload_served:
  assumes E: "env_ok E" "keys_law E" and d: "in_service E d"
  shows "wp (reload Y fs opts E) (\<lambda>_. served_well E d) (\<lambda>e d'. served_well E d d' \<or> served_badly Y fs opts E d d') (begin_request d)"
proof (cases "load_config Y fs opts")
  case (Inl e)
  then show ?thesis using in_service_inv(2,3) [OF E d] by (simp add: reload_def wp_simps served_well_def)
next
  case (Inr cfg)
  let ?s = "quiet_trace (d_state d)" and ?c = "here {} (kmaps (d_state d))" and ?cfg = "keep_running (d_config d) cfg"
  note inv = in_service_inv [OF E d]
  have ok: "config_ok ?cfg"
    using d load_config_ok [OF Inr] by (simp add: in_service_def validate_config_Inr keep_running_ok)
  obtain r s' where run: "apply_config E ?cfg ?s = (r, s')" by (cases "apply_config E ?cfg ?s")
  have "wp (apply_config E ?cfg) (\<lambda>_. lb_inv ?c)
      (\<lambda>e s'. s' = ?s \<or> safe ?c s' \<and> (\<not> inserts_ok E \<or> \<not> fits cfg (model_of ?s))) ?s"
    by (rule wp_reload [OF E(1) inv(1) ok]) (simp_all add: op_keeps_def)
  note res = wp_run [OF this run]
  have "case r of
      Ret u \<Rightarrow> served_well E d (d\<lparr>d_state := s', d_health := c_health ?cfg, d_config := ?cfg\<rparr>)
    | Throw e \<Rightarrow> served_well E d (d\<lparr>d_state := s'\<rparr>) \<or> served_badly Y fs opts E d (d\<lparr>d_state := s'\<rparr>)
    | Wrong \<Rightarrow> False"
  proof (cases r)
    case (Ret u)
    then have s': "lb_inv ?c s'" using res by simp
    have "op_ok (Apply ?cfg)" "run_op E (Apply ?cfg) ?s = (Ret u, s')"
      using ok run Ret by (simp_all add: op_ok_def validate_config_Inr run_op_def)
    then have "reachable E s'" using d later.returned unfolding reachable_def in_service_def accepts_def by blast
    then show ?thesis
      using Ret s' ok safe_maps_kept [of d "d\<lparr>d_state := s', d_health := c_health ?cfg, d_config := ?cfg\<rparr>"]
      by (simp add: served_well_def in_service_def lb_inv_safe validate_config_Inr) (simp add: lb_inv_def)
  next
    case (Throw e)
    then consider "s' = ?s" | "safe ?c s'" "\<not> inserts_ok E \<or> \<not> fits cfg (model_of ?s)" using res by auto
    then show ?thesis
    proof cases
      case 1
      then show ?thesis using Throw inv(2,3) by (simp add: served_well_def begin_request_def)
    next
      case 2
      then show ?thesis
        using Throw d Inr safe_maps_kept [of d "d\<lparr>d_state := s'\<rparr>"]
        by (simp add: served_badly_def out_of_room_def in_service_def)
    qed
  qed (use res in simp)
  then show ?thesis
    using run by (simp add: reload_def Inr wp_simps begin_request_def Let_def) (simp add: wp_def split: outcome.split)
qed

lemma daemon_api_simps [simp]:
  "a_env (daemon_api Y fs opts mode A) = a_env A" "a_rings (daemon_api Y fs opts mode A) = a_rings A"
  "a_parse (daemon_api Y fs opts mode A) = a_parse A" "a_dump (daemon_api Y fs opts mode A) = a_dump A"
  "h_reload (daemon_api Y fs opts mode A) = reload Y fs opts (a_env A)" "hook_ok (daemon_api Y fs opts mode A)"
  by (simp_all add: daemon_api_def hook_ok_def call_hook_def ret_def)

lemma request_op_ok: "request_op req = Some op \<Longrightarrow> op_ok op \<and> (\<forall>cfg. op \<noteq> Apply cfg)"
  by (erule request_op_cases) (auto simp: op_ok_def)

lemma wp_seq_value: "wp (seqM m (seqM (ret ()) (ret j))) (\<lambda>_. Q) R = wp m (\<lambda>_. Q) R"
  by (simp add: fun_eq_iff wp_def seqM_def bindM_def ret_def split: prod.split outcome.split)

lemma dispatch_served:
  fixes Y fs opts mode A d
  defines "B \<equiv> daemon_api Y fs opts mode A" and "E \<equiv> a_env A"
  assumes E: "env_ok E" "keys_law E" and d: "in_service E d" and rings: "rings_served (a_rings A (kmaps (d_state d))) (kmaps (d_state d))"
  shows "wp (dispatch B req) (\<lambda>_. served_well E d) (\<lambda>e d'. served_well E d d' \<or> served_badly Y fs opts E d d') (begin_request d)"
proof (cases "request_op req")
  case (Some op)
  have "runs_as (dispatch B req) (run_op E op) (begin_request d)"
    using dispatch_op [OF _ Some, of B] by (simp add: B_def E_def)
  moreover obtain r s' where run: "run_op E op (quiet_trace (d_state d)) = (r, s')"
    by (cases "run_op E op (quiet_trace (d_state d))")
  ultimately show ?thesis
    using run_op_served [OF E d _ _ run, of Y fs opts] request_op_ok [OF Some]
    by (intro wp_runs_as) (auto simp: wp_def begin_request_def split: outcome.splits)
next
  case None
  note inv = in_service_inv [OF E d]
  have same: "served_well E d (begin_request d)" using inv(2,3) by (simp add: served_well_def)
  show ?thesis
  proof (cases "arg_string req ''cmd''")
    case (Inl e)
    then show ?thesis using same by (simp add: dispatch_def wp_simps)
  next
    case (Inr cmd)
    show ?thesis
    proof (cases "cmd = ''reload''")
      case True
      have "dispatch B req = seqM (reload Y fs opts E) (seqM (call_hook (h_reals_changed B)) (ret (jobj [])))"
        by (simp add: dispatch_def Inr True B_def E_def)
      then show ?thesis
        using reload_served [OF E d, of Y fs opts]
        by (simp add: B_def daemon_api_def call_hook_def wp_seq_value)
    next
      case False
      have "rings_readable B (quiet_trace (d_state d))"
        by (rule served_readable [OF inv(1)]) (use rings in \<open>simp add: B_def\<close>)
      then show ?thesis
        using same by (intro wp_reads [OF dispatch_reads [OF None Inr False]]) (simp_all add: begin_request_def)
    qed
  qed
qed

end
