(* ===== verification/Daemon_Claims.thy ===== *)
theory Daemon_Claims
  imports Daemon
begin

text \<open>
  What the daemon promises of its API, of a reload and of its command line, from the JSON line of a request down to
  the maps in the kernel.
\<close>

section \<open>Which option counts\<close>

definition last_of :: "flag \<Rightarrow> (flag \<times> string) list \<Rightarrow> string option" where
  "last_of f given = map_of (rev given) f"

lemma last_of_Cons: "last_of f ((c, s) # cs) = (case last_of f cs of Some t \<Rightarrow> Some t | None \<Rightarrow> if c = f then Some s else None)"
  by (simp add: last_of_def map_add_def split: option.split)

definition given_or :: "'a option \<Rightarrow> 'a option \<Rightarrow> 'a option" where
  "given_or x y = (case x of Some v \<Rightarrow> Some v | None \<Rightarrow> y)"

lemma given_or_Cons:
  "given_or (last_of f ((c, s) # cs)) y = given_or (last_of f cs) (if c = f then Some s else y)"
  "last_of f ((c, s) # cs) \<noteq> None \<longleftrightarrow> c = f \<or> last_of f cs \<noteq> None"
  by (simp_all add: last_of_Cons given_or_def split: option.split)

lemma set_option_fields:
  assumes "set_option c s opts = Inr opts'"
  shows "o_interface opts' = (if c = kInterface then Some s else o_interface opts)"
    "o_socket opts' = (if c = kSocket then Some s else o_socket opts)"
    "o_pin_path opts' = (if c = kPinPath then Some s else o_pin_path opts)"
    "o_no_conntrack opts' \<longleftrightarrow> c = kNoConntrack \<or> o_no_conntrack opts"
    "o_no_health_check opts' \<longleftrightarrow> c = kNoHealthCheck \<or> o_no_health_check opts"
  using assms by (cases c; force simp: bind_result_Inr)+

lemma options_loop_given:
  "options_loop u cs opts = Go opts' \<Longrightarrow>
   o_interface opts' = given_or (last_of kInterface cs) (o_interface opts) \<and>
   o_socket opts' = given_or (last_of kSocket cs) (o_socket opts) \<and>
   o_pin_path opts' = given_or (last_of kPinPath cs) (o_pin_path opts) \<and>
   (o_no_conntrack opts' \<longleftrightarrow> last_of kNoConntrack cs \<noteq> None \<or> o_no_conntrack opts) \<and>
   (o_no_health_check opts' \<longleftrightarrow> last_of kNoHealthCheck cs \<noteq> None \<or> o_no_health_check opts)"
proof (induction u cs opts rule: options_loop.induct)
  case (1 u opts)
  then show ?case by (simp add: last_of_def given_or_def)
next
  case (2 u c s cs opts)
  obtain opts1 where c: "c \<noteq> kHelp" "c \<noteq> kOther" "set_option c s opts = Inr opts1" "options_loop u cs opts1 = Go opts'"
  proof (cases "set_option c s opts")
    case (Inr opts1)
    then show ?thesis using 2(2) by (intro that [of opts1]) (simp_all add: usage_error_def split: if_split_asm)
  qed (use 2(2) in \<open>simp add: usage_error_def split: if_split_asm\<close>)
  from 2(1) [OF c(1-3) c(4)] show ?case
    unfolding given_or_Cons set_option_fields [OF c(3)] by blast
qed

lemma parse_options_given:
  "parse_options u given left = Go opts \<Longrightarrow> left = [] \<and> options_loop u given default_options = Go opts"
  by (auto simp: parse_options_def usage_error_def split: or_exit.splits list.splits)

lemma apply_to_given:
  "c_interface (apply_to opts c) = (case o_interface opts of Some i \<Rightarrow> i | None \<Rightarrow> c_interface c)"
  "c_socket (apply_to opts c) = (case o_socket opts of Some i \<Rightarrow> i | None \<Rightarrow> c_socket c)"
  "c_pin_path (apply_to opts c) = (case o_pin_path opts of Some i \<Rightarrow> i | None \<Rightarrow> c_pin_path c)"
  "c_conntrack_enabled (apply_to opts c) = (c_conntrack_enabled c \<and> \<not> o_no_conntrack opts)"
  "hc_enabled (c_health (apply_to opts c)) = (hc_enabled (c_health c) \<and> \<not> o_no_health_check opts)"
  by (simp_all add: apply_to_def override_def Let_def split: option.split)

lemma default_options_given:
  "o_interface default_options = None" "o_socket default_options = None" "o_pin_path default_options = None"
  "\<not> o_no_conntrack default_options" "\<not> o_no_health_check default_options"
  by (simp_all add: default_options_def)

section \<open>A daemon in service\<close>

definition demo_api :: api where
  "demo_api = \<lparr>a_env = demo_env, a_reader = \<lparr>ncpus = 2, ct_max_entries = 8\<rparr>,
     a_walk = (\<lambda>m. \<lparr>ct_next = (\<lambda>_ _. None), ct_get = (\<lambda>_. conntrack m)\<rparr>),
     a_rings = (\<lambda>m. \<lparr>rr_lookup = (\<lambda>vid. vid + 1), rr_open = (\<lambda>_. 3), rr_errno = 0,
       rr_batch = (\<lambda>i. slow_batch (case rings m (i - 1) of Some ring \<Rightarrow> ring | None \<Rightarrow> []))\<rparr>),
     a_now = 0, a_parse = (\<lambda>line. Inr (jobj [(''cmd'', JStr line), (''vip'', JStr (VipSpec_str demo_sp)),
       (''addr'', JStr (ipv4_to_string demo_real))])),
     a_dump = (\<lambda>j. case j of JObj _ \<Rightarrow> ''{}'' | _ \<Rightarrow> ''?''),
     h_reload = ret (), h_config = (\<lambda>_. JNull), h_reals_changed = None\<rparr>"

lemma demo_rings_served: "rings_served (a_rings demo_api m) m"
  unfolding rings_served_def
proof (intro allI impI disjI2)
  fix vid ring
  assume "rings m vid = Some ring \<and> length ring = unat PB_RING_SIZE"
  then have "batches_of ring (\<lambda>tok. case tok of None \<Rightarrow> 0 | Some b \<Rightarrow> unat b) (rr_batch (a_rings demo_api m) (rr_lookup (a_rings demo_api m) vid))"
    using slow_batches [of ring] by (simp add: demo_api_def PB_RING_SIZE_def)
  then show "\<exists>pos. batches_of ring pos (rr_batch (a_rings demo_api m) (rr_lookup (a_rings demo_api m) vid))" by blast
qed

lemma demo_in_service:
  "\<exists>d. in_service demo_env d \<and> dom (model_of (d_state d)) = {demo_sp} \<and> model_addrs (model_of (d_state d)) = {demo_real} \<and>
     (\<exists>M'. lb_step (SetDraining demo_sp demo_real True) (model_of (d_state d)) M') \<and> d_config d = demo_config []"
proof -
  obtain s v m where s: "reachable demo_env s" "lb_initialized s" "dom (model_of s) = {demo_sp}"
    "smap_find (vips s) demo_sp = Some v" "smap_find (v_members v) demo_real = Some m" "model_addrs (model_of s) = {demo_real}"
    using demo_served by blast
  have "\<exists>M'. lb_step (SetDraining demo_sp demo_real True) (model_of s) M'"
    using s(4,5) by (auto simp: lb_step_def on_member_def model_of_def vip_model_def)
  then show ?thesis
    using s demo_config_ok
    by (intro exI [of _ "\<lparr>d_state = s, d_config = demo_config [], d_health = c_health (demo_config [])\<rparr>"])
      (simp add: in_service_def)
qed

lemma demo_drain:
  "request_op (jobj [(''cmd'', JStr ''real.drain''), (''vip'', JStr (VipSpec_str demo_sp)), (''addr'', JStr (ipv4_to_string demo_real))]) =
   Some (SetDraining demo_sp demo_real True)"
proof -
  let ?req = "jobj [(''cmd'', JStr ''real.drain''), (''vip'', JStr (VipSpec_str demo_sp)), (''addr'', JStr (ipv4_to_string demo_real))]"
  have "jfind ?req ''cmd'' = Some (JStr ''real.drain'')" "jfind ?req ''vip'' = Some (JStr (VipSpec_str demo_sp))"
    "jfind ?req ''addr'' = Some (JStr (ipv4_to_string demo_real))"
    by (simp_all add: map_of_jobj)
  moreover have "VipSpec_parse (VipSpec_str demo_sp) = Inr demo_sp" by (rule VipSpec_str_parts) (simp_all add: demo_sp_def)
  ultimately show ?thesis
    by (simp add: request_op_def arg_string_def arg_vip_def arg_addr_def arg_def catch_invalid_def both_def)
qed

lemma d_state_inject: "d\<lparr>d_state := s\<rparr> = d\<lparr>d_state := t\<rparr> \<longleftrightarrow> s = t"
  by (cases d) simp

text \<open>A configuration file with the two settings that have no default.\<close>

definition demo_doc :: ytree where
  "demo_doc = YMap [(''interface'', YScalar ''eth1''), (''encap_src_prefix'', YScalar ''10.99.0.0/24'')]"

lemma demo_load:
  "load_config (tree_yaml demo_doc) (\<lambda>_. Some []) default_options =
   Inr (default_config\<lparr>c_interface := ''eth1'', c_encap_src := Cidr (le32 10 99 0 0) (le32 255 255 255 0) 24\<rparr>)"
  by code_simp

section \<open>A request\<close>

lemma request_handled:
  assumes E: "env_ok (a_env A)" "keys_law (a_env A)" and d: "in_service (a_env A) d"
    and rings: "rings_served (a_rings A (kmaps (d_state d))) (kmaps (d_state d))"
    and req: "a_parse A line = Inr req" "is_object req" "arg_string req ''cmd'' \<noteq> Inr ''reload''"
  shows "\<exists>resp d'. handle_line (daemon_api Y fs opts mode A) line (begin_request d) = (Ret resp, d') \<and> d_config d' = d_config d \<and>
    (case request_op req of
       None \<Rightarrow> d' = begin_request d
     | Some op \<Rightarrow>
         (\<exists>j. resp = a_dump A (ok_response j)) \<and> lb_step op (model_of (d_state d)) (model_of (d_state d')) \<or>
         (\<exists>w. resp = a_dump A (error_response w)) \<and>
           (d' = begin_request d \<and>
              ((\<forall>M'. \<not> lb_step op (model_of (d_state d)) M') \<or>
               (\<exists>sp nc. op = AddVip sp nc) \<and> 64 \<le> card (dom (model_of (d_state d))) \<or>
               (\<exists>sp a w. op = AddReal sp a w) \<and> 511 \<le> card (model_addrs (model_of (d_state d)))) \<or>
            \<not> inserts_ok (a_env A)))"
proof -
  let ?B = "daemon_api Y fs opts mode A" and ?E = "a_env A" and ?s = "quiet_trace (d_state d)" and ?c = "here {} (kmaps (d_state d))"
  note inv = in_service_inv [OF E d]
  have M: "model_of ?s = model_of (d_state d)" by (simp add: model_of_def quiet_trace_def)
  show ?thesis
  proof (cases "request_op req")
    case (Some op)
    have op: "op_ok op" "\<forall>cfg. op \<noteq> Apply cfg" "op_keeps ?c op" using request_op_ok [OF Some] by (simp_all add: op_keeps_def)
    obtain r s' where run: "run_op ?E op ?s = (r, s')" by (cases "run_op ?E op ?s")
    have "wp (run_op ?E op) (\<lambda>_. stepped ?c op ?s) (refused ?E ?c op ?s) ?s"
      using op_refines [OF E(1) op(1,3)] op(2) inv(1) by (simp add: refines_def)
    from wp_run [OF this run] dispatch_op [OF daemon_api_simps(6) Some, of Y fs opts mode A "begin_request d"] run
    show ?thesis
      using req vip_ids_taken_card [of ?s] table_full_card [OF inv(1)]
      by (auto simp: runs_as_def handle_line_def begin_request_def Some stepped_def refused_def cannot_def failed_def M
          split: outcome.splits)
  next
    case None
    have "wp (dispatch ?B req) (\<lambda>_ d'. d' = begin_request d) (\<lambda>_ d'. d' = begin_request d) (begin_request d)"
    proof (cases "arg_string req ''cmd''")
      case (Inr cmd)
      have "rings_readable ?B ?s" by (rule served_readable [OF inv(1)]) (use rings in simp)
      then show ?thesis
        using req(3) Inr by (intro wp_reads [OF dispatch_reads [OF None Inr]]) (simp_all add: begin_request_def)
    qed (simp add: dispatch_def wp_simps)
    then show ?thesis
      using req by (auto simp: wp_def handle_line_def None begin_request_def split: prod.splits outcome.splits)
  qed
qed

lemma request_answered:
  assumes E: "env_ok (a_env A)" "keys_law (a_env A)" and d: "in_service (a_env A) d"
    and rings: "rings_served (a_rings A (kmaps (d_state d))) (kmaps (d_state d))"
  shows "\<exists>resp d'. handle_line (daemon_api Y fs opts mode A) line (begin_request d) = (Ret resp, d') \<and>
    (\<forall>m \<in> set (kmaps (d_state d') # ktrace (d_state d')). dp_safe m \<and> conntrack m = conntrack (kmaps (d_state d))) \<and>
    validate_config (d_config d') = Inr () \<and>
    (in_service (a_env A) d' \<or>
     (\<exists>w. resp = a_dump A (error_response w)) \<and>
       (\<not> inserts_ok (a_env A) \<or>
        (\<exists>cfg. load_config Y fs opts = Inr cfg \<and> 511 < card (model_addrs (model_of (d_state d)) \<union> config_addrs (c_vips cfg)))))"
proof -
  let ?B = "daemon_api Y fs opts mode A" and ?E = "a_env A"
  have "\<exists>resp d'. handle_line ?B line (begin_request d) = (Ret resp, d') \<and>
    (served_well ?E d d' \<or> (\<exists>w. resp = a_dump A (error_response w)) \<and> served_badly Y fs opts ?E d d')"
  proof (cases "a_parse A line")
    case (Inl msg)
    then show ?thesis using in_service_inv(2,3) [OF E d] by (simp add: handle_line_def served_well_def)
  next
    case (Inr req)
    then show ?thesis
      using in_service_inv(2,3) [OF E d] dispatch_served [OF E d rings, of Y fs opts mode req]
      by (cases "is_object req") (auto simp: handle_line_def served_well_def wp_def split: prod.splits outcome.splits)
  qed
  then show ?thesis
    by (auto simp: served_well_def served_badly_def maps_kept_def in_service_def out_of_room_def fits_def not_le)
qed

section \<open>Claims\<close>

text \<open>
  C4.  A request does to the services what it stands for.  To a daemon in service, a line that parses to an object whose
  command is \<^verbatim>\<open>vip.add\<close>, \<^verbatim>\<open>vip.del\<close>, \<^verbatim>\<open>real.add\<close>, \<^verbatim>\<open>real.del\<close>, \<^verbatim>\<open>real.weight\<close>, \<^verbatim>\<open>real.drain\<close> or \<^verbatim>\<open>real.undrain\<close> with well-formed
  arguments stands for an operation.  If the response says \<^verbatim>\<open>ok\<close>, the services changed exactly as the specification of that
  operation prescribes; otherwise the response is an error, and nothing changed because the specification has no such step
  or there is no id left for the new VIP or real, or the kernel refused an insertion.  Every other command, except \<^verbatim>\<open>reload\<close>, changes nothing.
\<close>

theorem requests_refine:
  assumes E: "env_ok (a_env A)" "keys_law (a_env A)" and d: "in_service (a_env A) d"
    and rings: "rings_served (a_rings A (kmaps (d_state d))) (kmaps (d_state d))"
    and req: "a_parse A line = Inr req" "is_object req" "arg_string req ''cmd'' \<noteq> Inr ''reload''"
  shows "\<exists>resp d'. handle_line (daemon_api Y fs opts mode A) line (begin_request d) = (Ret resp, d') \<and> d_config d' = d_config d \<and>
    (case request_op req of
       None \<Rightarrow> d' = begin_request d
     | Some op \<Rightarrow>
         (\<exists>j. resp = a_dump A (ok_response j)) \<and> lb_step op (model_of (d_state d)) (model_of (d_state d')) \<or>
         (\<exists>w. resp = a_dump A (error_response w)) \<and>
           (d' = begin_request d \<and>
              ((\<forall>M'. \<not> lb_step op (model_of (d_state d)) M') \<or>
               (\<exists>sp nc. op = AddVip sp nc) \<and> 64 \<le> card (dom (model_of (d_state d))) \<or>
               (\<exists>sp a w. op = AddReal sp a w) \<and> 511 \<le> card (model_addrs (model_of (d_state d)))) \<or>
            \<not> inserts_ok (a_env A)))"
  by (rule request_handled [OF assms])

theorem requests_refine_witness:
  "\<exists>d resp d'. dom (model_of (d_state d)) = {demo_sp} \<and>
     handle_line (daemon_api (tree_yaml YNull) (\<lambda>_. None) default_options Generic demo_api) ''real.drain'' (begin_request d) = (Ret resp, d') \<and>
     on_member demo_sp demo_real (\<lambda>m. m\<lparr>m_draining := True\<rparr>) (model_of (d_state d)) (model_of (d_state d'))"
proof -
  obtain d where d: "in_service demo_env d" "dom (model_of (d_state d)) = {demo_sp}" "model_addrs (model_of (d_state d)) = {demo_real}"
    "\<exists>M'. lb_step (SetDraining demo_sp demo_real True) (model_of (d_state d)) M'"
    using demo_in_service by blast
  let ?req = "jobj [(''cmd'', JStr ''real.drain''), (''vip'', JStr (VipSpec_str demo_sp)), (''addr'', JStr (ipv4_to_string demo_real))]"
  have env: "a_env demo_api = demo_env" and parse: "a_parse demo_api ''real.drain'' = Inr ?req"
    and "is_object ?req" "arg_string ?req ''cmd'' \<noteq> Inr ''reload''"
    by (simp_all add: demo_api_def arg_string_def arg_def map_of_jobj)
  then show ?thesis
    using requests_refine [of demo_api d "''real.drain''" ?req "tree_yaml YNull" "\<lambda>_. None" default_options Generic]
      demo_env_ok demo_keys_law demo_rings_served d by (auto simp: demo_drain lb_step_def)
qed

text \<open>
  C5.  The API always answers, and no request harms the data plane.  Whatever the line, and whatever the JSON library makes
  of it, the handler of a daemon in service returns a response: no exception escapes, nothing undefined happens and no loop
  runs on.  After every single write of the request each VIP entry has a complete ring of usable reals and the connection
  table is untouched.  The daemon stays in service; the only exception is an error response after the kernel refused an
  insertion, or after a reload whose reals do not fit in the table together with the running ones.
\<close>

theorem api_answers:
  assumes E: "env_ok (a_env A)" "keys_law (a_env A)" and d: "in_service (a_env A) d"
    and rings: "rings_served (a_rings A (kmaps (d_state d))) (kmaps (d_state d))"
  shows "\<exists>resp d'. handle_line (daemon_api Y fs opts mode A) line (begin_request d) = (Ret resp, d') \<and>
    (\<forall>m \<in> set (kmaps (d_state d') # ktrace (d_state d')). dp_safe m \<and> conntrack m = conntrack (kmaps (d_state d))) \<and>
    validate_config (d_config d') = Inr () \<and>
    (in_service (a_env A) d' \<or>
     (\<exists>w. resp = a_dump A (error_response w)) \<and>
       (\<not> inserts_ok (a_env A) \<or>
        (\<exists>cfg. load_config Y fs opts = Inr cfg \<and> 511 < card (model_addrs (model_of (d_state d)) \<union> config_addrs (c_vips cfg)))))"
  by (rule request_answered [OF assms])

theorem api_answers_witness:
  "\<exists>d resp d'. dom (model_of (d_state d)) = {demo_sp} \<and>
     handle_line (daemon_api (tree_yaml YNull) (\<lambda>_. None) default_options Generic demo_api) ''ring.show'' (begin_request d) = (Ret resp, d') \<and>
     in_service demo_env d'"
proof -
  obtain d where d: "in_service demo_env d" "dom (model_of (d_state d)) = {demo_sp}" using demo_in_service by blast
  have env: "a_env demo_api = demo_env" by (simp add: demo_api_def)
  have no: "load_config (tree_yaml YNull) (\<lambda>_. None) default_options \<noteq> Inr cfg" for cfg
    by (simp add: load_config_def load_config_file_def)
  show ?thesis
    using api_answers [of demo_api d "tree_yaml YNull" "\<lambda>_. None" default_options Generic "''ring.show''"]
      demo_env_ok demo_keys_law demo_rings_served d no unfolding env by blast
qed

text \<open>
  C15.  A reload changes what it may and reports the truth.  If it returns, the services are exactly those of the file; the
  running configuration, which the \<^verbatim>\<open>config\<close> command shows, is the one of the file except that interface, XDP mode, size
  of the connection table, socket, pin path, metrics address and the health-check switch keep their running values; the
  health checker has the new parameters, and whether members are checked at all is what the running configuration says.  If
  the file cannot be loaded the error says so and nothing at all has changed; if it fails later the configuration shown is
  still the old one.
\<close>

theorem reload_reports_truth:
  assumes E: "env_ok E" "keys_law E" and d: "in_service E d" and run: "reload Y fs opts E (begin_request d) = (r, d')"
  shows "case r of
      Ret u \<Rightarrow> (\<exists>cfg. load_config Y fs opts = Inr cfg \<and> reloaded cfg (model_of (d_state d)) (model_of (d_state d')) \<and>
          d_config d' = cfg\<lparr>c_interface := c_interface (d_config d), c_xdp_mode := c_xdp_mode (d_config d),
            c_conntrack_size := c_conntrack_size (d_config d), c_socket := c_socket (d_config d),
            c_pin_path := c_pin_path (d_config d), c_metrics_listen := c_metrics_listen (d_config d),
            c_health := (c_health cfg)\<lparr>hc_enabled := hc_enabled (c_health (d_config d))\<rparr>\<rparr>) \<and>
        d_health d' = c_health (d_config d') \<and> lb_health_enabled (d_state d') = hc_enabled (c_health (d_config d')) \<and>
        lb_hash (d_state d') = c_hash (d_config d') \<and> lb_next_hop (d_state d') = c_next_hop (d_config d') \<and> in_service E d'
    | Throw e \<Rightarrow> d_config d' = d_config d \<and> d_health d' = d_health d \<and>
        (case load_config Y fs opts of Inl err \<Rightarrow> e = ApiError (''reload: '' @ what err) \<and> d' = begin_request d
         | Inr cfg \<Rightarrow> is_runtime_error e \<and>
             (d' = begin_request d \<and> Mac_parse (if_address E (lb_interface (d_state d))) = None \<or> \<not> inserts_ok E \<or>
              511 < card (model_addrs (model_of (d_state d)) \<union> config_addrs (c_vips cfg))))
    | Wrong \<Rightarrow> False"
proof (cases "load_config Y fs opts")
  case (Inl e)
  then show ?thesis
    using run by (auto simp: reload_def begin_request_def throw_def)
next
  case (Inr cfg)
  let ?s = "quiet_trace (d_state d)" and ?c = "here {} (kmaps (d_state d))" and ?cfg = "keep_running (d_config d) cfg"
  note inv = in_service_inv [OF E d]
  have ok: "config_ok ?cfg"
    using d load_config_ok [OF Inr] by (simp add: in_service_def validate_config_Inr keep_running_ok)
  have M: "model_of ?s = model_of (d_state d)" and I: "lb_interface ?s = lb_interface (d_state d)"
    by (simp_all add: model_of_def quiet_trace_def)
  have "wp (apply_config E ?cfg) (\<lambda>_ s. reloaded cfg (model_of ?s) (model_of s) \<and> set_to ?cfg s) 
      (\<lambda>e s. is_runtime_error e \<and> (s = ?s \<and> Mac_parse (if_address E (lb_interface ?s)) = None \<or> \<not> inserts_ok E \<or> \<not> fits cfg (model_of ?s))) ?s"
    by (rule wp_reload [OF E(1) inv(1) ok]) (auto simp: op_keeps_def reloaded_def keep_running_def fits_def)
  then have "wp (reload Y fs opts E)
      (\<lambda>_ d'. reloaded cfg (model_of (d_state d)) (model_of (d_state d')) \<and> set_to ?cfg (d_state d') \<and> d_config d' = ?cfg \<and>
        d_health d' = c_health ?cfg)
      (\<lambda>e d'. is_runtime_error e \<and> d_config d' = d_config d \<and> d_health d' = d_health d \<and>
        (d' = begin_request d \<and> Mac_parse (if_address E (lb_interface ?s)) = None \<or> \<not> inserts_ok E \<or> \<not> fits cfg (model_of ?s)))
      (begin_request d)"
    by (simp add: reload_def Inr wp_simps begin_request_def Let_def M d_state_inject conj_commute conj_left_commute)
  from wp_run [OF this run] wp_run [OF reload_served [OF E d] run] show ?thesis
    by (auto simp: Inr set_to_def keep_running_def served_well_def fits_def not_le M I split: outcome.splits)
qed

theorem reload_reports_truth_witness:
  "\<exists>d d'. in_service demo_env d \<and> dom (model_of (d_state d)) = {demo_sp} \<and>
     reload (tree_yaml demo_doc) (\<lambda>_. Some []) default_options demo_env (begin_request d) = (Ret (), d') \<and>
     dom (model_of (d_state d')) = {} \<and> c_interface (d_config d') = ''eth0''"
proof -
  obtain d where d: "in_service demo_env d" "dom (model_of (d_state d)) = {demo_sp}" "model_addrs (model_of (d_state d)) = {demo_real}"
    "d_config d = demo_config []" using demo_in_service by blast
  obtain r d' where run: "reload (tree_yaml demo_doc) (\<lambda>_. Some []) default_options demo_env (begin_request d) = (r, d')"
    by (cases "reload (tree_yaml demo_doc) (\<lambda>_. Some []) default_options demo_env (begin_request d)")
  show ?thesis
    using reload_reports_truth [OF demo_env_ok(1) demo_keys_law d(1) run] demo_env_ok(2) demo_mac [of "lb_interface (d_state d)"]
      d run
    by (auto simp: demo_load default_config_def config_addrs_def reloaded_def demo_config_def split: outcome.splits)
qed



end
