(* ===== verification/Lb_Reports.thy ===== *)
theory Lb_Reports
  imports Lb_System
begin

text \<open>
  The interface through which the background threads feed \<^verbatim>\<open>LbState\<close>: the health checker reports probe results, the
  neighbour resolver reports MAC addresses.  Both call one operation again and again.  \<open>reporter\<close> states what they rely on,
  and what a whole series of reports then does; \<^verbatim>\<open>report_health\<close> and \<^verbatim>\<open>neighbor_resolved\<close> provide it.
\<close>

section \<open>The interface\<close>

locale reporter =
  fixes report :: "'x \<Rightarrow> ('s, unit) act"
    and accepts :: "'x \<Rightarrow> bool"
    and inv :: "'s \<Rightarrow> bool"
    and view :: "'s \<Rightarrow> 'm"
    and effect :: "'x \<Rightarrow> 'm \<Rightarrow> 'm"
    and broken :: "cpp_error \<Rightarrow> 's \<Rightarrow> bool"
  assumes report: "inv s \<Longrightarrow> accepts x \<Longrightarrow> wp (report x) (\<lambda>_ s'. inv s' \<and> view s' = effect x (view s)) broken s"
begin

lemma then_do:
  "inv s \<Longrightarrow> accepts x \<Longrightarrow> (\<And>s'. inv s' \<Longrightarrow> view s' = effect x (view s) \<Longrightarrow> wp m Q broken s') \<Longrightarrow> wp (seqM (report x) m) Q broken s"
  unfolding wp_seqM by (rule wp_mono [OF report]) simp_all

lemma series:
  "inv s \<Longrightarrow> list_all accepts xs \<Longrightarrow>
   wp (forM xs report) (\<lambda>_ s'. inv s' \<and> view s' = foldl (\<lambda>M x. effect x M) (view s) xs) broken s"
proof (induction xs arbitrary: s)
  case (Cons x xs)
  have "wp (forM xs report) (\<lambda>_ s''. inv s'' \<and> view s'' = foldl (\<lambda>M x. effect x M) (view s) (x # xs)) broken s'"
    if "inv s'" "view s' = effect x (view s)" for s'
    using Cons.IH [OF that(1)] Cons.prems(2) that(2) by simp
  then show ?case using Cons.prems by (simp add: then_do del: foldl_Cons)
qed (simp add: wp_simps)

end

section \<open>What LbState provides\<close>

abbreviation lb_up :: "env \<Rightarrow> ghost \<Rightarrow> lb \<Rightarrow> bool" where
  "lb_up E c s \<equiv> env_ok E \<and> lb_inv c s"

interpretation health_reports: reporter "\<lambda>(t, r). report_health E t r rise fall" "\<lambda>_. True" "lb_up E c" model_of
  "\<lambda>(t, r). probed t r rise fall" "\<lambda>e s. is_runtime_error e \<and> failed E c s"
  for E c rise fall
proof unfold_locales
  fix s and x :: "health_target \<times> probe_result"
  assume up: "lb_up E c s"
  obtain t r where x: "x = (t, r)" by (cases x)
  have "wp (report_health E t r rise fall) (\<lambda>_. stepped c (ReportHealth t r rise fall) s) (refused E c (ReportHealth t r rise fall) s) s"
    using report_health_refines up by (simp add: refines_def run_op_def)
  then show "wp (case x of (t, r) \<Rightarrow> report_health E t r rise fall)
      (\<lambda>_ s'. lb_up E c s' \<and> model_of s' = (case x of (t, r) \<Rightarrow> probed t r rise fall) (model_of s))
      (\<lambda>e s. is_runtime_error e \<and> failed E c s) s"
    unfolding x prod.case by (rule wp_mono) (use up in \<open>auto simp: stepped_def lb_step_def refused_def cannot_def\<close>)
qed

interpretation neighbor_reports: reporter "\<lambda>(ip, m). neighbor_resolved E ip m" "\<lambda>(ip, m). m \<noteq> zero_mac" "lb_up E c" model_of
  "\<lambda>_ M. M" "\<lambda>e s. is_runtime_error e \<and> failed E c s"
  for E c
proof unfold_locales
  fix s and x :: "u32 \<times> mac_addr"
  assume up: "lb_up E c s" and m: "case x of (ip, m) \<Rightarrow> m \<noteq> zero_mac"
  then show "wp (case x of (ip, m) \<Rightarrow> neighbor_resolved E ip m) (\<lambda>_ s'. lb_up E c s' \<and> model_of s' = model_of s)
      (\<lambda>e s. is_runtime_error e \<and> failed E c s) s"
    by (cases x) (auto intro!: wp_neighbor_resolved)
qed

end
