(* ===== verification/Health_Checker.thy ===== *)
theory Health_Checker
  imports Daemon_Claims Lb_Reports "HOL-Library.Sublist"
begin

text \<open>
  \<^verbatim>\<open>src/daemon/health_checker.cpp\<close>: one round of TCP checks, and what repeated rounds do to a member.

  The sockets and the clock are in \<open>prober\<close>: what \<^verbatim>\<open>socket\<close> and \<^verbatim>\<open>connect\<close> give for the \<open>i\<close>-th target, the milliseconds left before
  the \<open>n\<close>-th \<^verbatim>\<open>poll\<close>, which sockets that \<^verbatim>\<open>poll\<close> reports together with their \<^verbatim>\<open>SO_ERROR\<close>, the time a probe took and the time
  the round took.  Each target is a pair of its result so far and whether it is still pending.  The poll loop is a partial
  function: \<open>None\<close> is a loop that runs for ever.  In \<open>step\<close> the reports follow each other; other threads may run between them,
  which the runs of \<^verbatim>\<open>Lb_System\<close> cover, where each report is an event of its own.
\<close>

section \<open>The code\<close>

datatype dial = NoSocket int | Connected | InProgress | NotConnected int

datatype poll = PollError int | Ready "nat \<Rightarrow> int option"

record prober =
  p_dial :: "nat \<Rightarrow> health_target \<Rightarrow> dial"
  p_left :: "nat \<Rightarrow> int"
  p_poll :: "nat \<Rightarrow> poll"
  p_rtt :: "nat \<Rightarrow> u32"
  p_strerror :: "int \<Rightarrow> string"
  p_spent :: int

definition EINTR :: int where "EINTR = 4"

text \<open>\<^verbatim>\<open>EMFILE\<close>, \<^verbatim>\<open>ENFILE\<close>, \<^verbatim>\<open>ENOBUFS\<close>, \<^verbatim>\<open>ENOMEM\<close>, \<^verbatim>\<open>EADDRNOTAVAIL\<close> and \<^verbatim>\<open>EAGAIN\<close>.\<close>

definition is_local :: "int \<Rightarrow> bool" where
  "is_local err \<longleftrightarrow> err = 24 \<or> err = 23 \<or> err = 105 \<or> err = 12 \<or> err = 99 \<or> err = 11"

definition no_result :: probe_result where
  "no_result = \<lparr>pr_ok = False, pr_rtt_us = 0, pr_detail = [], pr_local_error = False\<rparr>"

definition finish :: "prober \<Rightarrow> nat \<Rightarrow> bool \<Rightarrow> string \<Rightarrow> probe_result \<Rightarrow> probe_result \<times> bool" where
  "finish P i ok detail r = (r\<lparr>pr_ok := ok, pr_detail := detail, pr_rtt_us := p_rtt P i\<rparr>, False)"

definition dial_one :: "prober \<Rightarrow> nat \<Rightarrow> health_target \<Rightarrow> probe_result \<times> bool" where
  "dial_one P i t =
     (case p_dial P i t of
        NoSocket err \<Rightarrow>
          (case finish P i False (''socket: '' @ p_strerror P err) no_result of (r, p) \<Rightarrow> (r\<lparr>pr_local_error := is_local err\<rparr>, p))
      | Connected \<Rightarrow> finish P i True ''connected'' no_result
      | InProgress \<Rightarrow> (no_result, True)
      | NotConnected err \<Rightarrow>
          (case finish P i False (p_strerror P err) no_result of (r, p) \<Rightarrow> (r\<lparr>pr_local_error := is_local err\<rparr>, p)))"

fun dial_loop :: "prober \<Rightarrow> nat \<Rightarrow> health_target list \<Rightarrow> (probe_result \<times> bool) list" where
  "dial_loop P i [] = []"
| "dial_loop P i (t # ts) = dial_one P i t # dial_loop P (Suc i) ts"

definition poll_one :: "prober \<Rightarrow> (nat \<Rightarrow> int option) \<Rightarrow> nat \<Rightarrow> probe_result \<times> bool \<Rightarrow> probe_result \<times> bool" where
  "poll_one P f i rp =
     (case (rp, f i) of
        ((r, True), Some err) \<Rightarrow> finish P i (err = 0) (if err = 0 then ''connected'' else p_strerror P err) r
      | _ \<Rightarrow> rp)"

fun each :: "(nat \<Rightarrow> 'a \<Rightarrow> 'b) \<Rightarrow> nat \<Rightarrow> 'a list \<Rightarrow> 'b list" where
  "each f i [] = []"
| "each f i (x # xs) = f i x # each f (Suc i) xs"

partial_function (option) poll_loop :: "prober \<Rightarrow> nat \<Rightarrow> (probe_result \<times> bool) list \<Rightarrow> (probe_result \<times> bool) list option" where
  [code]: "poll_loop P n rs =
     (if list_all (\<lambda>(r, p). \<not> p) rs then Some rs
      else if p_left P n \<le> 0 then Some rs
      else case p_poll P n of
        PollError err \<Rightarrow> if err \<noteq> EINTR then Some rs else poll_loop P (Suc n) rs
      | Ready f \<Rightarrow> poll_loop P (Suc n) (each (poll_one P f) 0 rs))"

definition time_out :: "prober \<Rightarrow> u32 \<Rightarrow> nat \<Rightarrow> probe_result \<times> bool \<Rightarrow> probe_result" where
  "time_out P timeout i rp =
     (case rp of (r, p) \<Rightarrow>
        if p then fst (finish P i False (''timeout after '' @ to_string (unat timeout) @ '' ms'') r) else r)"

definition probe_all :: "prober \<Rightarrow> health_target list \<Rightarrow> u32 \<Rightarrow> probe_result list option" where
  "probe_all P targets timeout =
     map_option (each (time_out P timeout) 0) (poll_loop P 0 (dial_loop P 0 targets))"

definition pause_ms :: "int \<Rightarrow> u32 \<Rightarrow> int" where
  "pause_ms spent interval = (if spent < uint interval then uint interval - spent else 0)"

definition health_step :: "prober \<Rightarrow> env \<Rightarrow> int d_act" where
  "health_step P E =
     bindM (gets d_health) (\<lambda>p.
     bindM (gets (\<lambda>d. health_targets (d_state d))) (\<lambda>targets.
     bindM (deref (probe_all P targets (hc_timeout_ms p))) (\<lambda>results.
     seqM (forM (zip targets results) (\<lambda>(t, r). on_lb (report_health E t r (hc_rise p) (hc_fall p))))
          (ret (pause_ms (p_spent P) (hc_interval_ms p))))))"

definition set_params :: "health_config \<Rightarrow> daemon \<Rightarrow> daemon" where
  "set_params h d = d\<lparr>d_health := h\<rparr>"

section \<open>One round\<close>

lemma forM_on_lb: "forM xs (\<lambda>(t, r). on_lb (g t r)) = on_lb (forM xs (\<lambda>(t, r). g t r))"
proof (induction xs)
  case Nil
  show ?case by (simp add: fun_eq_iff on_lb_def ret_def)
next
  case (Cons x xs)
  then show ?case
    by (cases x) (simp add: fun_eq_iff on_lb_def seqM_def bindM_def split: prod.split outcome.split)
qed

lemma length_each [simp]: "length (each f i xs) = length xs"
  by (induction f i xs rule: each.induct) simp_all

lemma nth_each [simp]: "k < length xs \<Longrightarrow> each f i xs ! k = f (i + k) (xs ! k)"
  by (induction f i xs arbitrary: k rule: each.induct) (auto simp: nth_Cons split: nat.split)

lemma length_dial_loop [simp]: "length (dial_loop P i ts) = length ts"
  by (induction P i ts rule: dial_loop.induct) simp_all

lemma nth_dial_loop [simp]: "k < length ts \<Longrightarrow> dial_loop P i ts ! k = dial_one P (i + k) (ts ! k)"
  by (induction P i ts arbitrary: k rule: dial_loop.induct) (auto simp: nth_Cons split: nat.split)

text \<open>The loop is still polling at its \<open>n\<close>-th round, and the socket \<open>i\<close> gets its answer there.\<close>

definition polling :: "prober \<Rightarrow> nat \<Rightarrow> bool" where
  "polling P n \<longleftrightarrow> 0 < p_left P n \<and> (\<forall>err. p_poll P n = PollError err \<longrightarrow> err = EINTR)"

definition ready :: "prober \<Rightarrow> nat \<Rightarrow> nat \<Rightarrow> int option" where
  "ready P n i = (case p_poll P n of Ready f \<Rightarrow> f i | PollError _ \<Rightarrow> None)"

fun answer :: "prober \<Rightarrow> nat \<Rightarrow> nat \<Rightarrow> nat \<Rightarrow> int option" where
  "answer P i n 0 = None"
| "answer P i n (Suc k) =
     (if \<not> polling P n then None else case ready P n i of Some err \<Rightarrow> Some err | None \<Rightarrow> answer P i (Suc n) k)"

definition settled :: "prober \<Rightarrow> nat \<Rightarrow> int option \<Rightarrow> probe_result \<times> bool \<Rightarrow> probe_result \<times> bool" where
  "settled P i a rp = poll_one P (\<lambda>_. a) i rp"

lemma settled_simps [simp]:
  "settled P i None rp = rp" "settled P i a (r, False) = (r, False)"
  by (cases rp; simp add: settled_def poll_one_def split: bool.split)+

lemma poll_one_settled: "poll_one P f i rp = settled P i (f i) rp"
  by (simp add: settled_def poll_one_def)

lemma settled_again: "settled P i b (settled P i a rp) = settled P i (case a of Some err \<Rightarrow> Some err | None \<Rightarrow> b) rp"
  by (cases rp; cases "snd rp"; cases a) (simp_all add: settled_def poll_one_def finish_def)

lemma poll_loop_settles:
  assumes "p_left P (n + k) \<le> 0"
  shows "\<exists>rs'. poll_loop P n rs = Some rs' \<and> length rs' = length rs \<and>
    (\<forall>j < length rs. rs' ! j = settled P j (answer P j n k) (rs ! j))"
  using assms
proof (induction k arbitrary: n rs)
  case 0
  then show ?case by (subst poll_loop.simps) simp
next
  case (Suc k)
  have left: "p_left P (Suc n + k) \<le> 0" using Suc.prems by simp
  show ?case
  proof (cases "list_all (\<lambda>(r, p). \<not> p) rs \<or> \<not> polling P n")
    case True
    have "settled P j (answer P j n (Suc k)) (rs ! j) = rs ! j" if "j < length rs" for j
      using True that by (cases "rs ! j") (auto simp: list_all_length)
    moreover have "poll_loop P n rs = Some rs"
      using True by (subst poll_loop.simps) (auto simp: polling_def split: poll.split)
    ultimately show ?thesis by (intro exI [of _ rs]) simp
  next
    case False
    show ?thesis
    proof (cases "p_poll P n")
      case (PollError err)
      then have "poll_loop P n rs = poll_loop P (Suc n) rs"
        using False by (subst poll_loop.simps) (auto simp: polling_def)
      moreover have "answer P j n (Suc k) = answer P j (Suc n) k" for j using False PollError by (simp add: ready_def)
      ultimately show ?thesis using Suc.IH [OF left, of rs] by simp
    next
      case (Ready f)
      let ?rs = "each (poll_one P f) 0 rs"
      have "poll_loop P n rs = poll_loop P (Suc n) ?rs"
        using False Ready by (subst poll_loop.simps) (auto simp: polling_def)
      moreover have "settled P j (answer P j n (Suc k)) (rs ! j) = settled P j (answer P j (Suc n) k) (?rs ! j)"
        if "j < length rs" for j
        using False Ready that by (simp add: ready_def poll_one_settled settled_again)
      ultimately show ?thesis using Suc.IH [OF left, of ?rs] by simp
    qed
  qed
qed

lemma probe_all_settles:
  assumes "p_left P N \<le> 0"
  obtains rs where "probe_all P ts timeout = Some rs" "length rs = length ts"
    "\<And>j. j < length ts \<Longrightarrow> pr_ok (rs ! j) \<longleftrightarrow>
       p_dial P j (ts ! j) = Connected \<or> p_dial P j (ts ! j) = InProgress \<and> answer P j 0 N = Some 0"
    "\<And>j. j < length ts \<Longrightarrow> pr_local_error (rs ! j) \<longleftrightarrow>
       (\<exists>err. is_local err \<and> (p_dial P j (ts ! j) = NoSocket err \<or> p_dial P j (ts ! j) = NotConnected err))"
proof -
  obtain rs where rs: "poll_loop P 0 (dial_loop P 0 ts) = Some rs" "length rs = length ts"
    "\<forall>j < length ts. rs ! j = settled P j (answer P j 0 N) (dial_one P j (ts ! j))"
    using poll_loop_settles [of P 0 N "dial_loop P 0 ts"] assms by auto
  let ?rs = "each (time_out P timeout) 0 rs"
  have "pr_ok (?rs ! j) \<longleftrightarrow> p_dial P j (ts ! j) = Connected \<or> p_dial P j (ts ! j) = InProgress \<and> answer P j 0 N = Some 0"
    "pr_local_error (?rs ! j) \<longleftrightarrow>
       (\<exists>err. is_local err \<and> (p_dial P j (ts ! j) = NoSocket err \<or> p_dial P j (ts ! j) = NotConnected err))"
    if "j < length ts" for j
    using rs(2,3) that
    by (simp_all add: dial_one_def finish_def time_out_def settled_def poll_one_def no_result_def
        split: dial.split option.split)
  then show ?thesis by (intro that [of ?rs]) (simp_all add: probe_all_def rs)
qed

section \<open>Hysteresis\<close>

text \<open>
  What the counters stand for: a member is down when somewhere in its history \<open>fall\<close> checks in a row failed, and
  since then no \<open>rise\<close> in a row succeeded.
\<close>

definition down_after :: "nat \<Rightarrow> nat \<Rightarrow> bool list \<Rightarrow> bool" where
  "down_after rise fall h \<longleftrightarrow> (\<exists>pre post. h = pre @ replicate fall False @ post \<and> \<not> sublist (replicate rise True) post)"

fun trail :: "bool \<Rightarrow> bool list \<Rightarrow> nat" where
  "trail b h = length (takeWhile (\<lambda>x. x = b) (rev h))"

lemma trail_snoc [simp]: "trail b (h @ [x]) = (if x = b then Suc (trail b h) else 0)" "trail b [] = 0"
  by simp_all

declare trail.simps [simp del]

lemma trail_suffix: "n \<le> trail b h \<longleftrightarrow> suffix (replicate n b) h"
proof (induction h arbitrary: n rule: rev_induct)
  case Nil
  then show ?case by (cases n) simp_all
next
  case (snoc x h)
  show ?case
  proof (cases n)
    case (Suc m)
    have "suffix (replicate n b) (h @ [x]) \<longleftrightarrow> x = b \<and> suffix (replicate m b) h"
      using snoc_suffix_snoc [of "replicate m b" b h x] by (simp add: Suc replicate_append_same eq_commute)
    then show ?thesis using snoc.IH [of m] Suc by simp
  qed simp
qed

lemma down_after_Nil: "0 < fall \<Longrightarrow> \<not> down_after rise fall []"
  by (auto simp: down_after_def)

lemma down_after_snoc:
  assumes "0 < rise" "0 < fall"
  shows "down_after rise fall (h @ [x]) \<longleftrightarrow>
    (if x then down_after rise fall h \<and> trail True (h @ [True]) < rise
     else down_after rise fall h \<or> fall \<le> trail False (h @ [False]))"
proof -
  have split: "h @ [x] = pre @ replicate fall False @ post \<longleftrightarrow>
      post = [] \<and> h @ [x] = pre @ replicate fall False \<or>
      (\<exists>post'. post = post' @ [x] \<and> h = pre @ replicate fall False @ post')" for pre post
    by (cases post rule: rev_cases) auto
  have ends: "(\<exists>pre. h @ [x] = pre @ replicate fall False) \<longleftrightarrow> fall \<le> trail False (h @ [x])"
    unfolding trail_suffix suffix_def by blast
  have no_empty: "\<not> sublist (replicate rise True) []" using assms(1) by simp
  have D: "down_after rise fall (h @ [x]) \<longleftrightarrow> fall \<le> trail False (h @ [x]) \<or>
      (\<exists>pre post. h = pre @ replicate fall False @ post \<and> \<not> sublist (replicate rise True) (post @ [x]))"
    unfolding down_after_def split ends [symmetric] using no_empty by blast
  show ?thesis
  proof (cases x)
    case False
    have "sublist (replicate rise True) (post @ [x]) \<longleftrightarrow> sublist (replicate rise True) post" for post
      using assms(1) trail_suffix [of rise True "post @ [x]"] False by (simp add: sublist_snoc del: suffix_snoc)
    then show ?thesis using D False by (auto simp: down_after_def)
  next
    case True
    have "suffix (replicate rise True) (post @ [x]) \<longleftrightarrow> rise \<le> trail True (h @ [True])"
      if "h = pre @ replicate fall False @ post" for pre post
    proof -
      have "replicate fall False = replicate (fall - 1) False @ [False]" using assms(2) by (cases fall) (simp_all add: replicate_append_same)
      then have "rev (h @ [x]) = rev (post @ [x]) @ False # rev (pre @ replicate (fall - 1) False)" using that by simp
      then have "trail True (h @ [x]) = trail True (post @ [x])" by (simp only: trail.simps takeWhile_tail not_False_eq_True simp_thms)
      then show ?thesis using trail_suffix [of rise True "post @ [x]"] True by simp
    qed
    then have "(\<exists>pre post. h = pre @ replicate fall False @ post \<and> \<not> sublist (replicate rise True) (post @ [x])) \<longleftrightarrow>
        down_after rise fall h \<and> \<not> rise \<le> trail True (h @ [True])"
      unfolding down_after_def sublist_snoc by blast
    then show ?thesis using D True assms(2) by (simp add: not_le)
  qed
qed

definition checked :: "u32 \<Rightarrow> u32 \<Rightarrow> member \<Rightarrow> probe_result \<Rightarrow> member" where
  "checked rise fall m r = (if pr_local_error r then m else forget (fst (probe_member r rise fall 0 m)))"

lemma checked_local [simp]: "pr_local_error r \<Longrightarrow> checked rise fall m r = m"
  by (simp add: checked_def)

definition history :: "probe_result list \<Rightarrow> bool list" where
  "history rs = map pr_ok (filter (\<lambda>r. \<not> pr_local_error r) rs)"

lemma count_reaches: "t < unat n \<Longrightarrow> n \<le> of_nat t + 1 \<longleftrightarrow> unat n \<le> Suc t" for n :: u32
proof -
  assume t: "t < unat n"
  then have "unat (of_nat (Suc t) :: u32) = Suc t" using unat_bounds(3) [of n] by (intro unat_of_nat_small) simp
  then show ?thesis by (simp add: word_le_nat_alt add.commute)
qed

text \<open>The counters of a member and its state after the history \<open>h\<close>; they are 32 bits wide and wrap around.\<close>

definition tally :: "u32 \<Rightarrow> u32 \<Rightarrow> bool list \<Rightarrow> member \<Rightarrow> bool" where
  "tally rise fall h m \<longleftrightarrow>
     consecutive_ok m = of_nat (trail True h) \<and> consecutive_fail m = of_nat (trail False h) \<and>
     (m_up m \<longleftrightarrow> \<not> down_after (unat rise) (unat fall) h) \<and>
     (if m_up m then trail False h < unat fall else trail True h < unat rise)"

lemma tally_step:
  assumes pos: "0 < rise" "0 < fall" and t: "tally rise fall h m" and r: "\<not> pr_local_error r"
  shows "tally rise fall (h @ [pr_ok r]) (checked rise fall m r)"
proof -
  have pos': "0 < unat rise" "0 < unat fall" using pos by (simp_all add: unat_gt_0)
  show ?thesis
    using t r count_reaches [of "trail True h" rise] count_reaches [of "trail False h" fall] pos'
    unfolding tally_def down_after_snoc [OF pos']
    by (cases "m_up m"; cases "pr_ok r") (auto simp: checked_def probe_member_def Let_def add.commute)
qed

lemma checked_history:
  assumes pos: "0 < rise" "0 < fall" and m: "m_up m" "consecutive_ok m = 0" "consecutive_fail m = 0"
  shows "tally rise fall (history rs) (foldl (checked rise fall) m rs)"
proof (induction rs rule: rev_induct)
  case Nil
  then show ?case using m pos by (simp add: history_def tally_def down_after_Nil unat_gt_0)
next
  case (snoc r rs)
  then show ?case
    using tally_step [OF pos snoc.IH, of r] by (cases "pr_local_error r") (simp_all add: history_def)
qed

lemma incarnation_checked [simp]: "incarnation (foldl (checked rise fall) m rs) = incarnation m"
  by (induction rs rule: rev_induct) (auto simp: checked_def probe_member_def Let_def)

section \<open>Reports to LbState\<close>

lemma wp_reports:
  assumes "env_ok E" "lb_inv c s"
  shows "wp (forM trs (\<lambda>(t, r). report_health E t r rise fall))
    (\<lambda>_ s'. lb_inv c s' \<and> model_of s' = foldl (\<lambda>M (t, r). probed t r rise fall M) (model_of s) trs)
    (\<lambda>e s'. is_runtime_error e \<and> safe c s' \<and> \<not> inserts_ok E) s"
proof -
  have "list_all (\<lambda>_. True) trs" by (simp add: list_all_iff)
  from wp_mono [OF health_reports.series [OF conjI [OF assms] this, of rise fall]] show ?thesis
    by (auto simp: failed_def case_prod_beta')
qed

lemma probed_checked:
  assumes "M (ht_vip t) = Some (fl, ms)" "ms (ht_addr t) = Some m" "incarnation m = ht_incarnation t"
  shows "\<exists>ms'. probed t r rise fall M (ht_vip t) = Some (fl, ms') \<and> ms' (ht_addr t) = Some (checked rise fall m r)"
  using assms by (simp add: probed_def checked_def)

lemma foldl_probed:
  assumes "M (ht_vip t) = Some (fl, ms)" "ms (ht_addr t) = Some m" "incarnation m = ht_incarnation t"
  shows "\<exists>ms'. foldl (\<lambda>M r. probed t r rise fall M) M rs (ht_vip t) = Some (fl, ms') \<and>
    ms' (ht_addr t) = Some (foldl (checked rise fall) m rs)"
proof (induction rs rule: rev_induct)
  case Nil
  then show ?case using assms by simp
next
  case (snoc r rs)
  then obtain ms' where "foldl (\<lambda>M r. probed t r rise fall M) M rs (ht_vip t) = Some (fl, ms')"
    "ms' (ht_addr t) = Some (foldl (checked rise fall) m rs)" by blast
  from probed_checked [where M = "foldl (\<lambda>M r. probed t r rise fall M) M rs", OF this, of r rise fall]
  show ?case using assms(3) by simp
qed

section \<open>Claims\<close>

text \<open>
  C13.  Health checks have the hysteresis they promise.  Take a member as it is when it is added, and any sequence of probe
  results reported for it.  Leaving out the probes that failed for a reason local to the load balancer, it is down afterwards
  exactly if some \<open>fall\<close> probes in a row failed and after them no \<open>rise\<close> probes in a row succeeded.  This holds for every
  number of probes, although the counters are 32 bits wide and wrap around.  The other services are as before.
\<close>

theorem health_hysteresis:
  assumes E: "env_ok E" "keys_law E" and s: "reachable E s" "lb_initialized s" and pos: "0 < rise" "0 < fall"
    and m: "model_of s (ht_vip t) = Some (fl, ms)" "ms (ht_addr t) = Some m" "incarnation m = ht_incarnation t"
      "m_up m" "consecutive_ok m = 0" "consecutive_fail m = 0"
    and run: "forM rs (\<lambda>r. report_health E t r rise fall) s = (Ret u, s')"
  shows "\<exists>ms' m'. model_of s' (ht_vip t) = Some (fl, ms') \<and> ms' (ht_addr t) = Some m' \<and>
    (\<not> m_up m' \<longleftrightarrow>
       (\<exists>pre post. map pr_ok (filter (\<lambda>r. \<not> pr_local_error r) rs) = pre @ replicate (unat fall) False @ post \<and>
          \<not> sublist (replicate (unat rise) True) post)) \<and>
    (\<forall>sp. sp \<noteq> ht_vip t \<longrightarrow> model_of s' sp = model_of s sp)"
proof -
  have inv: "lb_inv (here {} (kmaps s)) s" by (rule sys_inv_up [OF reachable_inv [OF E s(1)] s(2)])
  have "forM rs (\<lambda>r. report_health E t r rise fall) = forM (map (Pair t) rs) (\<lambda>(t, r). report_health E t r rise fall)" for rs
    by (induction rs) simp_all
  then have M: "model_of s' = foldl (\<lambda>M r. probed t r rise fall M) (model_of s) rs"
    using wp_run [OF wp_reports [OF E(1) inv, of "map (Pair t) rs" rise fall]] run by (fastforce simp: foldl_map)
  moreover have "foldl (\<lambda>M r. probed t r rise fall M) M rs sp = M sp" if "sp \<noteq> ht_vip t" for M sp
    using that by (induction rs arbitrary: M) (auto simp: probed_def split: option.split)
  ultimately show ?thesis
    using foldl_probed [where M = "model_of s", OF m(1-3), of rise fall rs] checked_history [OF pos m(4-6), of rs]
    by (auto simp: tally_def down_after_def history_def)
qed

theorem health_hysteresis_witness:
  "\<exists>s s' t ms' m'. reachable demo_env s \<and> ht_vip t = demo_sp \<and> ht_addr t = demo_real \<and>
     forM [no_result, no_result] (\<lambda>r. report_health demo_env t r 1 2) s = (Ret (), s') \<and>
     model_of s' demo_sp = Some (vip_flag_bits False, ms') \<and> ms' demo_real = Some m' \<and> \<not> m_up m'"
proof -
  obtain s m where s: "reachable demo_env s" "lb_initialized s" "new_member 1 m"
    "model_of s = [demo_sp \<mapsto> (vip_flag_bits False, [demo_real \<mapsto> m])]" using demo_fresh by blast
  let ?t = "\<lparr>ht_vip = demo_sp, ht_addr = demo_real, ht_incarnation = incarnation m\<rparr>"
  let ?run = "forM [no_result, no_result] (\<lambda>r. report_health demo_env ?t r 1 2) s"
  have inv: "lb_inv (here {} (kmaps s)) s" by (rule sys_inv_up [OF reachable_inv [OF demo_env_ok(1) demo_keys_law s(1)] s(2)])
  obtain r s' where run: "?run = (r, s')" by (cases ?run)
  have "\<exists>u. r = Ret u"
    using wp_run [OF wp_reports [OF demo_env_ok(1) inv, of "[(?t, no_result), (?t, no_result)]" 1 2], of r s'] run demo_env_ok(2)
    by (auto split: outcome.splits)
  then obtain u where u: "r = Ret u" by blast
  have two: "replicate (unat (2 :: u32)) False = [False, False]" by code_simp
  have "\<exists>pre post. map pr_ok (filter (\<lambda>r. \<not> pr_local_error r) [no_result, no_result]) = pre @ replicate (unat (2 :: u32)) False @ post \<and>
      \<not> sublist (replicate (unat (1 :: u32)) True) post"
    unfolding two by (intro exI [of _ "[]"]) (simp add: no_result_def)
  moreover have "forM [no_result, no_result] (\<lambda>r. report_health demo_env ?t r 1 2) s = (Ret u, s')" using run u by simp
  ultimately have "\<exists>ms' m'. model_of s' demo_sp = Some (vip_flag_bits False, ms') \<and> ms' demo_real = Some m' \<and> \<not> m_up m'"
    using health_hysteresis [OF demo_env_ok(1) demo_keys_law s(1,2), of 1 2 ?t "vip_flag_bits False" "[demo_real \<mapsto> m]" m
        "[no_result, no_result]" u s'] s(3,4)
    by (auto simp: new_member_def simp del: forM.simps)
  then show ?thesis using s(1) run u by (intro exI [of _ s] exI [of _ s'] exI [of _ ?t]) simp
qed

text \<open>
  C14.  A round of health checks comes to an end and reports the truth.  If the clock reaches the deadline, the round gives one
  result for each target: a success exactly if \<^verbatim>\<open>connect\<close> succeeded at once, or was in progress and the first \<^verbatim>\<open>poll\<close> before the
  deadline that reported the socket found no error on it; a local error exactly if \<^verbatim>\<open>socket\<close> or \<^verbatim>\<open>connect\<close> failed for one of
  the reasons that lie with the load balancer.  Each result is applied to its member once, the pause is at most the
  interval, and during the whole round the maps are safe; the step can only throw if the kernel refuses an insertion.
\<close>

theorem health_round:
  assumes E: "env_ok E" "keys_law E" and d: "in_service E d" and P: "p_left P N \<le> 0" "0 \<le> p_spent P"
    and run: "health_step P E (begin_request d) = (r, d')"
  shows "\<exists>rs. probe_all P (health_targets (d_state d)) (hc_timeout_ms (d_health d)) = Some rs \<and>
    length rs = length (health_targets (d_state d)) \<and>
    (\<forall>j < length rs. let c = p_dial P j (health_targets (d_state d) ! j) in
       (pr_ok (rs ! j) \<longleftrightarrow> c = Connected \<or> c = InProgress \<and> answer P j 0 N = Some 0) \<and>
       (pr_local_error (rs ! j) \<longleftrightarrow> (\<exists>err. is_local err \<and> (c = NoSocket err \<or> c = NotConnected err)))) \<and>
    maps_kept d d' \<and>
    (case r of
       Ret pause \<Rightarrow> 0 \<le> pause \<and> pause \<le> uint (hc_interval_ms (d_health d)) \<and>
         model_of (d_state d') = foldl (\<lambda>M (t, r). probed t r (hc_rise (d_health d)) (hc_fall (d_health d)) M)
           (model_of (d_state d)) (zip (health_targets (d_state d)) rs)
     | Throw e \<Rightarrow> is_runtime_error e \<and> \<not> inserts_ok E
     | Wrong \<Rightarrow> False)"
proof -
  let ?ts = "health_targets (d_state d)" and ?h = "d_health d" and ?s = "quiet_trace (d_state d)" and ?c = "here {} (kmaps (d_state d))"
  note inv = in_service_inv [OF E d]
  have same: "health_targets ?s = ?ts" "model_of ?s = model_of (d_state d)"
    by (simp_all add: health_targets_def model_of_def quiet_trace_def)
  obtain rs where rs: "probe_all P ?ts (hc_timeout_ms ?h) = Some rs" "length rs = length ?ts"
    "\<And>j. j < length ?ts \<Longrightarrow> pr_ok (rs ! j) \<longleftrightarrow>
       p_dial P j (?ts ! j) = Connected \<or> p_dial P j (?ts ! j) = InProgress \<and> answer P j 0 N = Some 0"
    "\<And>j. j < length ?ts \<Longrightarrow> pr_local_error (rs ! j) \<longleftrightarrow>
       (\<exists>err. is_local err \<and> (p_dial P j (?ts ! j) = NoSocket err \<or> p_dial P j (?ts ! j) = NotConnected err))"
    by (rule probe_all_settles [OF P(1), of ?ts "hc_timeout_ms ?h"]) blast
  let ?reports = "forM (zip ?ts rs) (\<lambda>(t, r). report_health E t r (hc_rise ?h) (hc_fall ?h))"
  have "wp ?reports (\<lambda>_ s. lb_inv ?c s \<and> model_of s =
        foldl (\<lambda>M (t, r). probed t r (hc_rise ?h) (hc_fall ?h) M) (model_of (d_state d)) (zip ?ts rs))
      (\<lambda>e s. is_runtime_error e \<and> safe ?c s \<and> \<not> inserts_ok E) ?s"
    using wp_reports [OF E(1) inv(1), of "zip ?ts rs" "hc_rise ?h" "hc_fall ?h"] same(2) by simp
  then have "wp (health_step P E)
      (\<lambda>pause d'. (lb_inv ?c (d_state d') \<and> model_of (d_state d') =
        foldl (\<lambda>M (t, r). probed t r (hc_rise ?h) (hc_fall ?h) M) (model_of (d_state d)) (zip ?ts rs)) \<and>
        pause = pause_ms (p_spent P) (hc_interval_ms ?h))
      (\<lambda>e d'. is_runtime_error e \<and> safe ?c (d_state d') \<and> \<not> inserts_ok E) (begin_request d)"
    by (simp add: health_step_def wp_simps begin_request_def same(1) rs(1) forM_on_lb)
  from wp_run [OF this run] show ?thesis
    using rs P(2) safe_maps_kept [of d d'] lb_inv_safe
    by (intro exI [of _ rs]) (auto simp: Let_def pause_ms_def split: outcome.splits)
qed

text \<open>A network in which every connection is in progress at first and answers to the first \<^verbatim>\<open>poll\<close>.\<close>

definition demo_prober :: prober where
  "demo_prober = \<lparr>p_dial = (\<lambda>_ _. InProgress), p_left = (\<lambda>n. 500 - int n), p_poll = (\<lambda>_. Ready (\<lambda>_. Some 0)), p_rtt = (\<lambda>_. 150),
     p_strerror = (\<lambda>_. []), p_spent = 1\<rparr>"

theorem health_round_witness:
  "\<exists>d pause d'. dom (model_of (d_state d)) = {demo_sp} \<and> health_step demo_prober demo_env (begin_request d) = (Ret pause, d') \<and>
     0 \<le> pause \<and> maps_kept d d'"
proof -
  obtain d where d: "in_service demo_env d" "dom (model_of (d_state d)) = {demo_sp}" using demo_in_service by blast
  obtain r d' where run: "health_step demo_prober demo_env (begin_request d) = (r, d')"
    by (cases "health_step demo_prober demo_env (begin_request d)")
  have "p_left demo_prober 500 \<le> 0" "0 \<le> p_spent demo_prober" by (simp_all add: demo_prober_def)
  from health_round [OF demo_env_ok(1) demo_keys_law d(1) this run] have "\<exists>pause. r = Ret pause \<and> 0 \<le> pause \<and> maps_kept d d'"
    using demo_env_ok(2) by (cases r) auto
  then show ?thesis using d(2) run by blast
qed

end
