(* ===== verification/Neighbor_Resolver.thy ===== *)
theory Neighbor_Resolver
  imports Daemon_Claims Lb_Reports
begin

text \<open>
  \<^verbatim>\<open>src/daemon/neighbor_resolver.cpp\<close>: reading the kernel's ARP table, and one round of the resolver.

  The text of \<^verbatim>\<open>/proc/net/arp\<close>, the clock and the C library's \<^verbatim>\<open>inet_pton\<close> are arguments.  The datagrams \<^verbatim>\<open>probe\<close> sends, whose
  only purpose is that the kernel asks for the address, are not modelled: their effect is the text of the table.  Logging is
  left out.
\<close>

section \<open>The code\<close>

text \<open>\<^verbatim>\<open>std::getline\<close> until it fails, \<^verbatim>\<open>operator>>\<close> into strings, and \<^verbatim>\<open>std::stoul\<close> in base 16.\<close>

fun get_lines :: "string \<Rightarrow> string list" where
  "get_lines [] = []"
| "get_lines (c # cs) =
     (if c = CHR 10 then [] # get_lines cs
      else case get_lines cs of [] \<Rightarrow> [[c]] | l # ls \<Rightarrow> (c # l) # ls)"

function get_words :: "string \<Rightarrow> string list" where
  "get_words s =
     (let s = dropWhile isspace s
      in if s = [] then [] else takeWhile (\<lambda>c. \<not> isspace c) s # get_words (dropWhile (\<lambda>c. \<not> isspace c) s))"
  by pat_completeness auto
termination
proof (relation "measure length")
  fix s x :: string
  assume x: "x = dropWhile isspace s" "x \<noteq> []"
  then have "\<not> isspace (hd x)" using hd_dropWhile by blast
  then have "dropWhile (\<lambda>c. \<not> isspace c) x = dropWhile (\<lambda>c. \<not> isspace c) (tl x)" using x(2) by (cases x) simp_all
  then have "length (dropWhile (\<lambda>c. \<not> isspace c) x) \<le> length (tl x)" by (metis length_dropWhile_le)
  also have "\<dots> < length x" using x(2) by simp
  also have "\<dots> \<le> length s" unfolding x(1) by (rule length_dropWhile_le)
  finally show "(dropWhile (\<lambda>c. \<not> isspace c) x, s) \<in> measure length" by simp
qed simp

declare get_words.simps [simp del]

definition stoul16 :: "string \<Rightarrow> u64 result" where
  "stoul16 s =
     (let (neg, r) = strip_sign (dropWhile isspace s); digits = takeWhile isxdigit (strip_0x r); v = hex_val digits
      in if digits = [] then Inl (InvalidArgument ''stoul'')
         else if v \<ge> 2 ^ 64 then Inl (LogicError ''stoul'')
         else Inr (if neg then - of_nat v else of_nat v))"

definition arp_line :: "(string \<Rightarrow> u32 option) \<Rightarrow> string \<Rightarrow> string \<Rightarrow> (u32, mac_addr) smap \<Rightarrow> (u32, mac_addr) smap result" where
  "arp_line pton ifname line out =
     (case get_words line of
        ip # hwtype # fl # hw # netmask # device # _ \<Rightarrow>
          (if device \<noteq> ifname then Inr out
           else bind_result (stoul16 fl) (\<lambda>f.
             if f AND 2 = 0 then Inr out
             else case (pton ip, Mac_parse hw) of
               (Some a, Some m) \<Rightarrow> Inr (if Mac_is_zero m then out else smap_insert a m out)
             | _ \<Rightarrow> Inr out))
      | _ \<Rightarrow> Inr out)"

fun arp_loop ::
  "(string \<Rightarrow> u32 option) \<Rightarrow> string \<Rightarrow> string list \<Rightarrow> (u32, mac_addr) smap \<Rightarrow> (u32, mac_addr) smap result" where
  "arp_loop pton ifname [] out = Inr out"
| "arp_loop pton ifname (l # ls) out = bind_result (arp_line pton ifname l out) (arp_loop pton ifname ls)"

definition read_arp_table :: "(string \<Rightarrow> u32 option) \<Rightarrow> string \<Rightarrow> string \<Rightarrow> (u32, mac_addr) smap result" where
  "read_arp_table pton arp ifname = arp_loop pton ifname (tl (get_lines arp)) smap_empty"

record resolver =
  nr_failures :: "(u32, u32) smap"
  nr_last_full_refresh :: int

fun resolve_loop :: "env \<Rightarrow> (u32, mac_addr) smap \<Rightarrow> u32 list \<Rightarrow> (u32, u32) smap \<Rightarrow> (u32, u32) smap lb_act" where
  "resolve_loop E table [] failures = ret failures"
| "resolve_loop E table (ip # ips) failures =
     (case smap_find table ip of
        Some m \<Rightarrow> seqM (neighbor_resolved E ip m) (resolve_loop E table ips (smap_erase ip failures))
      | None \<Rightarrow> resolve_loop E table ips
          (smap_insert ip ((case smap_find failures ip of Some n \<Rightarrow> n | None \<Rightarrow> 0) + 1) failures))"

text \<open>One round at the time \<open>now\<close> (in nanoseconds), with the table as it is after the datagrams.\<close>

definition resolver_step :: "env \<Rightarrow> (u32, mac_addr) smap result \<Rightarrow> int \<Rightarrow> resolver \<Rightarrow> resolver lb_act" where
  "resolver_step E arp now N =
     (let full = now - nr_last_full_refresh N \<ge> 30 * 10 ^ 9 in
      bindM (gets (\<lambda>s. if full then neighbor_targets s else unresolved_neighbors s)) (\<lambda>targets.
      if targets = [] then ret N
      else
        let N = (if full then N\<lparr>nr_last_full_refresh := now\<rparr> else N) in
        bindM (lift_result arp) (\<lambda>table.
        bindM (resolve_loop E table targets (nr_failures N)) (\<lambda>failures. ret (N\<lparr>nr_failures := failures\<rparr>)))))"

text \<open>The lookup the daemon gives to \<^verbatim>\<open>LbState\<close>.\<close>

definition arp_lookup :: "(u32, mac_addr) smap result \<Rightarrow> u32 \<Rightarrow> mac_addr option result" where
  "arp_lookup arp ip = bind_result arp (\<lambda>table. Inr (smap_find table ip))"

section \<open>What the table holds\<close>

text \<open>A complete entry of the interface with a MAC that is not zero.\<close>

definition arp_entry :: "(string \<Rightarrow> u32 option) \<Rightarrow> string \<Rightarrow> string \<Rightarrow> (u32 \<times> mac_addr) option" where
  "arp_entry pton ifname line =
     (case get_words line of
        ip # hwtype # fl # hw # netmask # device # _ \<Rightarrow>
          (case (stoul16 fl, pton ip, Mac_parse hw) of
             (Inr f, Some a, Some m) \<Rightarrow> if device = ifname \<and> f AND 2 \<noteq> 0 \<and> m \<noteq> zero_mac then Some (a, m) else None
           | _ \<Rightarrow> None)
      | _ \<Rightarrow> None)"

definition bad_flags :: "string \<Rightarrow> string \<Rightarrow> bool" where
  "bad_flags ifname line \<longleftrightarrow>
     (\<exists>ip hwtype fl hw netmask r e. get_words line = ip # hwtype # fl # hw # netmask # ifname # r \<and> stoul16 fl = Inl e)"

lemma words_cases:
  obtains ip hwtype fl hw netmask device r where "ws = ip # hwtype # fl # hw # netmask # device # r"
    | "\<And>ip hwtype fl hw netmask device r. ws \<noteq> ip # hwtype # fl # hw # netmask # device # r"
  by blast

lemma arp_line_eq:
  "\<not> bad_flags ifname line \<Longrightarrow> arp_line pton ifname line out =
     Inr (case arp_entry pton ifname line of Some (a, m) \<Rightarrow> smap_insert a m out | None \<Rightarrow> out)"
  "bad_flags ifname line \<Longrightarrow> \<exists>e. arp_line pton ifname line out = Inl e"
  by (cases "get_words line" rule: words_cases;
      fastforce simp: arp_line_def arp_entry_def bad_flags_def split: list.split option.split sum.splits)+

lemma arp_loop_eq:
  "list_all (\<lambda>l. \<not> bad_flags ifname l) ls \<Longrightarrow> \<exists>table. arp_loop pton ifname ls out = Inr table \<and>
     smap_find table = smap_find out ++ map_of (rev (List.map_filter (arp_entry pton ifname) ls))"
proof (induction ls arbitrary: out)
  case Nil
  then show ?case by (simp add: map_filter_simps)
next
  case (Cons l ls)
  show ?case
  proof (cases "arp_entry pton ifname l")
    case None
    then show ?thesis using Cons.IH [of out] Cons.prems by (simp add: arp_line_eq(1) map_filter_simps)
  next
    case (Some am)
    obtain a m where am: "am = (a, m)" by (cases am)
    have up: "smap_find (smap_insert a m out) = (smap_find out)(a \<mapsto> m)" by (simp add: fun_eq_iff)
    have "list_all (\<lambda>l. \<not> bad_flags ifname l) ls" using Cons.prems by simp
    from Cons.IH [OF this, of "smap_insert a m out"] obtain table where
      "arp_loop pton ifname ls (smap_insert a m out) = Inr table"
      "smap_find table = (smap_find out)(a \<mapsto> m) ++ map_of (rev (List.map_filter (arp_entry pton ifname) ls))"
      unfolding up by blast
    then show ?thesis using Cons.prems Some am by (simp add: arp_line_eq(1) map_filter_simps)
  qed
qed

lemma arp_loop_bad: "\<not> list_all (\<lambda>l. \<not> bad_flags ifname l) ls \<Longrightarrow> \<exists>e. arp_loop pton ifname ls out = Inl e"
proof (induction ls arbitrary: out)
  case (Cons l ls)
  show ?case
  proof (cases "bad_flags ifname l")
    case True
    then show ?thesis using arp_line_eq(2) [OF True, of pton out] by auto
  next
    case False
    then show ?thesis using Cons by (simp add: arp_line_eq(1))
  qed
qed simp

lemma read_arp_table_eq:
  "case read_arp_table pton arp ifname of
     Inr table \<Rightarrow> smap_find table = map_of (rev (List.map_filter (arp_entry pton ifname) (tl (get_lines arp))))
   | Inl e \<Rightarrow> list_ex (bad_flags ifname) (tl (get_lines arp))"
proof (cases "list_all (\<lambda>l. \<not> bad_flags ifname l) (tl (get_lines arp))")
  case True
  moreover have "smap_find (smap_empty :: (u32, mac_addr) smap) = Map.empty" by (simp add: fun_eq_iff)
  ultimately show ?thesis
    using arp_loop_eq [of ifname "tl (get_lines arp)" pton smap_empty] by (auto simp: read_arp_table_def)
next
  case False
  moreover have "list_ex (bad_flags ifname) (tl (get_lines arp))"
    using False by (auto simp: list_all_iff list_ex_iff)
  ultimately show ?thesis using arp_loop_bad [OF False, of pton smap_empty] by (auto simp: read_arp_table_def)
qed

lemma arp_entry_nonzero: "arp_entry pton ifname l = Some (a, m) \<Longrightarrow> m \<noteq> zero_mac"
  by (auto simp: arp_entry_def split: list.splits sum.splits option.splits if_splits)

lemma read_arp_nonzero:
  assumes "read_arp_table pton arp ifname = Inr table" "smap_find table a = Some m"
  shows "m \<noteq> zero_mac"
proof -
  have "map_of (rev (List.map_filter (arp_entry pton ifname) (tl (get_lines arp)))) a = Some m"
    using read_arp_table_eq [where pton = pton and arp = arp and ifname = ifname] assms by simp
  then have "(a, m) \<in> set (List.map_filter (arp_entry pton ifname) (tl (get_lines arp)))" by (auto dest: map_of_SomeD)
  then show ?thesis by (auto simp: List.map_filter_def dest: arp_entry_nonzero)
qed

text \<open>So the lookup the daemon gives to \<^verbatim>\<open>LbState\<close> meets the assumption on it.\<close>

lemma arp_macs_ok: "macs_ok (E\<lparr>mac_lookup := Some (\<lambda>n ip. case arp_lookup (read_arp_table pton (arp n) ifname) ip of Inr m \<Rightarrow> m | Inl _ \<Rightarrow> None)\<rparr>)"
  by (auto simp: macs_ok_def arp_lookup_def bind_result_def split: sum.splits dest: read_arp_nonzero)

section \<open>A round\<close>

lemma wp_resolve_loop:
  assumes E: "env_ok E" and inv: "lb_inv c s" and table: "\<And>a m. smap_find table a = Some m \<Longrightarrow> m \<noteq> zero_mac"
  shows "wp (resolve_loop E table ips failures) (\<lambda>_ s'. lb_inv c s' \<and> model_of s' = model_of s)
    (\<lambda>e s'. is_runtime_error e \<and> failed E c s') s"
  using inv
proof (induction ips arbitrary: s failures)
  case Nil
  then show ?case by (simp add: wp_simps)
next
  case (Cons ip ips)
  show ?case
  proof (cases "smap_find table ip")
    case None
    then show ?thesis using Cons.IH [OF Cons.prems] by simp
  next
    case (Some m)
    then have "wp (resolve_loop E table ips (smap_erase ip failures)) (\<lambda>_ s''. lb_inv c s'' \<and> model_of s'' = model_of s)
        (\<lambda>e s'. is_runtime_error e \<and> failed E c s') s'" if "lb_up E c s'" "model_of s' = model_of s" for s'
      using Cons.IH [of s'] that by simp
    moreover have "lb_up E c s" "case (ip, m) of (ip, m) \<Rightarrow> m \<noteq> zero_mac" using table [OF Some] E Cons.prems by simp_all
    ultimately have "wp (seqM (case (ip, m) of (ip, m) \<Rightarrow> neighbor_resolved E ip m) (resolve_loop E table ips (smap_erase ip failures)))
        (\<lambda>_ s'. lb_inv c s' \<and> model_of s' = model_of s) (\<lambda>e s'. is_runtime_error e \<and> failed E c s') s"
      by (intro neighbor_reports.then_do)
    then show ?thesis by (simp add: Some)
  qed
qed

section \<open>Claims\<close>

text \<open>
  C16.  The resolver believes the kernel, and only about its own interface.  \<^verbatim>\<open>read_arp_table\<close> gives for every address the MAC of
  the last line of \<^verbatim>\<open>/proc/net/arp\<close> after the header that has six fields, the right device, the complete flag, this address and
  a MAC other than zero, and nothing else; it throws exactly if the flags of a line of that interface are no hexadecimal
  number.  A round of the resolver then changes no service and no member, keeps the maps safe after every single write, and
  throws only if the table cannot be read or the kernel refuses an insertion.
\<close>

theorem resolver_round:
  assumes E: "env_ok E" "keys_law E" and s: "reachable E s" "lb_initialized s"
    and run: "resolver_step E (read_arp_table pton arp ifname) now N (quiet_trace s) = (r, s')"
  shows "(case read_arp_table pton arp ifname of
      Inr table \<Rightarrow> smap_find table = map_of (rev (List.map_filter (arp_entry pton ifname) (tl (get_lines arp))))
    | Inl e \<Rightarrow> list_ex (bad_flags ifname) (tl (get_lines arp))) \<and>
    (\<forall>m \<in> set (kmaps s' # ktrace s'). dp_safe m \<and> conntrack m = conntrack (kmaps s)) \<and>
    (case r of
       Ret N' \<Rightarrow> model_of s' = model_of s
     | Throw e \<Rightarrow> list_ex (bad_flags ifname) (tl (get_lines arp)) \<and> s' = quiet_trace s \<or> is_runtime_error e \<and> \<not> inserts_ok E
     | Wrong \<Rightarrow> False)"
proof -
  let ?c = "here {} (kmaps s)" and ?arp = "read_arp_table pton arp ifname"
  note table = read_arp_table_eq [where pton = pton and arp = arp and ifname = ifname]
  have inv: "lb_inv ?c (quiet_trace s)" by (intro lb_inv_quiet sys_inv_up [OF reachable_inv [OF E s(1)] s(2)])
  have M: "model_of (quiet_trace s) = model_of s" by (simp add: model_of_def quiet_trace_def)
  have "wp (resolver_step E ?arp now N) (\<lambda>_ s'. safe ?c s' \<and> model_of s' = model_of s)
      (\<lambda>e s'. safe ?c s' \<and> (list_ex (bad_flags ifname) (tl (get_lines arp)) \<and> s' = quiet_trace s \<or> is_runtime_error e \<and> \<not> inserts_ok E))
      (quiet_trace s)"
  proof (cases ?arp)
    case (Inl e)
    then show ?thesis using lb_inv_safe [OF inv] M table by (simp add: resolver_step_def Let_def wp_simps)
  next
    case (Inr tab)
    have "wp (resolve_loop E tab ips failures) (\<lambda>failures. wp (ret (f failures)) (\<lambda>_ s'. safe ?c s' \<and> model_of s' = model_of s) R)
        R (quiet_trace s)"
      if "\<And>e s'. is_runtime_error e \<Longrightarrow> failed E ?c s' \<Longrightarrow> R e s'" for ips failures R and f :: "(u32, u32) smap \<Rightarrow> resolver"
      by (rule wp_mono [OF wp_resolve_loop [OF E(1) inv read_arp_nonzero [OF Inr]]])
        (use that M lb_inv_safe in \<open>auto simp: wp_simps\<close>)
    then show ?thesis
      using lb_inv_safe [OF inv] M by (simp add: resolver_step_def Let_def wp_simps Inr failed_def)
  qed
  from wp_run [OF this run] table show ?thesis
    by (auto simp: safe_def pinned_state_def kept_def split: outcome.splits)
qed

definition demo_arp :: string where
  "demo_arp = ''IP address'' @ [CHR 10] @ ''10.0.0.21 0x1 0x2 02:00:00:00:00:15 * eth0'' @ [CHR 10]"

definition demo_pton :: "string \<Rightarrow> u32 option" where
  "demo_pton s = (case parse_ipv4 s of Inr a \<Rightarrow> Some a | Inl _ \<Rightarrow> None)"

lemma demo_arp_flags: "\<not> list_ex (bad_flags ''eth0'') (tl (get_lines demo_arp))"
proof -
  have "tl (get_lines demo_arp) = [''10.0.0.21 0x1 0x2 02:00:00:00:00:15 * eth0'']" by (simp add: demo_arp_def)
  moreover have "get_words ''10.0.0.21 0x1 0x2 02:00:00:00:00:15 * eth0'' =
      [''10.0.0.21'', ''0x1'', ''0x2'', ''02:00:00:00:00:15'', ''*'', ''eth0'']" by (simp add: get_words.simps isspace_def)
  moreover have "stoul16 ''0x2'' = Inr 2"
    by (simp add: stoul16_def isspace_def strip_sign_def strip_0x_def isxdigit_def xdigit_val_def hex_val_def)
  ultimately show ?thesis by (simp add: bad_flags_def)
qed

theorem resolver_round_witness:
  "\<exists>s N' s'. reachable demo_env s \<and> dom (model_of s) = {demo_sp} \<and>
     resolver_step demo_env (read_arp_table demo_pton demo_arp ''eth0'') (10 ^ 11)
       \<lparr>nr_failures = smap_empty, nr_last_full_refresh = 0\<rparr> (quiet_trace s) = (Ret N', s') \<and> model_of s' = model_of s"
proof -
  obtain s where s: "reachable demo_env s" "lb_initialized s" "dom (model_of s) = {demo_sp}" using demo_served by blast
  let ?run = "resolver_step demo_env (read_arp_table demo_pton demo_arp ''eth0'') (10 ^ 11)
    \<lparr>nr_failures = smap_empty, nr_last_full_refresh = 0\<rparr> (quiet_trace s)"
  obtain r s' where run: "?run = (r, s')" by (cases ?run)
  have "\<exists>N'. r = Ret N' \<and> model_of s' = model_of s"
    using resolver_round [OF demo_env_ok(1) demo_keys_law s(1,2) run] demo_env_ok(2) demo_arp_flags by (cases r) auto
  then show ?thesis using s run by blast
qed

end
