(* ===== verification/Daemon_Start.thy ===== *)
theory Daemon_Start
  imports Daemon_Claims
begin

text \<open>
  The constructor of \<^verbatim>\<open>src/daemon/daemon.cpp\<close>: from the command line, a configuration file and the maps a loader opens to a
  daemon in service.  What is used of the loader (\<^verbatim>\<open>loader.cpp\<close>) is that the maps it opens are empty or were left by an
  earlier daemon, which stays true when it fails.
\<close>

section \<open>The loader\<close>

definition loader_law :: "(config_data \<Rightarrow> (maps, unit) act) \<Rightarrow> bool" where
  "loader_law loader \<longleftrightarrow> (\<forall>cfg m. pinned_state m \<longrightarrow> wp (loader cfg) (\<lambda>_. pinned_state) (\<lambda>_. pinned_state) m)"

lemma first_start_new: "pinned_state m \<Longrightarrow> first_start (new_lb m ifname)"
  by (simp add: first_start_def just_started_def fresh_table_def new_lb_def)

lemma wp_first_config:
  assumes E: "env_ok E" "keys_law E" and m: "pinned_state m" and cfg: "config_ok cfg"
  shows "wp (apply_config E cfg)
    (\<lambda>_ s. lb_initialized s \<and> reloaded cfg Map.empty (model_of s)) 
    (\<lambda>_ s. pinned_state (kmaps s) \<and> (c_vips cfg \<noteq> [] \<or> Mac_parse (if_address E ifname) = None)) (new_lb m ifname)"
proof (rule wp_startup [OF E])
  show "just_started (new_lb m ifname)" using first_start_new [OF m] by (simp add: first_start_def)
  show "safe (here {} m) (new_lb m ifname)" using m by (simp add: safe_def kept_def new_lb_def)
  show "op_keeps (here {} m) (Apply cfg)" by (simp add: op_keeps_def)
  show "lb_initialized s \<and> reloaded cfg Map.empty (model_of s)" if "lb_inv (here {} m) s" "reloaded cfg Map.empty (model_of s)" for s
    using that by (simp add: lb_inv_def)
qed (use cfg safeD(1) in \<open>auto simp: new_lb_def\<close>)

section \<open>Claims\<close>



end
