(* ===== verification/Api_Server.thy ===== *)
theory Api_Server
  imports Control_Monad
begin

text \<open>
  \<^verbatim>\<open>serve\<close> and \<^verbatim>\<open>write_all\<close> of \<^verbatim>\<open>src/daemon/api_server.cpp\<close>: the byte stream of one connection cut into request lines, each
  handed to the handler, its response written back.  What the kernel returns is an argument: the results of the
  successive \<^verbatim>\<open>recv\<close> calls as a list (\<open>Stopping\<close> is a turn of the loop that finds the stop flag set), and those of \<^verbatim>\<open>send\<close>
  as a function of the number of the call and the bytes offered.  \<open>delivers\<close> states what a connection whose peer keeps
  reading documents: \<^verbatim>\<open>send\<close> takes at least one byte, or is interrupted, and not forever.

  \<open>serve\<close> is compared with \<open>answers\<close>, the handler run on a list of lines, through the relator of \<open>outcome\<close>: same
  exceptions, same final state, and related values.
\<close>

section \<open>The code\<close>

datatype sent = Sent nat | SendIntr | SendErr

datatype turn = Stopping | Interrupted | Ended | Bytes string

definition kMaxRequestBytes :: nat where
  "kMaxRequestBytes = 2 ^ 20"

definition newline :: char where
  "newline = CHR 10"

text \<open>\<open>n\<close> numbers the calls of \<^verbatim>\<open>send\<close> on the connection, \<open>wire\<close> is what has been sent.\<close>

partial_function (option) write_all ::
  "(nat \<Rightarrow> string \<Rightarrow> sent) \<Rightarrow> string \<Rightarrow> nat \<times> string \<Rightarrow> (bool \<times> nat \<times> string) option" where
  [code]: "write_all send data out =
     (case out of (n, wire) \<Rightarrow>
        if data = [] then Some (True, n, wire)
        else case send n data of
          SendIntr \<Rightarrow> write_all send data (Suc n, wire)
        | SendErr \<Rightarrow> Some (False, Suc n, wire)
        | Sent k \<Rightarrow> if k = 0 then Some (False, Suc n, wire) else write_all send (drop k data) (Suc n, wire @ take k data))"

definition strip_cr :: "string \<Rightarrow> string" where
  "strip_cr line = (if line \<noteq> [] \<and> last line = CHR 13 then butlast line else line)"

lemma find_char_bound: "find_char c s = Some i \<Longrightarrow> i < length s"
  by (induction s arbitrary: i) (auto split: if_split_asm)

function lines_loop ::
  "(string \<Rightarrow> ('s, string) act) \<Rightarrow> (nat \<Rightarrow> string \<Rightarrow> sent) \<Rightarrow> string \<Rightarrow> nat \<times> string \<Rightarrow> ('s, bool \<times> string \<times> nat \<times> string) act" where
  "lines_loop handler send buf out =
     (case find_char newline buf of
        None \<Rightarrow> ret (True, buf, out)
      | Some nl \<Rightarrow>
          if strip_cr (take nl buf) = [] then lines_loop handler send (drop (Suc nl) buf) out
          else
            bindM (handler (strip_cr (take nl buf))) (\<lambda>resp.
            bindM (deref (write_all send (resp @ [newline]) out)) (\<lambda>(ok, out').
              if ok then lines_loop handler send (drop (Suc nl) buf) out' else ret (False, drop (Suc nl) buf, out'))))"
  by pat_completeness auto
termination
  by (relation "measure (\<lambda>(_, _, buf, _). length buf)") (auto dest: find_char_bound)

declare lines_loop.simps [simp del]

definition too_large :: string where
  "too_large = ''{\"ok\":false,\"error\":\"request too large\"}'' @ [newline]"

text \<open>The result: is the connection still open, and what has been sent.\<close>

fun serve_loop ::
  "(string \<Rightarrow> ('s, string) act) \<Rightarrow> (nat \<Rightarrow> string \<Rightarrow> sent) \<Rightarrow> turn list \<Rightarrow> string \<Rightarrow> nat \<times> string \<Rightarrow>
   ('s, bool \<times> nat \<times> string) act" where
  "serve_loop handler send [] buf out = ret (True, out)"
| "serve_loop handler send (t # ts) buf out =
     (case t of
        Stopping \<Rightarrow> ret (False, out)
      | Interrupted \<Rightarrow> serve_loop handler send ts buf out
      | Ended \<Rightarrow> ret (False, out)
      | Bytes chunk \<Rightarrow>
          if chunk = [] then ret (False, out)
          else
            bindM (lines_loop handler send (buf @ chunk) out) (\<lambda>(ok, buf', out').
              if \<not> ok then ret (False, out')
              else if length buf' > kMaxRequestBytes then
                bindM (deref (write_all send too_large out')) (\<lambda>(_, out''). ret (False, out''))
              else serve_loop handler send ts buf' out'))"

definition serve :: "(string \<Rightarrow> ('s, string) act) \<Rightarrow> (nat \<Rightarrow> string \<Rightarrow> sent) \<Rightarrow> turn list \<Rightarrow> ('s, bool \<times> nat \<times> string) act" where
  "serve handler send turns = serve_loop handler send turns [] (0, [])"

section \<open>Specification\<close>

text \<open>The complete lines of a text that starts in the middle of the line \<open>acc\<close>, and what is left.\<close>

fun frames :: "string \<Rightarrow> string \<Rightarrow> string list \<times> string" where
  "frames acc [] = ([], acc)"
| "frames acc (c # cs) =
     (if c = newline then (acc # fst (frames [] cs), snd (frames [] cs)) else frames (acc @ [c]) cs)"

definition without_cr :: "string \<Rightarrow> string" where
  "without_cr l = (case rev l of [] \<Rightarrow> [] | c # cs \<Rightarrow> if c = CHR 13 then rev cs else l)"

definition requests_in :: "string list \<Rightarrow> string list" where
  "requests_in ls = filter (\<lambda>l. l \<noteq> []) (map without_cr ls)"

definition requests :: "string \<Rightarrow> string list" where
  "requests text = requests_in (fst (frames [] text))"

fun answers :: "('q \<Rightarrow> ('s, 'r) act) \<Rightarrow> 'q list \<Rightarrow> ('s, 'r list) act" where
  "answers handler [] = ret []"
| "answers handler (l # ls) = bindM (handler l) (\<lambda>r. bindM (answers handler ls) (\<lambda>rs. ret (r # rs)))"

definition replies :: "string list \<Rightarrow> string" where
  "replies rs = concat (map (\<lambda>r. r @ [newline]) rs)"

definition delivers :: "(nat \<Rightarrow> string \<Rightarrow> sent) \<Rightarrow> bool" where
  "delivers send \<longleftrightarrow>
     (\<forall>n data. data \<noteq> [] \<longrightarrow> send n data = SendIntr \<or> (\<exists>k. send n data = Sent k \<and> 0 < k \<and> k \<le> length data)) \<and>
     (\<forall>n. \<exists>m\<ge>n. \<forall>data. send m data \<noteq> SendIntr)"

fun received :: "turn list \<Rightarrow> string" where
  "received [] = []"
| "received (Bytes chunk # ts) = chunk @ received ts"
| "received (t # ts) = received ts"

definition open_turn :: "turn \<Rightarrow> bool" where
  "open_turn t \<longleftrightarrow> (case t of Bytes chunk \<Rightarrow> chunk \<noteq> [] | Interrupted \<Rightarrow> True | _ \<Rightarrow> False)"

definition lines_fit :: "string \<Rightarrow> string \<Rightarrow> bool" where
  "lines_fit acc text \<longleftrightarrow>
     (\<forall>l \<in> set (fst (frames acc text)). length l \<le> kMaxRequestBytes) \<and> length (snd (frames acc text)) \<le> kMaxRequestBytes"

section \<open>Related runs\<close>

abbreviation related :: "('a \<Rightarrow> 'b \<Rightarrow> bool) \<Rightarrow> 'a outcome \<times> 's \<Rightarrow> 'b outcome \<times> 's \<Rightarrow> bool" where
  "related P \<equiv> rel_prod (rel_outcome P) (=)"

lemma related_ret [simp]: "related P (ret x s) (ret y s) \<longleftrightarrow> P x y"
  by (simp add: ret_def)

lemma related_refl: "(\<And>x. P x x) \<Longrightarrow> related P r r"
  by (cases r; cases "fst r") auto

lemma related_bindM:
  "related P (m s) (m' s) \<Longrightarrow> (\<And>x y s. P x y \<Longrightarrow> related Q (f x s) (g y s)) \<Longrightarrow> related Q (bindM m f s) (bindM m' g s)"
  by (cases "m s"; cases "m' s"; cases "fst (m s)"; cases "fst (m' s)") (auto simp: bindM_def)

lemma related_Ret: "related P (Ret x, s) r \<Longrightarrow> \<exists>y. r = (Ret y, s) \<and> P x y"
  by (cases r; cases "fst r") auto

lemma bindM_ret_right: "bindM m ret = m"
  by (auto simp: fun_eq_iff bindM_def ret_def split: prod.split outcome.split)

lemma bindM_assoc: "bindM (bindM m f) g = bindM m (\<lambda>x. bindM (f x) g)"
  by (auto simp: fun_eq_iff bindM_def split: prod.split outcome.split)

lemma bindM_of_ret: "bindM (ret x) f = f x"
  by (simp add: fun_eq_iff bindM_def ret_def)

lemma answers_append: "answers h (xs @ ys) = bindM (answers h xs) (\<lambda>rs. bindM (answers h ys) (\<lambda>rs'. ret (rs @ rs')))"
  by (induction xs) (simp_all add: bindM_of_ret bindM_ret_right bindM_assoc)

section \<open>Frames\<close>

lemma frames_append:
  "frames acc (xs @ ys) = (fst (frames acc xs) @ fst (frames (snd (frames acc xs)) ys), snd (frames (snd (frames acc xs)) ys))"
  by (induction acc xs rule: frames.induct) simp_all

lemma frames_no_newline: "newline \<notin> set xs \<Longrightarrow> frames acc xs = ([], acc @ xs)"
  by (induction xs arbitrary: acc) auto

lemma frames_rest: "newline \<notin> set acc \<Longrightarrow> newline \<notin> set (snd (frames acc xs))"
  by (induction acc xs rule: frames.induct) auto

lemma find_newline:
  "find_char newline s = None \<Longrightarrow> frames [] s = ([], s)"
  "find_char newline s = Some nl \<Longrightarrow>
     frames [] s = (take nl s # fst (frames [] (drop (Suc nl) s)), snd (frames [] (drop (Suc nl) s)))"
proof -
  show "frames [] s = ([], s)" if "find_char newline s = None"
  proof -
    have "newline \<notin> set s" using that by (induction s) (auto split: if_split_asm)
    then show ?thesis by (simp add: frames_no_newline)
  qed
  have "find_char newline s = Some nl \<Longrightarrow>
      frames acc s = ((acc @ take nl s) # fst (frames [] (drop (Suc nl) s)), snd (frames [] (drop (Suc nl) s)))" for acc
    by (induction s arbitrary: nl acc) (auto split: if_split_asm)
  from this [of "[]"] show "find_char newline s = Some nl \<Longrightarrow>
      frames [] s = (take nl s # fst (frames [] (drop (Suc nl) s)), snd (frames [] (drop (Suc nl) s)))" by simp
qed

lemma frames_start:
  "case frames acc s of ([], r) \<Rightarrow> \<exists>more. r = acc @ more | (l # ls, r) \<Rightarrow> \<exists>more. l = acc @ more"
  by (induction acc s rule: frames.induct) (auto split: list.splits prod.splits)

lemma lines_fit_start: "lines_fit acc s \<Longrightarrow> length acc \<le> kMaxRequestBytes"
  using frames_start [of acc s] by (cases "frames acc s"; cases "fst (frames acc s)") (auto simp: lines_fit_def)

lemma strip_cr_eq: "strip_cr l = without_cr l"
  by (cases l rule: rev_cases) (simp_all add: strip_cr_def without_cr_def)

section \<open>Writing\<close>

lemma write_all_sent:
  "data \<noteq> [] \<Longrightarrow> send n data = Sent k \<Longrightarrow> 0 < k \<Longrightarrow>
   write_all send data (n, wire) = write_all send (drop k data) (Suc n, wire @ take k data)"
  "data \<noteq> [] \<Longrightarrow> send n data = SendIntr \<Longrightarrow> write_all send data (n, wire) = write_all send data (Suc n, wire)"
  by (subst write_all.simps; simp)+

lemma write_all_delivers: "delivers send \<Longrightarrow> \<exists>n'. write_all send data (n, wire) = Some (True, n', wire @ data)"
proof (induction data arbitrary: n wire rule: length_induct)
  case (1 data)
  note send = 1(2) [unfolded delivers_def]
  show ?case
  proof (cases "data = []")
    case False
    have taken: "\<exists>n'. write_all send data (n, wire) = Some (True, n', wire @ data)"
      if "send n data = Sent k" "0 < k" "k \<le> length data" for n k
      using 1(1) [rule_format, of "drop k data" "Suc n" "wire @ take k data"] 1(2) False that by (simp add: write_all_sent)
    obtain m where m: "m \<ge> n" "\<forall>data. send m data \<noteq> SendIntr" using send by blast
    then show ?thesis
    proof (induction "m - n" arbitrary: n)
      case 0
      then have "m = n" by simp
      then show ?case using m(2) send False taken by blast
    next
      case (Suc d)
      consider "send n data = SendIntr" | k where "send n data = Sent k" "0 < k" "k \<le> length data" using send False by blast
      then show ?case
        using Suc(1) [of "Suc n"] Suc(2) m(2) False taken by cases (simp_all add: write_all_sent)
    qed
  qed (subst write_all.simps, simp)
qed

section \<open>A connection\<close>

lemma lines_loop_answers:
  assumes "delivers send"
  shows "related (\<lambda>rs (ok, buf', n', wire'). ok \<and> buf' = snd (frames [] buf) \<and> wire' = wire @ replies rs)
    (answers h (requests_in (fst (frames [] buf))) s) (lines_loop h send buf (n, wire) s)"
proof (induction "length buf" arbitrary: buf n wire s rule: less_induct)
  case less
  show ?case
  proof (cases "find_char newline buf")
    case None
    then show ?thesis by (simp add: lines_loop.simps [of h send buf] find_newline requests_in_def replies_def)
  next
    case (Some nl)
    let ?more = "drop (Suc nl) buf" and ?line = "without_cr (take nl buf)"
    have short: "length ?more < length buf" using find_char_bound [OF Some] by simp
    show ?thesis
    proof (cases "?line = []")
      case True
      then show ?thesis
        using less [OF short] by (simp add: lines_loop.simps [of h send buf] Some find_newline(2) [OF Some] requests_in_def strip_cr_eq)
    next
      case False
      have "related (\<lambda>rs (ok, buf', n', wire'). ok \<and> buf' = snd (frames [] ?more) \<and> wire' = wire @ replies rs)
          (bindM (answers h (requests_in (fst (frames [] ?more)))) (\<lambda>rs. ret (r # rs)) s)
          (bindM (deref (write_all send (r @ [newline]) (n, wire))) (\<lambda>(ok, out').
             if ok then lines_loop h send ?more out' else ret (False, ?more, out')) s)" for r s
      proof -
        obtain n' where "write_all send (r @ [newline]) (n, wire) = Some (True, n', wire @ r @ [newline])"
          using write_all_delivers [OF assms] by blast
        moreover have "related (\<lambda>rs (ok, buf', n', wire'). ok \<and> buf' = snd (frames [] ?more) \<and> wire' = wire @ replies rs)
            (bindM (answers h (requests_in (fst (frames [] ?more)))) (\<lambda>rs. ret (r # rs)) s)
            (bindM (lines_loop h send ?more (n', wire @ r @ [newline])) ret s)"
          by (rule related_bindM [OF less [OF short]]) (auto simp: replies_def)
        ultimately show ?thesis by (simp add: deref_def bindM_of_ret bindM_ret_right)
      qed
      then show ?thesis
        using False
        by (simp add: lines_loop.simps [of h send buf] Some find_newline(2) [OF Some] requests_in_def strip_cr_eq)
          (rule related_bindM [OF related_refl [where P = "(=)"]]; simp)
    qed
  qed
qed

lemma serve_loop_answers:
  assumes "delivers send" "\<forall>t \<in> set ts. open_turn t" "newline \<notin> set buf" "lines_fit buf (received ts)"
  shows "related (\<lambda>rs (ok, n', wire'). ok \<and> wire' = wire @ replies rs)
    (answers h (requests_in (fst (frames buf (received ts)))) s) (serve_loop h send ts buf (n, wire) s)"
  using assms(2-)
proof (induction ts arbitrary: buf n wire s)
  case Nil
  then show ?case by (simp add: requests_in_def replies_def)
next
  case (Cons t ts)
  show ?case
  proof (cases t)
    case (Bytes chunk)
    let ?rest = "snd (frames buf chunk)"
    have f: "frames [] (buf @ chunk) = frames buf chunk" using Cons.prems(2) by (simp add: frames_append frames_no_newline)
    have all: "frames buf (received (t # ts)) =
        (fst (frames buf chunk) @ fst (frames ?rest (received ts)), snd (frames ?rest (received ts)))"
      by (simp add: Bytes frames_append)
    have rest: "newline \<notin> set ?rest" by (rule frames_rest [OF Cons.prems(2)])
    have fit: "lines_fit ?rest (received ts)" using Cons.prems(3) by (auto simp: lines_fit_def all)
    note lines = lines_loop_answers [OF assms(1), of "buf @ chunk" wire h s n, unfolded f]
    have "related (\<lambda>rs (ok, n', wire'). ok \<and> wire' = wire @ replies rs)
        (bindM (answers h (requests_in (fst (frames buf chunk)))) (\<lambda>rs.
           bindM (answers h (requests_in (fst (frames ?rest (received ts))))) (\<lambda>rs'. ret (rs @ rs'))) s)
        (bindM (lines_loop h send (buf @ chunk) (n, wire)) (\<lambda>(ok, buf', out').
           if \<not> ok then ret (False, out')
           else if length buf' > kMaxRequestBytes then
             bindM (deref (write_all send too_large out')) (\<lambda>(_, out''). ret (False, out''))
           else serve_loop h send ts buf' out') s)"
    proof (rule related_bindM, rule lines)
      fix rs and y :: "bool \<times> string \<times> nat \<times> string" and t
      assume "case y of (ok, buf', n', wire') \<Rightarrow> ok \<and> buf' = ?rest \<and> wire' = wire @ replies rs"
      then obtain n' where y: "y = (True, ?rest, n', wire @ replies rs)" by (cases y) auto
      have "related (\<lambda>rs' (ok, n'', wire'). ok \<and> wire' = wire @ replies rs @ replies rs')
          (answers h (requests_in (fst (frames ?rest (received ts)))) t) (serve_loop h send ts ?rest (n', wire @ replies rs) t)"
        using Cons.IH [of ?rest "wire @ replies rs" t n'] Cons.prems(1) rest fit by simp
      then have "related (\<lambda>rs' (ok, n'', wire'). ok \<and> wire' = wire @ replies rs')
          (bindM (answers h (requests_in (fst (frames ?rest (received ts))))) (\<lambda>rs'. ret (rs @ rs')) t)
          (bindM (serve_loop h send ts ?rest (n', wire @ replies rs)) ret t)"
        by (rule related_bindM) (auto simp: replies_def)
      then show "related (\<lambda>rs' (ok, n'', wire'). ok \<and> wire' = wire @ replies rs')
          (bindM (answers h (requests_in (fst (frames ?rest (received ts))))) (\<lambda>rs'. ret (rs @ rs')) t)
          ((case y of (ok, buf', out') \<Rightarrow>
             if \<not> ok then ret (False, out')
             else if length buf' > kMaxRequestBytes then
               bindM (deref (write_all send too_large out')) (\<lambda>(_, out''). ret (False, out''))
             else serve_loop h send ts buf' out') t)"
        using lines_fit_start [OF fit] by (simp add: y bindM_ret_right)
    qed
    then show ?thesis
      using Cons.prems(1) unfolding all by (simp add: Bytes open_turn_def requests_in_def answers_append)
  qed (use Cons in \<open>simp_all add: open_turn_def\<close>)
qed

lemma serve_answers:
  assumes "delivers send" "\<forall>t \<in> set turns. open_turn t" "lines_fit [] (received turns)"
  shows "related (\<lambda>rs (ok, n, wire). ok \<and> wire = replies rs) (answers h (requests (received turns)) s) (serve h send turns s)"
  using serve_loop_answers [OF assms(1,2) _ assms(3), where wire = "[]"] by (simp add: requests_def serve_def)

section \<open>The interface to the handler\<close>

text \<open>
  What the server relies on: a handler that is \<open>ready\<close> returns a response, and is ready again unless the response is
  \<open>excused\<close>.  Then the lines of a connection are answered in order, up to the first excused one.
\<close>

locale line_handler =
  fixes handler :: "string \<Rightarrow> ('s, string) act"
    and ready :: "'s \<Rightarrow> bool"
    and excused :: "'s \<Rightarrow> string \<Rightarrow> bool"
  assumes responds: "ready s \<Longrightarrow> \<exists>resp s'. handler line s = (Ret resp, s') \<and> (ready s' \<or> excused s resp)"
begin

lemma session:
  "ready s \<Longrightarrow> \<exists>k rs s'. answers handler (take k ls) s = (Ret rs, s') \<and> length rs = k \<and> ready s' \<and>
     (k = length ls \<or> k < length ls \<and> (\<exists>resp s''. handler (ls ! k) s' = (Ret resp, s'') \<and> excused s' resp))"
proof (induction ls arbitrary: s)
  case Nil
  then show ?case by (intro exI [of _ 0]) (simp add: ret_def)
next
  case (Cons l ls)
  obtain r s1 where r: "handler l s = (Ret r, s1)" "ready s1 \<or> excused s r" using responds [OF Cons.prems, of l] by blast
  show ?case
  proof (cases "ready s1")
    case True
    obtain k rs s' where k: "answers handler (take k ls) s1 = (Ret rs, s')" "length rs = k" "ready s'"
      "k = length ls \<or> k < length ls \<and> (\<exists>resp s''. handler (ls ! k) s' = (Ret resp, s'') \<and> excused s' resp)"
      using Cons.IH [OF True] by blast
    show ?thesis
      using r(1) k by (intro exI [of _ "Suc k"] exI [of _ "r # rs"] exI [of _ s']) (auto simp: bindM_def ret_def)
  next
    case False
    then show ?thesis using r Cons.prems by (intro exI [of _ 0]) (auto simp: ret_def)
  qed
qed

lemma connection:
  assumes "ready s" "delivers send" "\<forall>t \<in> set turns. open_turn t" "lines_fit [] (received turns)"
  defines "ls \<equiv> requests (received turns)"
  shows "\<exists>k rs s'. answers handler (take k ls) s = (Ret rs, s') \<and> length rs = k \<and> ready s' \<and>
     (k = length ls \<and> (\<exists>n. serve handler send turns s = (Ret (True, n, replies rs), s')) \<or>
      k < length ls \<and> (\<exists>resp s''. handler (ls ! k) s' = (Ret resp, s'') \<and> excused s' resp))"
proof -
  obtain k rs s' where k: "answers handler (take k ls) s = (Ret rs, s')" "length rs = k" "ready s'"
    "k = length ls \<or> k < length ls \<and> (\<exists>resp s''. handler (ls ! k) s' = (Ret resp, s'') \<and> excused s' resp)"
    using session [OF assms(1), of ls] by blast
  have "\<exists>n. serve handler send turns s = (Ret (True, n, replies rs), s')" if "k = length ls"
    using related_Ret [of _ rs s' "serve handler send turns s"] serve_answers [OF assms(2-4), of handler s] k(1) that
    by (force simp: ls_def)
  then show ?thesis using k by blast
qed

end

end
