(* ===== verification/Daemon_Server.thy ===== *)
theory Daemon_Server
  imports Daemon_Claims Api_Server
begin

text \<open>
  The daemon behind its socket: the command handler provides the interface that \<^verbatim>\<open>ApiServer\<close> is constructed with, so
  whole connections are served.
\<close>

section \<open>The handler of the daemon\<close>

definition serve_request :: "'n yaml_api \<Rightarrow> (string \<Rightarrow> string option) \<Rightarrow> options \<Rightarrow> xdp_mode \<Rightarrow> api \<Rightarrow> string \<Rightarrow> string d_act" where
  "serve_request Y fs opts mode A line d = handle_line (daemon_api Y fs opts mode A) line (begin_request d)"

definition api_ready :: "api \<Rightarrow> daemon \<Rightarrow> bool" where
  "api_ready A d \<longleftrightarrow> env_ok (a_env A) \<and> keys_law (a_env A) \<and> (\<forall>m. rings_served (a_rings A m) m) \<and> in_service (a_env A) d"

definition api_excused :: "'n yaml_api \<Rightarrow> (string \<Rightarrow> string option) \<Rightarrow> options \<Rightarrow> api \<Rightarrow> daemon \<Rightarrow> string \<Rightarrow> bool" where
  "api_excused Y fs opts A d resp \<longleftrightarrow>
     (\<exists>w. resp = a_dump A (error_response w)) \<and>
     (\<not> inserts_ok (a_env A) \<or>
      (\<exists>cfg. load_config Y fs opts = Inr cfg \<and> 511 < card (model_addrs (model_of (d_state d)) \<union> config_addrs (c_vips cfg))))"

interpretation commands: line_handler "serve_request Y fs opts mode A" "api_ready A" "api_excused Y fs opts A"
  for Y :: "'n yaml_api" and fs opts mode A
proof unfold_locales
  fix d line
  assume "api_ready A d"
  then show "\<exists>resp d'. serve_request Y fs opts mode A line d = (Ret resp, d') \<and> (api_ready A d' \<or> api_excused Y fs opts A d resp)"
    using request_answered [of A d Y fs opts mode line] by (auto simp: api_ready_def api_excused_def serve_request_def)
qed

section \<open>Claims\<close>

definition byte_by_byte :: "nat \<Rightarrow> string \<Rightarrow> sent" where
  "byte_by_byte n data = (if even n then SendIntr else Sent 1)"

lemma byte_by_byte_delivers: "delivers byte_by_byte"
proof -
  have "\<exists>m\<ge>n. \<forall>data. byte_by_byte m data \<noteq> SendIntr" for n
    by (intro exI [of _ "Suc (2 * n)"]) (simp add: byte_by_byte_def)
  then show ?thesis by (auto simp: delivers_def byte_by_byte_def Suc_le_eq)
qed

text \<open>
  C7.  A connection is served line by line.  However the bytes of a client arrive, in whatever pieces and with whatever
  interruptions, the server hands the handler exactly the nonempty lines, in order and without their line ends, each on the
  state the one before left, and writes exactly their responses, one line each, however few bytes a \<^verbatim>\<open>send\<close> takes.  All
  lines are answered and the daemon is in service at the end; otherwise all lines up to some point are, and the next one
  gets an error because the kernel refused an insertion or a reload did not fit.  The lines are at most a mebibyte long.
\<close>

theorem connection_served:
  assumes E: "env_ok (a_env A)" "keys_law (a_env A)" "\<And>m. rings_served (a_rings A m) m" and d: "in_service (a_env A) d"
    and io: "delivers send" "\<forall>t \<in> set turns. open_turn t" "lines_fit [] (received turns)"
  shows "\<exists>k rs d1. answers (serve_request Y fs opts mode A) (take k (requests (received turns))) d = (Ret rs, d1) \<and> length rs = k \<and>
    in_service (a_env A) d1 \<and>
    (k = length (requests (received turns)) \<and>
       (\<exists>n. serve (serve_request Y fs opts mode A) send turns d = (Ret (True, n, replies rs), d1)) \<or>
     k < length (requests (received turns)) \<and>
       (\<exists>w d2. serve_request Y fs opts mode A (requests (received turns) ! k) d1 = (Ret (a_dump A (error_response w)), d2)) \<and>
       (\<not> inserts_ok (a_env A) \<or>
        (\<exists>cfg. load_config Y fs opts = Inr cfg \<and> 511 < card (model_addrs (model_of (d_state d1)) \<union> config_addrs (c_vips cfg)))))"
proof -
  have "api_ready A d" using E d by (simp add: api_ready_def)
  from commands.connection [where Y = Y and fs = fs and opts = opts and mode = mode, OF this io] show ?thesis
    unfolding api_excused_def api_ready_def by (elim ex_forward) blast
qed

theorem connection_served_witness:
  "\<exists>d rs d1 n. dom (model_of (d_state d)) = {demo_sp} \<and> length rs = 2 \<and>
     serve (serve_request (tree_yaml YNull) (\<lambda>_. None) default_options Generic demo_api) byte_by_byte
       [Bytes ''pi'', Interrupted, Bytes (''ng'' @ [CHR 10, CHR 13]), Bytes ([CHR 10] @ ''stats'' @ [CHR 13, CHR 10] @ ''con'')] d =
     (Ret (True, n, replies rs), d1) \<and> in_service demo_env d1"
proof -
  obtain d where d: "in_service demo_env d" "dom (model_of (d_state d)) = {demo_sp}" using demo_in_service by blast
  have env: "a_env demo_api = demo_env" by (simp add: demo_api_def)
  have no: "load_config (tree_yaml YNull) (\<lambda>_. None) default_options \<noteq> Inr cfg" for cfg
    by (simp add: load_config_def load_config_file_def)
  let ?turns = "[Bytes ''pi'', Interrupted, Bytes (''ng'' @ [CHR 10, CHR 13]), Bytes ([CHR 10] @ ''stats'' @ [CHR 13, CHR 10] @ ''con'')]"
  have t: "\<forall>t \<in> set ?turns. open_turn t" "lines_fit [] (received ?turns)" "requests (received ?turns) = [''ping'', ''stats'']"
    by (simp_all add: open_turn_def lines_fit_def requests_def requests_in_def without_cr_def newline_def kMaxRequestBytes_def)
  obtain rs d1 where "length rs = length (requests (received ?turns))" "in_service demo_env d1"
    "\<exists>n. serve (serve_request (tree_yaml YNull) (\<lambda>_. None) default_options Generic demo_api) byte_by_byte ?turns d = (Ret (True, n, replies rs), d1)"
    using connection_served [of demo_api d byte_by_byte ?turns "tree_yaml YNull" "\<lambda>_. None" default_options Generic, unfolded env,
        OF demo_env_ok(1) demo_keys_law demo_rings_served d(1) byte_by_byte_delivers t(1,2)] no demo_env_ok(2) by blast
  then show ?thesis using d(2) unfolding t(3) by (intro exI [of _ d] exI [of _ rs] exI [of _ d1]) simp
qed

end
