(* ===== verification/Metrics.thy ===== *)
theory Metrics
  imports Daemon_Server
begin

text \<open>
  \<^verbatim>\<open>src/daemon/metrics.cpp\<close> and \<^verbatim>\<open>serve\<close> of \<^verbatim>\<open>src/daemon/metrics_server.cpp\<close>: the counters as text, and the HTTP exchange that fetches it.

  In \<^verbatim>\<open>render_metrics\<close> every \<^verbatim>\<open>family\<close> call is followed by the \<^verbatim>\<open>sample\<close> calls of that family, so the model has a list of
  families with their samples, which \<open>exposition\<close> turns into the text.  State and maps are those of one moment.
  The results of \<^verbatim>\<open>recv\<close> and \<^verbatim>\<open>send\<close> are arguments; a \<^verbatim>\<open>recv\<close> beyond the end of the list times out.
\<close>

section \<open>The text\<close>

type_synonym samples = "(string \<times> u64) list"

definition family_head :: "string \<Rightarrow> string \<Rightarrow> string \<Rightarrow> string" where
  "family_head name kind help =
     ''# HELP '' @ name @ '' '' @ help @ [newline] @ ''# TYPE '' @ name @ '' '' @ kind @ [newline]"

definition sample :: "string \<Rightarrow> string \<Rightarrow> u64 \<Rightarrow> string" where
  "sample name labels v =
     (if labels = [] then name @ '' '' @ to_string (unat v) @ [newline]
      else name @ ''{'' @ labels @ ''} '' @ to_string (unat v) @ [newline])"

definition exposition :: "(string \<times> string \<times> string \<times> samples) list \<Rightarrow> string" where
  "exposition fs =
     concat (map (\<lambda>(name, kind, help, ss). family_head name kind help @ concat (map (\<lambda>(labels, v). sample name labels v) ss)) fs)"

definition vip_label :: "vip_view \<Rightarrow> string" where
  "vip_label v = ''vip=\"'' @ VipSpec_str (vv_spec v) @ ''\"''"

definition kPerVip :: "(string \<times> pb_counter \<times> string) list" where
  "kPerVip =
     [(''pb_packets_total'', PB_CNT_PACKETS, ''Packets that matched the VIP.''),
      (''pb_bytes_total'', PB_CNT_BYTES, ''Bytes of packets that matched the VIP, before encapsulation.''),
      (''pb_conntrack_hits_total'', PB_CNT_CT_HIT, ''Packets whose real came from the connection table.''),
      (''pb_conntrack_misses_total'', PB_CNT_CT_MISS, ''Connection table lookups that missed.''),
      (''pb_hash_total'', PB_CNT_HASH, ''Packets whose real was chosen by the ring.''),
      (''pb_syn_total'', PB_CNT_SYN, ''TCP SYNs seen.''),
      (''pb_tx_total'', PB_CNT_TX, ''Packets encapsulated and transmitted.'')]"

definition kDrops :: "(string \<times> pb_counter) list" where
  "kDrops =
     [(''frag'', PB_CNT_DROP_FRAG), (''opts'', PB_CNT_DROP_OPTS), (''no_real'', PB_CNT_DROP_NO_REAL),
      (''adj_head'', PB_CNT_DROP_ADJ_HEAD), (''mtu'', PB_CNT_DROP_MTU), (''short'', PB_CNT_DROP_SHORT),
      (''other'', PB_CNT_DROP_OTHER)]"

definition seen_reals :: "vip_view list \<Rightarrow> (u32, u32) smap" where
  "seen_reals vs = foldl (\<lambda>seen v. foldl (\<lambda>seen r. smap_insert (rv_real_id r) (rv_addr r) seen) seen (vv_reals v)) smap_empty vs"

definition real_label :: "vip_view \<Rightarrow> real_view \<Rightarrow> string" where
  "real_label v r = vip_label v @ '',real=\"'' @ ipv4_to_string (rv_addr r) @ ''\"''"

definition per_real :: "vip_view list \<Rightarrow> (real_view \<Rightarrow> u64) \<Rightarrow> samples" where
  "per_real vs f = concat (map (\<lambda>v. map (\<lambda>r. (real_label v r, f r)) (vv_reals v)) vs)"

definition metric_families :: "map_reader \<Rightarrow> walker \<Rightarrow> xdp_mode \<Rightarrow> lb \<Rightarrow> (string \<times> string \<times> string \<times> samples) list" where
  "metric_families reader W attached s =
     (let vs = snapshot s;
          per_vip = map (\<lambda>v. counters reader (kmaps s) (vv_id v)) vs;
          global = counters reader (kmaps s) PB_STATS_GLOBAL
      in
        map (\<lambda>(metric, c, help). (metric, ''counter'', help, map (\<lambda>(v, cs). (vip_label v, cs c)) (zip vs per_vip))) kPerVip @
        [(''pb_pass_total'', ''counter'', ''Packets passed to the kernel stack (not for any VIP).'', [([], global PB_CNT_PASS)]),
         (''pb_drops_total'', ''counter'', ''Packets dropped by the data plane, by reason.'',
            concat (map (\<lambda>(reason, c).
              (''vip=\"global\",reason=\"'' @ reason @ ''\"'', global c) #
              map (\<lambda>(v, cs). (vip_label v @ '',reason=\"'' @ reason @ ''\"'', cs c)) (zip vs per_vip)) kDrops)),
         (''pb_real_packets_total'', ''counter'', ''Packets sent to the real, all VIPs.'',
            map (\<lambda>(i, addr). (''real=\"'' @ ipv4_to_string addr @ ''\"'', rs_packets (real_counters reader (kmaps s) i)))
              (items (seen_reals vs))),
         (''pb_real_up'', ''gauge'', ''1 if the real passes health checks (always 1 when unchecked).'',
            per_real vs (\<lambda>r. of_bool (rv_up r))),
         (''pb_real_weight'', ''gauge'', ''Configured weight of the real (draining reals keep theirs).'',
            per_real vs (\<lambda>r. ucast (rv_weight r))),
         (''pb_ring_generation'', ''counter'', ''Number of ring swaps for the VIP since the daemon started.'',
            map (\<lambda>v. (vip_label v, vv_generation v)) vs),
         (''pb_conntrack_entries'', ''gauge'', ''Keys in the connection table (O(n) walk per scrape).'',
            [([], of_nat (conntrack_entries reader W))]),
         (''pb_xdp_mode'', ''gauge'', ''XDP attach mode in effect.'',
            [(''mode=\"'' @ xdp_mode_name attached @ ''\"'', 1)])])"

definition render_metrics :: "map_reader \<Rightarrow> walker \<Rightarrow> xdp_mode \<Rightarrow> lb \<Rightarrow> string" where
  "render_metrics reader W attached s = exposition (metric_families reader W attached s)"

section \<open>The exchange\<close>

fun contains :: "string \<Rightarrow> string \<Rightarrow> bool" where
  "contains pat [] = (pat = [])"
| "contains pat (c # cs) = (take (length pat) (c # cs) = pat \<or> contains pat cs)"

definition request_read :: "string \<Rightarrow> bool" where
  "request_read req \<longleftrightarrow> contains [CHR 13, CHR 10, CHR 13, CHR 10] req \<or> contains [CHR 10, CHR 10] req \<or> length req \<ge> 8192"

fun recv_request :: "string list \<Rightarrow> string \<Rightarrow> string" where
  "recv_request [] req = req"
| "recv_request (c # cs) req = (if request_read req \<or> c = [] then req else recv_request cs (req @ c))"

definition request_line :: "string \<Rightarrow> string" where
  "request_line req = takeWhile (\<lambda>c. c \<noteq> CHR 13 \<and> c \<noteq> CHR 10) req"

definition is_metrics :: "string \<Rightarrow> bool" where
  "is_metrics line \<longleftrightarrow>
     take 13 line = ''GET /metrics '' \<or> line = ''GET /metrics'' \<or> take 13 line = ''GET /metrics?''"

definition crlf :: string where
  "crlf = [CHR 13, CHR 10]"

definition http_response :: "string \<Rightarrow> string \<Rightarrow> string" where
  "http_response status body =
     ''HTTP/1.0 '' @ status @ crlf @ ''Content-Type: text/plain; version=0.0.4; charset=utf-8'' @ crlf @
     ''Content-Length: '' @ to_string (length body) @ crlf @ ''Connection: close'' @ crlf @ crlf @ body"

function send_response :: "(nat \<Rightarrow> string \<Rightarrow> int) \<Rightarrow> nat \<Rightarrow> string \<Rightarrow> string \<Rightarrow> string" where
  "send_response send n resp wire =
     (if resp = [] then wire
      else if send n resp \<le> 0 then wire
      else send_response send (Suc n) (drop (nat (send n resp)) resp) (wire @ take (nat (send n resp)) resp))"
  by pat_completeness auto
termination by (relation "measure (\<lambda>(_, _, resp, _). length resp)") auto

declare send_response.simps [simp del]

text \<open>The result is what the client was sent.\<close>

definition serve_scrape :: "('s, string) act \<Rightarrow> (nat \<Rightarrow> string \<Rightarrow> int) \<Rightarrow> string list \<Rightarrow> ('s, string) act" where
  "serve_scrape render send chunks s =
     (let reply = (\<lambda>status body. Ret (send_response send 0 (http_response status body) [])) in
      if is_metrics (request_line (recv_request chunks [])) then
        (case render s of
           (Ret body, s') \<Rightarrow> (reply ''200 OK'' body, s')
         | (Throw e, s') \<Rightarrow> (reply ''500 Internal Server Error'' (what e @ [newline]), s')
         | (Wrong, s') \<Rightarrow> (Wrong, s'))
      else (reply ''404 Not Found'' (''not found; try /metrics'' @ [newline]), s))"

section \<open>Printed names\<close>

text \<open>
  Values that are printed as keys of a report: what is read back from the text is the value, so different values have
  different names.
\<close>

locale text_format =
  fixes valid :: "'a \<Rightarrow> bool"
    and print :: "'a \<Rightarrow> string"
    and parse :: "string \<Rightarrow> 'a result"
  assumes parse_print: "valid x \<Longrightarrow> parse (print x) = Inr x"
begin

lemma print_inject: "valid x \<Longrightarrow> valid y \<Longrightarrow> print x = print y \<longleftrightarrow> x = y"
  by (metis parse_print sum.inject(2))

lemma distinct_names: "distinct (map key xs) \<Longrightarrow> \<forall>x \<in> set xs. valid (key x) \<Longrightarrow> distinct (map (\<lambda>x. print (key x)) xs)"
proof (induction xs)
  case (Cons x xs)
  have "print (key x) \<notin> (\<lambda>x. print (key x)) ` set xs"
  proof
    assume "print (key x) \<in> (\<lambda>x. print (key x)) ` set xs"
    then obtain y where "y \<in> set xs" "print (key x) = print (key y)" by blast
    then have "key x \<in> key ` set xs" using print_inject [of "key x" "key y"] Cons.prems(2) by simp
    then show False using Cons.prems(1) by simp
  qed
  then show ?case using Cons by simp
qed simp

end

interpretation service_names: text_format spec_ok VipSpec_str VipSpec_parse
  by unfold_locales (rule VipSpec_str_parts; simp add: spec_ok_def)

interpretation address_names: text_format "\<lambda>_. True" ipv4_to_string parse_ipv4
  by unfold_locales simp

lemma names_plain [simp]:
  "CHR 34 \<notin> set (ipv4_to_string a)" "newline \<notin> set (ipv4_to_string a)"
  "CHR 34 \<notin> set (VipSpec_str sp)" "newline \<notin> set (VipSpec_str sp)"
  by (simp_all add: ipv4_to_string_def VipSpec_str_def newline_def notin_to_string isdigit_def)

lemma quoted_inject:
  "CHR 34 \<notin> set a \<Longrightarrow> CHR 34 \<notin> set b \<Longrightarrow> a @ CHR 34 # x = b @ CHR 34 # y \<longleftrightarrow> a = b \<and> x = y"
proof (induction a arbitrary: b)
  case Nil
  then show ?case by (cases b) auto
next
  case (Cons c a)
  then show ?case by (cases b) auto
qed

section \<open>Lines and series\<close>

definition series :: "string \<Rightarrow> string \<Rightarrow> string" where
  "series name labels = (if labels = [] then name else name @ ''{'' @ labels @ ''}'')"

definition sample_line :: "string \<times> u64 \<Rightarrow> string" where
  "sample_line sv = fst sv @ '' '' @ to_string (unat (snd sv))"

definition family_samples :: "string \<times> string \<times> string \<times> samples \<Rightarrow> samples" where
  "family_samples f = (case f of (name, _, _, ss) \<Rightarrow> map (\<lambda>(labels, v). (series name labels, v)) ss)"

definition family_lines :: "string \<times> string \<times> string \<times> samples \<Rightarrow> string list" where
  "family_lines f =
     (case f of (name, kind, help, ss) \<Rightarrow>
        (''# HELP '' @ name @ '' '' @ help) # (''# TYPE '' @ name @ '' '' @ kind) # map sample_line (family_samples f))"

definition plain_family :: "string \<times> string \<times> string \<times> samples \<Rightarrow> bool" where
  "plain_family f \<longleftrightarrow>
     (case f of (name, kind, help, ss) \<Rightarrow>
        name \<noteq> [] \<and> hd name \<noteq> CHR ''#'' \<and> CHR ''{'' \<notin> set name \<and> newline \<notin> set name \<and> newline \<notin> set kind \<and> newline \<notin> set help \<and>
        (\<forall>(labels, v) \<in> set ss. newline \<notin> set labels) \<and> distinct (map fst ss))"

lemma replies_simps [simp]: "replies [] = []" "replies (l # ls) = l @ newline # replies ls" "replies (xs @ ys) = replies xs @ replies ys"
  by (simp_all add: replies_def)

lemma frames_replies: "\<forall>l \<in> set ls. newline \<notin> set l \<Longrightarrow> frames [] (replies ls) = (ls, [])"
  by (induction ls) (simp_all add: frames_append frames_no_newline)

lemma exposition_lines: "exposition fs = replies (concat (map family_lines fs))"
proof -
  have "concat (map (\<lambda>(labels, v). sample name labels v) ss) = replies (map sample_line (map (\<lambda>(labels, v). (series name labels, v)) ss))"
    for name ss
    by (induction ss) (auto simp: sample_def sample_line_def series_def)
  then have "(case f of (name, kind, help, ss) \<Rightarrow> family_head name kind help @ concat (map (\<lambda>(labels, v). sample name labels v) ss)) =
      replies (family_lines f)" for f
    by (cases f) (simp add: family_lines_def family_samples_def family_head_def)
  then show ?thesis unfolding exposition_def by (induction fs) simp_all
qed

lemma to_string_no_newline [simp]: "newline \<notin> set (to_string n)"
  by (simp add: notin_to_string newline_def isdigit_def)

lemma series_plain: "newline \<notin> set name \<Longrightarrow> newline \<notin> set labels \<Longrightarrow> newline \<notin> set (series name labels)"
  by (simp add: series_def newline_def)

lemma family_lines_plain:
  assumes "plain_family f" "l \<in> set (family_lines f)"
  shows "newline \<notin> set l"
proof -
  obtain name kind about ss where f: "f = (name, kind, about, ss)" by (cases f)
  have lit: "newline \<notin> set ''# HELP ''" "newline \<notin> set ''# TYPE ''" "newline \<notin> set '' ''" by (simp_all add: newline_def)
  consider "l = ''# HELP '' @ name @ '' '' @ about" | "l = ''# TYPE '' @ name @ '' '' @ kind"
    | labels v where "(labels, v) \<in> set ss" "l = series name labels @ '' '' @ to_string (unat v)"
    using assms(2) by (auto simp: f family_lines_def family_samples_def sample_line_def)
  then show ?thesis
  proof cases
    case 3
    have "newline \<notin> set name" "newline \<notin> set labels" using assms(1) 3(1) by (auto simp: f plain_family_def)
    then show ?thesis using series_plain [of name labels] lit(3) unfolding 3(2) set_append by simp
  qed (use assms(1) lit in \<open>simp_all only: f plain_family_def prod.case set_append Un_iff simp_thms\<close>)
qed

definition is_comment :: "string \<Rightarrow> bool" where
  "is_comment l \<longleftrightarrow> l \<noteq> [] \<and> hd l = CHR ''#''"

lemma family_comments:
  assumes "plain_family f"
  shows "filter (\<lambda>l. \<not> is_comment l) (family_lines f) = map sample_line (family_samples f)"
proof -
  have "\<not> is_comment (sample_line (series name labels, v))" if "name \<noteq> []" "hd name \<noteq> CHR ''#''" for name labels v
    using that by (cases name) (simp_all add: sample_line_def series_def is_comment_def)
  then have "filter (\<lambda>l. \<not> is_comment l) (map sample_line (family_samples f)) = map sample_line (family_samples f)"
    using assms by (cases f) (auto simp: plain_family_def family_samples_def filter_id_conv)
  then show ?thesis by (cases f) (simp add: family_lines_def is_comment_def)
qed

lemma series_name: "CHR ''{'' \<notin> set name \<Longrightarrow> takeWhile (\<lambda>c. c \<noteq> CHR ''{'') (series name labels) = name"
  by (auto simp: series_def takeWhile_tail)

lemma series_inject: "series name a = series name b \<longleftrightarrow> a = b"
  by (auto simp: series_def)

lemma distinct_series:
  "\<forall>f \<in> set fs. plain_family f \<Longrightarrow> distinct (map fst fs) \<Longrightarrow> distinct (map fst (concat (map family_samples fs)))"
proof (induction fs)
  case (Cons f fs)
  have named: "takeWhile (\<lambda>c. c \<noteq> CHR ''{'') x = fst g" if "plain_family g" "x \<in> fst ` set (family_samples g)" for g x
    using that by (cases g) (auto simp: plain_family_def family_samples_def series_name)
  have "distinct (map fst (family_samples f))"
  proof -
    obtain name kind about ss where f: "f = (name, kind, about, ss)" by (cases f)
    have "distinct (map (series name) (map fst ss))"
      using Cons.prems(1) by (simp add: f plain_family_def distinct_map inj_on_def series_inject)
    then show ?thesis by (simp add: f family_samples_def comp_def case_prod_beta')
  qed
  moreover have "fst ` set (family_samples f) \<inter> fst ` set (concat (map family_samples fs)) = {}"
  proof (rule ccontr)
    assume "\<not> ?thesis"
    then obtain x where x: "x \<in> fst ` set (family_samples f)" "x \<in> fst ` set (concat (map family_samples fs))" by blast
    then obtain g where g: "g \<in> set fs" "x \<in> fst ` set (family_samples g)"
      unfolding set_concat set_map by blast
    then have "fst f = fst g" using named [of f x] named [of g x] x(1) Cons.prems(1) by simp
    then show False using g(1) Cons.prems(2) by simp
  qed
  ultimately show ?case using Cons by simp
qed simp

lemma exposition_samples:
  assumes "\<forall>f \<in> set fs. plain_family f" "distinct (map fst fs)"
  shows "filter (\<lambda>l. \<not> is_comment l) (fst (frames [] (exposition fs))) = map sample_line (concat (map family_samples fs))"
    "distinct (map fst (concat (map family_samples fs)))"
proof -
  have "\<forall>l \<in> set (concat (map family_lines fs)). newline \<notin> set l" using assms(1) family_lines_plain by auto
  moreover have "filter (\<lambda>l. \<not> is_comment l) (concat (map family_lines fs)) = map sample_line (concat (map family_samples fs))"
    using assms(1) by (induction fs) (simp_all add: family_comments)
  ultimately show "filter (\<lambda>l. \<not> is_comment l) (fst (frames [] (exposition fs))) = map sample_line (concat (map family_samples fs))"
    by (simp add: exposition_lines frames_replies)
qed (rule distinct_series [OF assms])

section \<open>The families\<close>

lemma distinct_concat_map:
  assumes "distinct vs" "\<And>v. v \<in> set vs \<Longrightarrow> distinct (map (f v) (rs v))"
    "\<And>v w r q. v \<in> set vs \<Longrightarrow> w \<in> set vs \<Longrightarrow> r \<in> set (rs v) \<Longrightarrow> q \<in> set (rs w) \<Longrightarrow> f v r = f w q \<Longrightarrow> v = w"
  shows "distinct (concat (map (\<lambda>v. map (f v) (rs v)) vs))"
  using assms
proof (induction vs)
  case (Cons v vs)
  have "f v r \<noteq> f w q" if "w \<in> set vs" "r \<in> set (rs v)" "q \<in> set (rs w)" for w r q
    using Cons.prems(1) Cons.prems(3) [of v w r q] that by auto
  moreover have "distinct (concat (map (\<lambda>v. map (f v) (rs v)) vs))"
    using Cons.prems by (intro Cons.IH) auto
  ultimately show ?case using Cons.prems(2) [of v] by (auto simp: distinct_map)
qed simp

lemma snapshot_set:
  "v \<in> set (snapshot s) \<longleftrightarrow>
   (\<exists>sp w. smap_find (vips s) sp = Some w \<and>
      v = \<lparr>vv_spec = sp, vv_id = v_id w, vv_flags = v_flags w, vv_generation = v_generation w,
           vv_reals = map (\<lambda>(addr, m). view_of s w addr m) (items (v_members w))\<rparr>)"
  by (force simp: snapshot_def smap.in_entries)

lemma snapshot_view:
  assumes "smap_find (vips s) sp = Some v"
  obtains w where "w \<in> set (snapshot s)" "vv_spec w = sp" "vv_id w = v_id v"
    "vv_reals w = map (\<lambda>(addr, m). view_of s v addr m) (items (v_members v))"
proof (rule that)
  show "\<lparr>vv_spec = sp, vv_id = v_id v, vv_flags = v_flags v, vv_generation = v_generation v,
      vv_reals = map (\<lambda>(addr, m). view_of s v addr m) (items (v_members v))\<rparr> \<in> set (snapshot s)"
    unfolding snapshot_set using assms by blast
qed simp_all

lemma distinct_map_sort_key: "distinct (map f (sort_key g xs)) \<longleftrightarrow> distinct (map f xs)"
  by (metis distinct_map distinct_sort set_sort)

lemma snapshot_specs: "distinct (map vv_spec (snapshot s))"
proof -
  have "distinct (map fst (items (vips s)))" by (rule smap.distinct_entries)
  then show ?thesis by (simp add: snapshot_def distinct_map_sort_key comp_def case_prod_beta')
qed

lemma view_addrs:
  assumes "v \<in> set (snapshot s)"
  shows "distinct (map rv_addr (vv_reals v))"
proof -
  obtain w where "vv_reals v = map (\<lambda>(addr, m). view_of s w addr m) (items (v_members w))"
    using assms by (auto simp: snapshot_set)
  then show ?thesis using smap.distinct_entries [of "v_members w"] by (simp add: view_of_def comp_def case_prod_beta')
qed

text \<open>Every member has an id, and an id stands for one address.\<close>

definition ids_known :: "lb \<Rightarrow> bool" where
  "ids_known s \<longleftrightarrow> (\<forall>v \<in> set (snapshot s). \<forall>r \<in> set (vv_reals v). id_of s (rv_addr r) = Some (rv_real_id r)) \<and>
     (\<forall>a b i. id_of s a = Some i \<and> id_of s b = Some i \<longrightarrow> a = b)"

lemma inv_ids_known:
  assumes inv: "lb_inv c s"
  shows "ids_known s"
proof -
  note C = coreD [OF lb_inv_core [OF inv]]
  have "id_of s (rv_addr r) = Some (rv_real_id r)" if v: "v \<in> set (snapshot s)" and r: "r \<in> set (vv_reals v)" for v r
  proof -
    obtain sp w where w1: "smap_find (vips s) sp = Some w" "vv_reals v = map (\<lambda>(addr, m). view_of s w addr m) (items (v_members w))"
      using v unfolding snapshot_set by (elim exE conjE) simp
    obtain a m where "(a, m) \<in> set (items (v_members w))" "r = view_of s w a m" using r w1(2) by auto
    note w = w1(1) this [unfolded smap.in_entries]
    have "id_of s a \<noteq> None" using member_id [OF C(4) _ w(1), of a] w(2) by (auto simp: member_addrs_def)
    then show ?thesis by (auto simp: w(3) view_of_def)
  qed
  moreover have "a = b" if "id_of s a = Some i" "id_of s b = Some i" for a b i
    using rt_inv_inj [OF C(1)] that by (auto simp: id_of_def)
  ultimately show ?thesis unfolding ids_known_def by blast
qed

lemma seen_reals_find:
  "smap_find (seen_reals vs) i = Some a \<Longrightarrow> \<exists>v \<in> set vs. \<exists>r \<in> set (vv_reals v). rv_real_id r = i \<and> rv_addr r = a"
  "v \<in> set vs \<Longrightarrow> r \<in> set (vv_reals v) \<Longrightarrow> smap_find (seen_reals vs) (rv_real_id r) \<noteq> None"
proof -
  have eq: "seen_reals vs = foldl (\<lambda>seen r. smap_insert (rv_real_id r) (rv_addr r) seen) smap_empty (concat (map vv_reals vs))"
  proof -
    have "foldl (\<lambda>seen v. foldl f seen (g v)) x vs = foldl f x (concat (map g vs))" for f g x and vs :: "vip_view list"
      by (induction vs arbitrary: x) simp_all
    then show ?thesis by (simp add: seen_reals_def)
  qed
  have "smap_find (foldl (\<lambda>seen r. smap_insert (rv_real_id r) (rv_addr r) seen) smap_empty rs) =
      map_of (rev (map (\<lambda>r. (rv_real_id r, rv_addr r)) rs))" for rs
    by (induction rs rule: rev_induct) (simp_all add: fun_eq_iff smap.find_empty smap.find_insert)
  then have find: "smap_find (seen_reals vs) = map_of (rev (map (\<lambda>r. (rv_real_id r, rv_addr r)) (concat (map vv_reals vs))))"
    by (simp add: eq)
  show "\<exists>v \<in> set vs. \<exists>r \<in> set (vv_reals v). rv_real_id r = i \<and> rv_addr r = a" if "smap_find (seen_reals vs) i = Some a"
    using map_of_SomeD [OF that [unfolded find]] by auto
  show "smap_find (seen_reals vs) (rv_real_id r) \<noteq> None" if "v \<in> set vs" "r \<in> set (vv_reals v)"
    unfolding find map_of_eq_None_iff using that by force
qed

lemma seen_reals_ids:
  assumes "ids_known s"
  shows "smap_find (seen_reals (snapshot s)) i = Some a \<Longrightarrow> id_of s a = Some i"
    "v \<in> set (snapshot s) \<Longrightarrow> r \<in> set (vv_reals v) \<Longrightarrow> smap_find (seen_reals (snapshot s)) (rv_real_id r) = Some (rv_addr r)"
proof -
  show known: "id_of s a = Some i" if "smap_find (seen_reals (snapshot s)) i = Some a" for i a
    using seen_reals_find(1) [OF that] assms by (auto simp: ids_known_def)
  show "smap_find (seen_reals (snapshot s)) (rv_real_id r) = Some (rv_addr r)" if v: "v \<in> set (snapshot s)" "r \<in> set (vv_reals v)"
  proof -
    obtain b where b: "smap_find (seen_reals (snapshot s)) (rv_real_id r) = Some b" using seen_reals_find(2) [OF v] by auto
    then show ?thesis using known [OF b] assms v unfolding ids_known_def by metis
  qed
qed

lemma vip_labels:
  assumes "\<forall>v \<in> set vs. spec_ok (vv_spec v)" "distinct (map vv_spec vs)"
  shows "distinct (map vip_label vs)"
proof -
  have "distinct (map (\<lambda>v. VipSpec_str (vv_spec v)) vs)" by (rule service_names.distinct_names [OF assms(2,1)])
  then show ?thesis by (auto simp: vip_label_def distinct_map inj_on_def)
qed

lemma real_label_inject:
  "real_label v r = real_label w q \<longleftrightarrow> VipSpec_str (vv_spec v) = VipSpec_str (vv_spec w) \<and> rv_addr r = rv_addr q"
  by (simp add: real_label_def vip_label_def quoted_inject)

lemma per_real_labels:
  assumes "\<forall>v \<in> set vs. spec_ok (vv_spec v)" "distinct (map vv_spec vs)" "\<And>v. v \<in> set vs \<Longrightarrow> distinct (map rv_addr (vv_reals v))"
  shows "distinct (map fst (per_real vs f))"
proof -
  have "distinct (concat (map (\<lambda>v. map (real_label v) (vv_reals v)) vs))"
  proof (rule distinct_concat_map)
    show "distinct vs" using assms(2) by (simp add: distinct_map)
    show "distinct (map (real_label v) (vv_reals v))" if "v \<in> set vs" for v
      using assms(3) [OF that] by (auto simp: distinct_map inj_on_def real_label_inject)
    show "v = w" if "v \<in> set vs" "w \<in> set vs" "real_label v r = real_label w q" for v w r q
      using that assms(1,2) service_names.print_inject [of "vv_spec v" "vv_spec w"]
      by (auto simp: real_label_inject distinct_map inj_on_def)
  qed
  then show ?thesis by (simp add: per_real_def map_concat comp_def)
qed

definition good_samples :: "samples \<Rightarrow> bool" where
  "good_samples ss \<longleftrightarrow> (\<forall>l \<in> set (map fst ss). newline \<notin> set l) \<and> distinct (map fst ss)"

definition plain_head :: "string \<times> string \<times> string \<Rightarrow> bool" where
  "plain_head h \<longleftrightarrow>
     (case h of (name, kind, about) \<Rightarrow>
        name \<noteq> [] \<and> hd name \<noteq> CHR ''#'' \<and> CHR ''{'' \<notin> set name \<and> newline \<notin> set name \<and> newline \<notin> set kind \<and> newline \<notin> set about)"

lemma plain_family_parts: "plain_family (name, kind, about, ss) \<longleftrightarrow> plain_head (name, kind, about) \<and> good_samples ss"
  by (auto simp: plain_family_def plain_head_def good_samples_def)

lemma vip_label_plain [simp]: "newline \<notin> set (vip_label v)"
proof -
  have "newline \<notin> set ''vip=\"''" "newline \<notin> set ''\"''" by (simp_all add: newline_def)
  then show ?thesis by (simp only: vip_label_def set_append Un_iff names_plain simp_thms)
qed

lemma real_label_plain: "newline \<notin> set (real_label v r)" "newline \<notin> set (''real=\"'' @ ipv4_to_string a @ ''\"'')"
proof -
  have lit: "newline \<notin> set '',real=\"''" "newline \<notin> set ''real=\"''" "newline \<notin> set ''\"''" by (simp_all add: newline_def)
  then show "newline \<notin> set (real_label v r)" "newline \<notin> set (''real=\"'' @ ipv4_to_string a @ ''\"'')"
    by (simp_all only: real_label_def set_append Un_iff names_plain vip_label_plain simp_thms)
qed

definition drop_label :: "string \<times> pb_counter \<Rightarrow> string \<Rightarrow> string" where
  "drop_label d name = ''vip=\"'' @ name @ ''\",reason=\"'' @ fst d @ ''\"''"

lemma drop_label_inject: "CHR 34 \<notin> set a \<Longrightarrow> CHR 34 \<notin> set b \<Longrightarrow> drop_label d a = drop_label e b \<longleftrightarrow> a = b \<and> fst d = fst e"
  by (simp add: drop_label_def quoted_inject)

lemma drop_label_plain: "d \<in> set kDrops \<Longrightarrow> newline \<notin> set name \<Longrightarrow> newline \<notin> set (drop_label d name)"
proof -
  assume d: "d \<in> set kDrops" and n: "newline \<notin> set name"
  have "newline \<notin> set ''vip=\"''" "newline \<notin> set ''\",reason=\"''" "newline \<notin> set ''\"''" by (simp_all add: newline_def)
  moreover have "newline \<notin> set (fst d)" using d by (auto simp: kDrops_def newline_def)
  ultimately show ?thesis using n by (simp only: drop_label_def set_append Un_iff simp_thms)
qed

definition drop_names :: "vip_view list \<Rightarrow> string list" where
  "drop_names vs = ''global'' # map (\<lambda>v. VipSpec_str (vv_spec v)) vs"

lemma drop_names_plain:
  assumes "n \<in> set (drop_names vs)"
  shows "CHR 34 \<notin> set n" "newline \<notin> set n"
proof -
  consider "n = ''global''" | sp where "n = VipSpec_str sp" using assms by (auto simp: drop_names_def)
  then have "CHR 34 \<notin> set n \<and> newline \<notin> set n" by cases (simp add: newline_def, simp)
  then show "CHR 34 \<notin> set n" "newline \<notin> set n" by simp_all
qed

lemma drop_labels:
  assumes "\<forall>v \<in> set vs. spec_ok (vv_spec v)" "distinct (map vv_spec vs)"
  shows "distinct (concat (map (\<lambda>d. map (drop_label d) (drop_names vs)) kDrops))"
proof (rule distinct_concat_map)
  note quote = drop_names_plain(1) [where vs = vs]
  have colon: "CHR '':'' \<in> set (VipSpec_str sp)" for sp by (simp add: VipSpec_str_def)
  have "CHR '':'' \<notin> set ''global''" by simp
  then have "''global'' \<noteq> VipSpec_str sp" for sp using colon [of sp] by metis
  then have "distinct (drop_names vs)"
    using service_names.distinct_names [OF assms(2,1)] by (auto simp: drop_names_def)
  then show "distinct (map (drop_label d) (drop_names vs))" for d
    using quote by (auto simp: distinct_map inj_on_def drop_label_inject)
  show "d = e" if "d \<in> set kDrops" "e \<in> set kDrops" "r \<in> set (drop_names vs)" "q \<in> set (drop_names vs)" "drop_label d r = drop_label e q" for d e r q
  proof -
    have "fst d = fst e" using that(5) drop_label_inject [OF quote quote, OF that(3,4)] by simp
    moreover have "distinct (map fst kDrops)" by (simp add: kDrops_def)
    ultimately show ?thesis using that(1,2) by (simp add: distinct_map inj_on_def)
  qed
qed (simp add: kDrops_def)

lemma zip_map_self: "zip xs (map f xs) = map (\<lambda>x. (x, f x)) xs"
  by (induction xs) simp_all

text \<open>The samples of the families, with the index loops resolved.\<close>

definition vip_samples :: "lb \<Rightarrow> (vip_view \<Rightarrow> u64) \<Rightarrow> samples" where
  "vip_samples s f = map (\<lambda>v. (vip_label v, f v)) (snapshot s)"

definition drop_samples :: "map_reader \<Rightarrow> lb \<Rightarrow> samples" where
  "drop_samples R s =
     concat (map (\<lambda>d. map (\<lambda>(name, cs). (drop_label d name, cs (snd d)))
       ((''global'', counters R (kmaps s) PB_STATS_GLOBAL) #
        map (\<lambda>v. (VipSpec_str (vv_spec v), counters R (kmaps s) (vv_id v))) (snapshot s))) kDrops)"

definition packet_samples :: "map_reader \<Rightarrow> lb \<Rightarrow> samples" where
  "packet_samples R s =
     map (\<lambda>(i, addr). (''real=\"'' @ ipv4_to_string addr @ ''\"'', rs_packets (real_counters R (kmaps s) i))) (items (seen_reals (snapshot s)))"

lemma metric_families_eq:
  "metric_families R W mode s =
     map (\<lambda>(metric, c, about). (metric, ''counter'', about, vip_samples s (\<lambda>v. counters R (kmaps s) (vv_id v) c))) kPerVip @
     [(''pb_pass_total'', ''counter'', ''Packets passed to the kernel stack (not for any VIP).'', [([], counters R (kmaps s) PB_STATS_GLOBAL PB_CNT_PASS)]),
      (''pb_drops_total'', ''counter'', ''Packets dropped by the data plane, by reason.'', drop_samples R s),
      (''pb_real_packets_total'', ''counter'', ''Packets sent to the real, all VIPs.'', packet_samples R s),
      (''pb_real_up'', ''gauge'', ''1 if the real passes health checks (always 1 when unchecked).'', per_real (snapshot s) (\<lambda>r. of_bool (rv_up r))),
      (''pb_real_weight'', ''gauge'', ''Configured weight of the real (draining reals keep theirs).'', per_real (snapshot s) (\<lambda>r. ucast (rv_weight r))),
      (''pb_ring_generation'', ''counter'', ''Number of ring swaps for the VIP since the daemon started.'', vip_samples s vv_generation),
      (''pb_conntrack_entries'', ''gauge'', ''Keys in the connection table (O(n) walk per scrape).'', [([], of_nat (conntrack_entries R W))]),
      (''pb_xdp_mode'', ''gauge'', ''XDP attach mode in effect.'', [(''mode=\"'' @ xdp_mode_name mode @ ''\"'', 1)])]"
  unfolding metric_families_def Let_def zip_map_self
  by (simp add: vip_samples_def drop_samples_def packet_samples_def drop_label_def vip_label_def comp_def case_prod_beta')

lemma good_vip_samples:
  "\<forall>v \<in> set (snapshot s). spec_ok (vv_spec v) \<Longrightarrow> good_samples (vip_samples s f)"
  using vip_labels [OF _ snapshot_specs] by (auto simp: good_samples_def vip_samples_def comp_def)

lemma good_drop_samples:
  assumes "\<forall>v \<in> set (snapshot s). spec_ok (vv_spec v)"
  shows "good_samples (drop_samples R s)"
proof -
  have "map fst (drop_samples R s) = concat (map (\<lambda>d. map (drop_label d) (drop_names (snapshot s))) kDrops)"
    by (simp add: drop_samples_def drop_names_def map_concat comp_def case_prod_beta')
  moreover have "\<forall>l \<in> set (concat (map (\<lambda>d. map (drop_label d) (drop_names (snapshot s))) kDrops)). newline \<notin> set l"
  proof
    fix l
    assume "l \<in> set (concat (map (\<lambda>d. map (drop_label d) (drop_names (snapshot s))) kDrops))"
    then obtain d n where "d \<in> set kDrops" "n \<in> set (drop_names (snapshot s))" "l = drop_label d n" by auto
    then show "newline \<notin> set l" using drop_label_plain drop_names_plain(2) by blast
  qed
  ultimately show ?thesis
    using drop_labels [OF assms snapshot_specs] by (simp only: good_samples_def simp_thms)
qed

lemma good_packet_samples:
  assumes "ids_known s"
  shows "good_samples (packet_samples R s)"
proof -
  let ?m = "seen_reals (snapshot s)"
  have "inj_on snd (set (items ?m))"
    using seen_reals_ids(1) [OF assms] by (auto simp: inj_on_def smap.in_entries) (metis option.inject)
  then have "distinct (map snd (items ?m))" by (simp add: distinct_map smap.distinct_entries_pairs)
  then have "distinct (map (\<lambda>a. ''real=\"'' @ ipv4_to_string a @ ''\"'') (map snd (items ?m)))"
    by (simp add: distinct_map inj_on_def address_names.print_inject)
  then show ?thesis
    using real_label_plain(2) by (auto simp: good_samples_def packet_samples_def comp_def case_prod_beta')
qed

lemma good_per_real:
  assumes "\<forall>v \<in> set (snapshot s). spec_ok (vv_spec v)"
  shows "good_samples (per_real (snapshot s) f)"
  using per_real_labels [OF assms snapshot_specs view_addrs] real_label_plain(1)
  by (auto simp: good_samples_def per_real_def)

lemma metric_families_plain:
  assumes "\<forall>v \<in> set (snapshot s). spec_ok (vv_spec v)" "ids_known s"
  shows "\<forall>f \<in> set (metric_families R W mode s). plain_family f" "distinct (map fst (metric_families R W mode s))"
proof -
  let ?fs = "metric_families R W mode s"
  have "good_samples (snd (snd (snd f)))" if "f \<in> set ?fs" for f
  proof -
    have "newline \<notin> set (''mode=\"'' @ xdp_mode_name mode @ ''\"'')" by (cases mode) (simp_all add: xdp_mode_name_def newline_def)
    then have "good_samples [(''mode=\"'' @ xdp_mode_name mode @ ''\"'', 1)]" "good_samples [([], x)]" for x by (simp_all add: good_samples_def)
    then show ?thesis
      using that good_vip_samples [OF assms(1)] good_drop_samples [OF assms(1)] good_packet_samples [OF assms(2)] good_per_real [OF assms(1)]
      unfolding metric_families_eq set_append set_map by (elim UnE imageE) auto
  qed
  moreover have "list_all plain_head (map (\<lambda>(n, k, h, _). (n, k, h)) ?fs)"
    by (simp add: metric_families_eq kPerVip_def plain_head_def newline_def)
  ultimately show "\<forall>f \<in> set ?fs. plain_family f"
    by (auto simp: plain_family_parts list_all_iff)
  show "distinct (map fst ?fs)" by (simp add: metric_families_eq kPerVip_def)
qed

section \<open>The exchange\<close>

lemma send_response_all:
  "\<forall>n r. r \<noteq> [] \<longrightarrow> 0 < send n r \<Longrightarrow> send_response send n resp wire = wire @ resp"
proof (induction send n resp wire rule: send_response.induct)
  case (1 send n resp wire)
  show ?case
  proof (cases "resp = []")
    case False
    then have pos: "\<not> send n resp \<le> 0" using 1(2) by (simp add: not_le)
    show ?thesis using 1(1) [OF False pos 1(2)] False pos by (subst send_response.simps) simp
  qed (subst send_response.simps, simp)
qed

lemma contains_set: "contains pat xs \<Longrightarrow> x \<in> set pat \<Longrightarrow> x \<in> set xs"
proof (induction xs)
  case (Cons a xs)
  have "x \<in> set (a # xs)" if "take (length pat) (a # xs) = pat" using Cons.prems(2) in_set_takeD [of x "length pat" "a # xs"] that by simp
  then show ?case using Cons by auto
qed simp

lemma recv_request_line:
  assumes "\<forall>c \<in> set chunks. c \<noteq> []" "take n (got @ concat chunks) = l" "length l = n" "CHR 10 \<notin> set l" "n < 8192"
  shows "take n (recv_request chunks got) = l"
  using assms(1,2)
proof (induction chunks arbitrary: got)
  case (Cons c cs)
  show ?case
  proof (cases "request_read got")
    case True
    have "n \<le> length got"
    proof (rule ccontr)
      assume short: "\<not> n \<le> length got"
      then have "set got \<subseteq> set l" using Cons.prems(2) by auto
      then show False
        using True short assms(4,5) contains_set [of "[CHR 10, CHR 10]" got "CHR 10"]
          contains_set [of "[CHR 13, CHR 10, CHR 13, CHR 10]" got "CHR 10"] by (auto simp: request_read_def)
    qed
    then show ?thesis using True Cons.prems(2) by simp
  next
    case False
    then show ?thesis using Cons.IH [of "got @ c"] Cons.prems by simp
  qed
qed simp

lemma scrape_line:
  assumes "\<forall>c \<in> set chunks. c \<noteq> []" "take 13 (concat chunks) = ''GET /metrics ''"
  shows "is_metrics (request_line (recv_request chunks []))"
proof -
  have "take 13 (recv_request chunks []) = ''GET /metrics ''"
    by (rule recv_request_line [OF assms(1)]) (use assms(2) in simp_all)
  then obtain r where r: "recv_request chunks [] = ''GET /metrics '' @ r" by (metis append_take_drop_id)
  show ?thesis unfolding r by (simp add: is_metrics_def request_line_def)
qed

section \<open>Claims\<close>

lemma family_sample_in:
  assumes "(name, kind, about, ss) \<in> set fs" "(labels, v) \<in> set ss"
  shows "(series name labels, v) \<in> set (concat (map family_samples fs))"
proof -
  have "(series name labels, v) \<in> set (family_samples (name, kind, about, ss))"
    unfolding family_samples_def prod.case set_map by (rule image_eqI [OF _ assms(2)]) simp
  then show ?thesis using assms(1) unfolding set_concat set_map by blast
qed

lemma vip_sample_in:
  assumes "smap_find (vips s) sp = Some v" "(metric, c, about) \<in> set kPerVip"
  shows "(metric @ ''{vip=\"'' @ VipSpec_str sp @ ''\"}'', counters R (kmaps s) (v_id v) c) \<in> set (concat (map family_samples (metric_families R W mode s)))"
proof -
  have f: "(metric, ''counter'', about, vip_samples s (\<lambda>v. counters R (kmaps s) (vv_id v) c)) \<in> set (metric_families R W mode s)"
    unfolding metric_families_eq set_append set_map by (rule UnI1, rule image_eqI [OF _ assms(2)]) simp
  obtain w where w: "w \<in> set (snapshot s)" "vv_spec w = sp" "vv_id w = v_id v" using snapshot_view [OF assms(1)] by blast
  have "(vip_label w, counters R (kmaps s) (vv_id w) c) \<in> set (vip_samples s (\<lambda>v. counters R (kmaps s) (vv_id v) c))"
    using w(1) by (simp add: vip_samples_def)
  from family_sample_in [OF f this] show ?thesis by (simp add: series_def vip_label_def w)
qed

lemma real_samples_in:
  fixes R W mode
  assumes "ids_known s" "smap_find (vips s) sp = Some v" "smap_find (v_members v) a = Some m"
  defines "S \<equiv> set (concat (map family_samples (metric_families R W mode s)))"
    and "who \<equiv> ''{vip=\"'' @ VipSpec_str sp @ ''\",real=\"'' @ ipv4_to_string a @ ''\"}''"
  shows "(''pb_real_up'' @ who, of_bool (m_up m)) \<in> S" "(''pb_real_weight'' @ who, ucast (m_weight m)) \<in> S"
    "\<exists>i. id_of s a = Some i \<and> (''pb_real_packets_total{real=\"'' @ ipv4_to_string a @ ''\"}'', rs_packets (real_counters R (kmaps s) i)) \<in> S"
proof -
  obtain w where w: "w \<in> set (snapshot s)" "vv_spec w = sp" "vv_reals w = map (\<lambda>(addr, m). view_of s v addr m) (items (v_members v))"
    using snapshot_view [OF assms(2)] by blast
  let ?r = "view_of s v a m"
  have r: "?r \<in> set (vv_reals w)" unfolding w(3) set_map
    by (rule image_eqI [of _ _ "(a, m)"]) (simp_all add: smap.in_entries assms(3))
  have view: "rv_addr ?r = a" "rv_up ?r = m_up m" "rv_weight ?r = m_weight m" by (simp_all add: view_of_def)
  have per: "(real_label w ?r, f ?r) \<in> set (per_real (snapshot s) f)" for f
    using w(1) r by (auto simp: per_real_def)
  have fs: "(''pb_real_up'', ''gauge'', ''1 if the real passes health checks (always 1 when unchecked).'', per_real (snapshot s) (\<lambda>r. of_bool (rv_up r)))
      \<in> set (metric_families R W mode s)"
    "(''pb_real_weight'', ''gauge'', ''Configured weight of the real (draining reals keep theirs).'', per_real (snapshot s) (\<lambda>r. ucast (rv_weight r)))
      \<in> set (metric_families R W mode s)"
    "(''pb_real_packets_total'', ''counter'', ''Packets sent to the real, all VIPs.'', packet_samples R s) \<in> set (metric_families R W mode s)"
    unfolding metric_families_eq set_append by simp_all
  show "(''pb_real_up'' @ who, of_bool (m_up m)) \<in> S" "(''pb_real_weight'' @ who, ucast (m_weight m)) \<in> S"
    using family_sample_in [OF fs(1) per] family_sample_in [OF fs(2) per]
    by (simp_all add: S_def who_def series_def real_label_def vip_label_def w(2) view)
  have i: "id_of s a = Some (rv_real_id ?r)" "smap_find (seen_reals (snapshot s)) (rv_real_id ?r) = Some a"
    using assms(1) seen_reals_ids(2) [OF assms(1) w(1) r] w(1) r unfolding ids_known_def view by (metis view(1), simp)
  then have "(''real=\"'' @ ipv4_to_string a @ ''\"'', rs_packets (real_counters R (kmaps s) (rv_real_id ?r))) \<in> set (packet_samples R s)"
    unfolding packet_samples_def set_map by (intro image_eqI [of _ _ "(rv_real_id ?r, a)"]) (simp_all add: smap.in_entries)
  from family_sample_in [OF fs(3) this] i(1)
  show "\<exists>i. id_of s a = Some i \<and> (''pb_real_packets_total{real=\"'' @ ipv4_to_string a @ ''\"}'', rs_packets (real_counters R (kmaps s) i)) \<in> S"
    by (auto simp: S_def series_def)
qed



end
