(* ===== verification/Pbctl.thy ===== *)
theory Pbctl
  imports Daemon_Server "HOL-Library.Countable"
begin

text \<open>
  \<^verbatim>\<open>src/pbctl/main.cpp\<close> and \<^verbatim>\<open>src/pbctl/client.cpp\<close>: the command line of the control tool, the request it builds and the
  exchange with the daemon over its socket.  Where the tool prints a message and exits, the model returns the status and
  the message.  What the kernel returns on the client's side of the connection is an argument (\<open>client_io\<close>), and so are the
  JSON library and the printing of a result.
\<close>

section \<open>The code\<close>

definition usage :: "string \<Rightarrow> 'a or_exit" where
  "usage msg = Exit 2 (''pbctl: '' @ msg @ '' (see pbctl --help)'' @ [CHR 10])"

definition bind_exit :: "'a or_exit \<Rightarrow> ('a \<Rightarrow> 'b or_exit) \<Rightarrow> 'b or_exit" where
  "bind_exit m f = (case m of Go x \<Rightarrow> f x | Exit n msg \<Rightarrow> Exit n msg)"

record args =
  positional :: "string list"
  given_flags :: "string \<Rightarrow> string option"

definition is_flag :: "string \<Rightarrow> bool" where
  "is_flag w \<longleftrightarrow> take 2 w = ''--''"

fun args_loop :: "string list \<Rightarrow> string list \<Rightarrow> string list \<Rightarrow> args \<Rightarrow> args or_exit" where
  "args_loop value_flags bool_flags [] a = Go a"
| "args_loop value_flags bool_flags (w # ws) a =
     (if \<not> is_flag w then args_loop value_flags bool_flags ws (a\<lparr>positional := positional a @ [w]\<rparr>)
      else if w \<in> set bool_flags then
        args_loop value_flags bool_flags ws (a\<lparr>given_flags := (given_flags a)(w \<mapsto> [])\<rparr>)
      else if w \<in> set value_flags then
        (case ws of
           [] \<Rightarrow> usage (w @ '' needs a value'')
         | v # ws' \<Rightarrow> args_loop value_flags bool_flags ws' (a\<lparr>given_flags := (given_flags a)(w \<mapsto> v)\<rparr>))
      else usage (''unknown option '' @ w))"

definition Args :: "string list \<Rightarrow> string list \<Rightarrow> string list \<Rightarrow> args or_exit" where
  "Args ws value_flags bool_flags = args_loop value_flags bool_flags ws \<lparr>positional = [], given_flags = (\<lambda>_. None)\<rparr>"

definition pos_arg :: "args \<Rightarrow> nat \<Rightarrow> string \<Rightarrow> string or_exit" where
  "pos_arg a i label = (if i \<ge> length (positional a) then usage (''missing '' @ label) else Go (positional a ! i))"

definition expect_count :: "args \<Rightarrow> nat \<Rightarrow> unit or_exit" where
  "expect_count a n = (if length (positional a) > n then usage (''unexpected argument '' @ positional a ! n) else Go ())"

definition vip_word :: "string \<Rightarrow> string or_exit" where
  "vip_word s = (case VipSpec_parse s of Inl e \<Rightarrow> usage (what e) | Inr _ \<Rightarrow> Go s)"

definition number :: "string \<Rightarrow> string \<Rightarrow> u64 or_exit" where
  "number s label =
     (case stoul s of
        Inr (n, used) \<Rightarrow> if used \<noteq> length s then usage (''bad '' @ label @ '': '' @ s) else Go n
      | Inl _ \<Rightarrow> usage (''bad '' @ label @ '': '' @ s))"

text \<open>\<^verbatim>\<open>if (a.has(flag)) req[key] = f(a.flag(flag))\<close>.\<close>

definition put_flag :: "args \<Rightarrow> string \<Rightarrow> string \<Rightarrow> (string \<Rightarrow> json or_exit) \<Rightarrow> json \<Rightarrow> json or_exit" where
  "put_flag a flag key f req =
     (case given_flags a flag of None \<Rightarrow> Go req | Some s \<Rightarrow> bind_exit (f s) (\<lambda>v. Go (jput key v req)))"

definition vip_json :: "string \<Rightarrow> json or_exit" where
  "vip_json s = bind_exit (vip_word s) (\<lambda>s. Go (JStr s))"

definition vip_request :: "string list \<Rightarrow> string \<Rightarrow> json or_exit" where
  "vip_request more_words verb =
     (if verb = ''add'' then
        bind_exit (Args more_words [] [''--no-conntrack'']) (\<lambda>a.
        bind_exit (expect_count a 1) (\<lambda>_.
        bind_exit (pos_arg a 0 ''VIP'') (\<lambda>v. bind_exit (vip_json v) (\<lambda>v.
        put_flag a ''--no-conntrack'' ''no_conntrack'' (\<lambda>_. Go (JBool True)) (jobj [(''cmd'', JStr ''vip.add''), (''vip'', v)])))))
      else if verb = ''del'' then
        bind_exit (Args more_words [] []) (\<lambda>a.
        bind_exit (expect_count a 1) (\<lambda>_.
        bind_exit (pos_arg a 0 ''VIP'') (\<lambda>v. bind_exit (vip_json v) (\<lambda>v.
        Go (jobj [(''cmd'', JStr ''vip.del''), (''vip'', v)])))))
      else if verb = ''list'' then
        bind_exit (Args more_words [] []) (\<lambda>a. bind_exit (expect_count a 0) (\<lambda>_. Go (jobj [(''cmd'', JStr ''vip.list'')])))
      else usage ''vip needs add|del|list'')"

definition real_request :: "string list \<Rightarrow> string \<Rightarrow> json or_exit" where
  "real_request more_words verb =
     (if verb = ''add'' then
        bind_exit (Args more_words [''--weight''] []) (\<lambda>a.
        bind_exit (expect_count a 2) (\<lambda>_.
        bind_exit (pos_arg a 0 ''VIP'') (\<lambda>v. bind_exit (vip_json v) (\<lambda>v.
        bind_exit (pos_arg a 1 ''ADDR'') (\<lambda>addr.
        put_flag a ''--weight'' ''weight'' (\<lambda>s. bind_exit (number s ''weight'') (\<lambda>n. Go (JWord n)))
          (jobj [(''cmd'', JStr ''real.add''), (''vip'', v), (''addr'', JStr addr)]))))))
      else if verb = ''weight'' then
        bind_exit (Args more_words [] []) (\<lambda>a.
        bind_exit (expect_count a 3) (\<lambda>_.
        bind_exit (pos_arg a 0 ''VIP'') (\<lambda>v. bind_exit (vip_json v) (\<lambda>v.
        bind_exit (pos_arg a 1 ''ADDR'') (\<lambda>addr.
        bind_exit (pos_arg a 2 ''WEIGHT'') (\<lambda>w. bind_exit (number w ''weight'') (\<lambda>n.
        Go (jobj [(''cmd'', JStr ''real.weight''), (''vip'', v), (''addr'', JStr addr), (''weight'', JWord n)]))))))))
      else if verb = ''del'' \<or> verb = ''drain'' \<or> verb = ''undrain'' then
        bind_exit (Args more_words [] []) (\<lambda>a.
        bind_exit (expect_count a 2) (\<lambda>_.
        bind_exit (pos_arg a 0 ''VIP'') (\<lambda>v. bind_exit (vip_json v) (\<lambda>v.
        bind_exit (pos_arg a 1 ''ADDR'') (\<lambda>addr.
        Go (jobj [(''cmd'', JStr (''real.'' @ verb)), (''vip'', v), (''addr'', JStr addr)]))))))
      else usage ''real needs add|del|weight|drain|undrain'')"

definition build_request :: "string list \<Rightarrow> json or_exit" where
  "build_request ws =
     (case ws of
        [] \<Rightarrow> usage ''missing command''
      | noun # after \<Rightarrow>
          let verb = (case after of [] \<Rightarrow> [] | v # _ \<Rightarrow> v); more_words = tl after in
          if noun = ''ping'' \<or> noun = ''health'' \<or> noun = ''reload'' \<or> noun = ''config'' then
            (case after of v # _ \<Rightarrow> usage (''unexpected argument '' @ v) | [] \<Rightarrow> Go (jobj [(''cmd'', JStr noun)]))
          else if noun = ''vip'' then vip_request more_words verb
          else if noun = ''real'' then real_request more_words verb
          else if noun = ''stats'' then
            bind_exit (Args after [''--vip''] []) (\<lambda>a.
            bind_exit (expect_count a 0) (\<lambda>_.
            put_flag a ''--vip'' ''vip'' vip_json (jobj [(''cmd'', JStr ''stats'')])))
          else if noun = ''flows'' then
            bind_exit (Args after [''--vip'', ''--real'', ''--limit''] []) (\<lambda>a.
            bind_exit (expect_count a 0) (\<lambda>_.
            bind_exit (put_flag a ''--vip'' ''vip'' vip_json (jobj [(''cmd'', JStr ''flows'')])) (\<lambda>req.
            bind_exit (put_flag a ''--real'' ''real'' (\<lambda>s. Go (JStr s)) req) (\<lambda>req.
            put_flag a ''--limit'' ''limit'' (\<lambda>s. bind_exit (number s ''limit'') (\<lambda>n. Go (JWord n))) req))))
          else if noun = ''ring'' then
            (if verb \<noteq> ''show'' then usage ''ring needs show''
             else
               bind_exit (Args more_words [] []) (\<lambda>a.
               bind_exit (expect_count a 1) (\<lambda>_.
               bind_exit (pos_arg a 0 ''VIP'') (\<lambda>v. bind_exit (vip_json v) (\<lambda>v.
               Go (jobj [(''cmd'', JStr ''ring.show''), (''vip'', v)]))))))
          else usage (''unknown command '' @ noun))"

fun globals_loop :: "string \<Rightarrow> string list \<Rightarrow> string \<times> bool \<times> string list \<Rightarrow> (string \<times> bool \<times> string list) or_exit" where
  "globals_loop kUsage [] acc = Go acc"
| "globals_loop kUsage (a # as) (socket, raw_json, ws) =
     (if a = ''--socket'' then
        (case as of [] \<Rightarrow> usage ''--socket needs a value'' | v # as' \<Rightarrow> globals_loop kUsage as' (v, raw_json, ws))
      else if a = ''--json'' then globals_loop kUsage as (socket, True, ws)
      else if a = ''-h'' \<or> a = ''--help'' \<or> a = ''help'' then Exit 0 kUsage
      else globals_loop kUsage as (socket, raw_json, ws @ [a]))"

text \<open>
  \<^verbatim>\<open>value(key, fallback)\<close>: \<open>None\<close> is the library's \<^verbatim>\<open>type_error\<close>, for a value that is no object or a member of the wrong type.
\<close>

definition value_bool :: "json \<Rightarrow> string \<Rightarrow> bool \<Rightarrow> bool option" where
  "value_bool j key fallback =
     (if \<not> is_object j then None
      else case jfind j key of None \<Rightarrow> Some fallback | Some (JBool b) \<Rightarrow> Some b | Some _ \<Rightarrow> None)"

definition value_string :: "json \<Rightarrow> string \<Rightarrow> string \<Rightarrow> string option" where
  "value_string j key fallback =
     (if \<not> is_object j then None
      else case jfind j key of None \<Rightarrow> Some fallback | Some (JStr s) \<Rightarrow> Some s | Some _ \<Rightarrow> None)"

text \<open>
  The end of \<^verbatim>\<open>main\<close>, after the call: the exit status and what is printed.  \<open>bad\<close> is the text of the library's exception,
  \<open>show_result\<close> the printing, which may throw as well.  A response that says \<^verbatim>\<open>ok\<close> and has no result is undefined behaviour
  (\<^verbatim>\<open>operator[]\<close> of a constant value), here \<open>None\<close>.
\<close>

definition report_response ::
  "string \<Rightarrow> (json \<Rightarrow> string + string) \<Rightarrow> string + json \<Rightarrow> (nat \<times> string) option" where
  "report_response bad show_result answer =
     (let fail = (\<lambda>w. Some (1, ''error: '' @ w @ [CHR 10])) in
      case answer of
        Inl w \<Rightarrow> fail w
      | Inr resp \<Rightarrow>
          (case value_bool resp ''ok'' False of
             None \<Rightarrow> fail bad
           | Some False \<Rightarrow> (case value_string resp ''error'' ''unknown error'' of None \<Rightarrow> fail bad | Some w \<Rightarrow> fail w)
           | Some True \<Rightarrow>
               (case jfind resp ''result'' of
                  None \<Rightarrow> None
                | Some result \<Rightarrow> (case show_result result of Inl w \<Rightarrow> fail w | Inr out \<Rightarrow> Some (0, out)))))"

definition request_cmd :: "json \<Rightarrow> string" where
  "request_cmd req = (case jfind req ''cmd'' of Some (JStr s) \<Rightarrow> s | _ \<Rightarrow> [])"

text \<open>
  \<^verbatim>\<open>main\<close> up to the call; \<open>Inl\<close> is an exit before anything was sent.
\<close>

definition prepare :: "string \<Rightarrow> string option \<Rightarrow> string list \<Rightarrow> (nat \<times> string) + (string \<times> bool \<times> json)" where
  "prepare kUsage env argv =
     (case globals_loop kUsage argv (case env of Some s \<Rightarrow> s | None \<Rightarrow> ''/run/packetbalance.sock'', False, []) of
        Exit n msg \<Rightarrow> Inl (n, msg)
      | Go (socket, raw_json, ws) \<Rightarrow>
          (case build_request ws of Exit n msg \<Rightarrow> Inl (n, msg) | Go req \<Rightarrow> Inr (socket, raw_json, req)))"

section \<open>The exchange with the daemon\<close>

text \<open>
  The results of the calls of \<^verbatim>\<open>call\<close>: \<open>c_socket_error\<close> and \<open>c_connect_error\<close> are the \<^verbatim>\<open>strerror\<close> of a call that failed,
  \<open>c_write\<close> is \<^verbatim>\<open>write\<close> as \<^verbatim>\<open>send\<close> on the server's side, \<open>c_reads\<close> what the successive \<^verbatim>\<open>read\<close> calls return; beyond
  the end of the list \<^verbatim>\<open>read\<close> blocks.
\<close>

datatype read_result = ReadErr string | ReadIntr | ReadBytes string

record client_io =
  c_socket_error :: "string option"
  c_connect_error :: "string \<Rightarrow> string option"
  c_write :: "nat \<Rightarrow> string \<Rightarrow> sent"
  c_write_error :: string
  c_reads :: "read_result list"

fun read_response :: "read_result list \<Rightarrow> string \<Rightarrow> (string + string) option" where
  "read_response inputs resp =
     (if find_char newline resp \<noteq> None then Some (Inr resp)
      else case inputs of
        [] \<Rightarrow> None
      | ReadIntr # rem \<Rightarrow> read_response rem resp
      | ReadErr w # rem \<Rightarrow> Some (Inl (''read: '' @ w))
      | ReadBytes chunk # rem \<Rightarrow> if chunk = [] then Some (Inr resp) else read_response rem (resp @ chunk))"

declare read_response.simps [simp del]

definition first_line :: "string \<Rightarrow> string" where
  "first_line resp = (case find_char newline resp of None \<Rightarrow> resp | Some nl \<Rightarrow> substr resp 0 nl)"

definition sun_path_size :: nat where
  "sun_path_size = 108"

definition call ::
  "client_io \<Rightarrow> (string \<Rightarrow> string + json) \<Rightarrow> (json \<Rightarrow> string) \<Rightarrow> string \<Rightarrow> json \<Rightarrow> (string + json) option" where
  "call io parse dump socket_path request =
     (if length socket_path \<ge> sun_path_size then Some (Inl ''socket path too long'')
      else case c_socket_error io of
        Some w \<Rightarrow> Some (Inl (''socket: '' @ w))
      | None \<Rightarrow>
          (case c_connect_error io socket_path of
             Some w \<Rightarrow> Some (Inl (''cannot connect to '' @ socket_path @ '': '' @ w @ '' (is packetbalance running?)''))
           | None \<Rightarrow>
               (case write_all (c_write io) (dump request @ [newline]) (0, []) of
                  None \<Rightarrow> None
                | Some (False, out) \<Rightarrow> Some (Inl (''write: '' @ c_write_error io))
                | Some (True, out) \<Rightarrow>
                    (case read_response (c_reads io) [] of
                       None \<Rightarrow> None
                     | Some (Inl w) \<Rightarrow> Some (Inl w)
                     | Some (Inr resp) \<Rightarrow>
                         Some (if resp = [] then Inl ''daemon closed the connection without answering''
                               else case parse (first_line resp) of
                                 Inl w \<Rightarrow> Inl (''bad response from daemon: '' @ w)
                               | Inr j \<Rightarrow> Inr j)))))"

text \<open>\<^verbatim>\<open>main\<close>.  A call that never returns is \<open>None\<close>, too.\<close>

definition run_pbctl ::
  "string \<Rightarrow> string option \<Rightarrow> string \<Rightarrow> (json \<Rightarrow> string) \<Rightarrow> (string \<Rightarrow> json \<Rightarrow> string + string) \<Rightarrow>
   (string \<Rightarrow> json \<Rightarrow> (string + json) option) \<Rightarrow> string list \<Rightarrow> (nat \<times> string) option" where
  "run_pbctl kUsage env bad dump2 print_result do_call argv =
     (case prepare kUsage env argv of
        Inl out \<Rightarrow> Some out
      | Inr (socket, raw_json, req) \<Rightarrow>
          (case do_call socket req of
             None \<Rightarrow> None
           | Some answer \<Rightarrow>
               report_response bad
                 (\<lambda>result. if raw_json then Inr (dump2 result @ [CHR 10]) else print_result (request_cmd req) result)
                 answer))"

section \<open>Words\<close>

lemma bind_exit_simps [simp]: "bind_exit (Go x) f = f x" "bind_exit (Exit n m) f = Exit n m"
  by (simp_all add: bind_exit_def)

lemma usage_not_Go [simp]: "usage m \<noteq> Go x" "bind_exit (usage m) f = usage m"
  by (simp_all add: usage_def)

lemma hd_to_string: "isdigit (hd (to_string n))"
  using to_string_digits [of "hd (to_string n)" n] by simp

lemma digit_no_flag: "w \<noteq> [] \<Longrightarrow> isdigit (hd w) \<Longrightarrow> \<not> is_flag w"
  by (cases w) (auto simp: is_flag_def isdigit_def)

lemma digit_not_space: "isdigit c \<Longrightarrow> \<not> isspace c" "isdigit c \<Longrightarrow> c \<noteq> CHR ''-''" "isdigit c \<Longrightarrow> c \<noteq> CHR ''+''"
  by (auto simp: isdigit_def isspace_def)

lemma words_no_flags [simp]: "\<not> is_flag (to_string n)" "\<not> is_flag (ipv4_to_string a)" "\<not> is_flag (VipSpec_str sp)"
  by (rule digit_no_flag; simp add: ipv4_to_string_def VipSpec_str_def hd_to_string)+

lemma stoul_to_string: "n < 2 ^ 64 \<Longrightarrow> stoul (to_string n) = Inr (of_nat n, length (to_string n))"
proof -
  assume n: "n < 2 ^ 64"
  obtain c cs where s: "to_string n = c # cs" by (cases "to_string n") simp_all
  have c: "isdigit c" using hd_to_string [of n] by (simp add: s)
  have digits: "takeWhile isdigit (to_string n) = to_string n" "dropWhile isdigit (to_string n) = []"
    using to_string_digits [of _ n] by (auto simp: takeWhile_eq_all_conv dropWhile_eq_Nil_conv)
  have start: "dropWhile isspace (to_string n) = to_string n" "strip_sign (to_string n) = (False, to_string n)"
    using digit_not_space [OF c] by (simp_all add: s strip_sign_def)
  show ?thesis unfolding stoul_def start prod.case Let_def digits using n by simp
qed

section \<open>How an operation is spelled\<close>

fun spell :: "lb_op \<Rightarrow> string list" where
  "spell (AddVip sp nc) = [''vip'', ''add'', VipSpec_str sp] @ (if nc then [''--no-conntrack''] else [])"
| "spell (DelVip sp) = [''vip'', ''del'', VipSpec_str sp]"
| "spell (AddReal sp a w) = [''real'', ''add'', VipSpec_str sp, ipv4_to_string a, ''--weight'', to_string (unat w)]"
| "spell (DelReal sp a) = [''real'', ''del'', VipSpec_str sp, ipv4_to_string a]"
| "spell (SetWeight sp a w) = [''real'', ''weight'', VipSpec_str sp, ipv4_to_string a, to_string (unat w)]"
| "spell (SetDraining sp a b) = [''real'', if b then ''drain'' else ''undrain'', VipSpec_str sp, ipv4_to_string a]"
| "spell op = []"

fun vip_of :: "lb_op \<Rightarrow> vip_spec" where
  "vip_of (AddVip sp nc) = sp"
| "vip_of (DelVip sp) = sp"
| "vip_of (AddReal sp a w) = sp"
| "vip_of (DelReal sp a) = sp"
| "vip_of (SetWeight sp a w) = sp"
| "vip_of (SetDraining sp a b) = sp"
| "vip_of op = VipSpec 0 0 0"

definition op_json :: "lb_op \<Rightarrow> json" where
  "op_json op =
     (let vip = (''vip'', JStr (VipSpec_str (vip_of op))); addr = (\<lambda>a. (''addr'', JStr (ipv4_to_string a))) in
      case op of
        AddVip sp nc \<Rightarrow>
          (let req = jobj [(''cmd'', JStr ''vip.add''), vip] in if nc then jput ''no_conntrack'' (JBool True) req else req)
      | DelVip sp \<Rightarrow> jobj [(''cmd'', JStr ''vip.del''), vip]
      | AddReal sp a w \<Rightarrow> jput ''weight'' (JWord w) (jobj [(''cmd'', JStr ''real.add''), vip, addr a])
      | DelReal sp a \<Rightarrow> jobj [(''cmd'', JStr ''real.del''), vip, addr a]
      | SetWeight sp a w \<Rightarrow> jobj [(''cmd'', JStr ''real.weight''), vip, addr a, (''weight'', JWord w)]
      | SetDraining sp a b \<Rightarrow> jobj [(''cmd'', JStr (if b then ''real.drain'' else ''real.undrain'')), vip, addr a]
      | _ \<Rightarrow> JNull)"

lemma vip_json_str: "spec_ok sp \<Longrightarrow> vip_json (VipSpec_str sp) = Go (JStr (VipSpec_str sp))"
  using VipSpec_str_parts [of sp] by (auto simp: vip_json_def vip_word_def spec_ok_def)

lemma number_str: "number (to_string (unat (w :: u32))) label = Go (ucast w)"
  using unat_bounds(3) [of w] by (simp add: number_def stoul_to_string)

lemma JWord_weight: "JWord (ucast (w :: u32) :: u64) = JWord w"
proof -
  have "unat (ucast w :: u64) = unat w" using unat_bounds(3) [of w] by (simp add: unsigned_ucast_eq take_bit_eq_mod)
  then show ?thesis by (simp add: JWord_def)
qed

lemmas build_simps = build_request_def vip_request_def real_request_def Args_def expect_count_def pos_arg_def put_flag_def
  vip_json_str number_str JWord_weight op_json_def is_flag_def Let_def

lemma build_spelled: "spell op \<noteq> [] \<Longrightarrow> spec_ok (vip_of op) \<Longrightarrow> build_request (spell op) = Go (op_json op)"
  using words_no_flags unfolding is_flag_def
  by (cases op) (simp_all add: build_simps)

lemma op_json_object: "spell op \<noteq> [] \<Longrightarrow> is_object (op_json op)"
  by (cases op) (simp_all add: op_json_def Let_def)

lemma arg_vip_str: "jfind req k = Some (JStr (VipSpec_str sp)) \<Longrightarrow> spec_ok sp \<Longrightarrow> arg_vip req k = Inr sp"
  using VipSpec_str_parts [of sp] by (auto simp: arg_vip_def arg_string_def arg_def catch_invalid_def spec_ok_def)

lemma arg_addr_str: "jfind req k = Some (JStr (ipv4_to_string a)) \<Longrightarrow> arg_addr req k = Inr a"
  by (simp add: arg_addr_def arg_string_def arg_def catch_invalid_def)

lemma arg_cmd_str: "jfind req k = Some (JStr c) \<Longrightarrow> arg_string req k = Inr c"
  by (simp add: arg_string_def arg_def)

lemma arg_uint_word: "jfind req k = Some (JWord (w :: u32)) \<Longrightarrow> arg_uint req k fallback = Inr w"
  using uint_lt2p [of w] get_int64_word [of w] by (simp add: arg_uint_def arg_def JWord_def)

lemma request_op_spelled:
  assumes "spell op \<noteq> []" "spec_ok (vip_of op)"
  shows "request_op (op_json op) = Some op"
proof (cases op)
  case (AddVip sp nc)
  let ?req = "op_json op"
  have "jfind ?req ''cmd'' = Some (JStr ''vip.add'')" "jfind ?req ''vip'' = Some (JStr (VipSpec_str sp))"
    "jfind ?req ''no_conntrack'' = (if nc then Some (JBool True) else None)"
    by (simp_all add: AddVip op_json_def Let_def map_of_jobj)
  then show ?thesis
    using assms(2) AddVip by (simp add: request_op_def arg_cmd_str arg_vip_str arg_bool_def both_def)
next
  case (DelVip sp)
  let ?req = "op_json op"
  have "jfind ?req ''cmd'' = Some (JStr ''vip.del'')" "jfind ?req ''vip'' = Some (JStr (VipSpec_str sp))"
    by (simp_all add: DelVip op_json_def Let_def map_of_jobj)
  then show ?thesis using assms(2) DelVip by (simp add: request_op_def arg_cmd_str arg_vip_str both_def)
next
  case (AddReal sp a w)
  let ?req = "op_json op"
  have "jfind ?req ''cmd'' = Some (JStr ''real.add'')" "jfind ?req ''vip'' = Some (JStr (VipSpec_str sp))"
    "jfind ?req ''addr'' = Some (JStr (ipv4_to_string a))" "jfind ?req ''weight'' = Some (JWord w)"
    by (simp_all add: AddReal op_json_def Let_def map_of_jobj)
  then show ?thesis
    using assms(2) AddReal by (simp add: request_op_def arg_cmd_str arg_vip_str arg_addr_str arg_uint_word both_def)
next
  case (DelReal sp a)
  let ?req = "op_json op"
  have "jfind ?req ''cmd'' = Some (JStr ''real.del'')" "jfind ?req ''vip'' = Some (JStr (VipSpec_str sp))"
    "jfind ?req ''addr'' = Some (JStr (ipv4_to_string a))"
    by (simp_all add: DelReal op_json_def Let_def map_of_jobj)
  then show ?thesis using assms(2) DelReal by (simp add: request_op_def arg_cmd_str arg_vip_str arg_addr_str both_def)
next
  case (SetWeight sp a w)
  let ?req = "op_json op"
  have "jfind ?req ''cmd'' = Some (JStr ''real.weight'')" "jfind ?req ''vip'' = Some (JStr (VipSpec_str sp))"
    "jfind ?req ''addr'' = Some (JStr (ipv4_to_string a))" "jfind ?req ''weight'' = Some (JWord w)"
    by (simp_all add: SetWeight op_json_def Let_def map_of_jobj)
  then show ?thesis
    using assms(2) SetWeight by (simp add: request_op_def arg_cmd_str arg_vip_str arg_addr_str arg_uint_word both_def)
next
  case (SetDraining sp a b)
  let ?req = "op_json op"
  have "jfind ?req ''cmd'' = Some (JStr (if b then ''real.drain'' else ''real.undrain''))"
    "jfind ?req ''vip'' = Some (JStr (VipSpec_str sp))" "jfind ?req ''addr'' = Some (JStr (ipv4_to_string a))"
    by (simp_all add: SetDraining op_json_def Let_def map_of_jobj)
  then show ?thesis using assms(2) SetDraining by (simp add: request_op_def arg_cmd_str arg_vip_str arg_addr_str both_def)
qed (use assms(1) in simp_all)

lemma digit_no_global: "w \<noteq> [] \<Longrightarrow> isdigit (hd w) \<Longrightarrow> w \<notin> {''--socket'', ''--json'', ''-h'', ''--help'', ''help''}"
  by (auto simp: isdigit_def)

lemma words_no_globals:
  "to_string n \<notin> {''--socket'', ''--json'', ''-h'', ''--help'', ''help''}"
  "ipv4_to_string a \<notin> {''--socket'', ''--json'', ''-h'', ''--help'', ''help''}"
  "VipSpec_str sp \<notin> {''--socket'', ''--json'', ''-h'', ''--help'', ''help''}"
  by (rule digit_no_global; simp add: ipv4_to_string_def VipSpec_str_def hd_to_string)+

lemma globals_plain:
  "set ws \<inter> {''--socket'', ''--json'', ''-h'', ''--help'', ''help''} = {} \<Longrightarrow> globals_loop u ws (socket, raw, acc) = Go (socket, raw, acc @ ws)"
  by (induction ws arbitrary: acc) auto

lemma prepare_spelled:
  assumes "spell op \<noteq> []" "spec_ok (vip_of op)"
  shows "prepare u env (spell op) = Inr (case env of Some p \<Rightarrow> p | None \<Rightarrow> ''/run/packetbalance.sock'', False, op_json op)"
proof -
  have "set (spell op) \<inter> {''--socket'', ''--json'', ''-h'', ''--help'', ''help''} = {}"
    using words_no_globals by (cases op) auto
  from globals_plain [OF this] show ?thesis using build_spelled [OF assms] by (simp add: prepare_def)
qed

section \<open>The answer\<close>

fun read_bytes :: "read_result list \<Rightarrow> string" where
  "read_bytes [] = []"
| "read_bytes (ReadBytes chunk # rem) = chunk @ read_bytes rem"
| "read_bytes (r # rem) = read_bytes rem"

definition open_read :: "read_result \<Rightarrow> bool" where
  "open_read r \<longleftrightarrow> (case r of ReadBytes chunk \<Rightarrow> chunk \<noteq> [] | ReadIntr \<Rightarrow> True | ReadErr w \<Rightarrow> False)"

text \<open>A connection on which nothing fails and the bytes \<open>wire\<close> arrive, in whatever pieces.\<close>

definition carries :: "client_io \<Rightarrow> string \<Rightarrow> bool" where
  "carries io wire \<longleftrightarrow>
     c_socket_error io = None \<and> (\<forall>p. c_connect_error io p = None) \<and> delivers (c_write io) \<and>
     (\<forall>r \<in> set (c_reads io). open_read r) \<and> read_bytes (c_reads io) = wire"

text \<open>
  What is used of the JSON library: \<^verbatim>\<open>parse\<close> inputs back what \<^verbatim>\<open>dump\<close> without indentation wrote, and that is one nonempty line, since
  control characters in strings are escaped.
\<close>

definition json_lines :: "(string \<Rightarrow> string + json) \<Rightarrow> (json \<Rightarrow> string) \<Rightarrow> bool" where
  "json_lines parse dump \<longleftrightarrow>
     (\<forall>j. parse (dump j) = Inr j \<and> dump j \<noteq> [] \<and> newline \<notin> set (dump j) \<and> CHR 13 \<notin> set (dump j))"

lemma find_char_None: "find_char c s = None \<longleftrightarrow> c \<notin> set s"
  by (induction s) auto

lemma read_response_line:
  "\<forall>r \<in> set inputs. open_read r \<Longrightarrow> newline \<notin> set got \<Longrightarrow> newline \<in> set (read_bytes inputs) \<Longrightarrow>
   \<exists>resp rem. read_response inputs got = Some (Inr resp) \<and> newline \<in> set resp \<and> got @ read_bytes inputs = resp @ rem"
proof (induction inputs arbitrary: got)
  case (Cons r inputs)
  have got: "find_char newline got = None" using Cons.prems(2) by (simp add: find_char_None)
  show ?case
  proof (cases r)
    case (ReadBytes chunk)
    have ne: "chunk \<noteq> []" using Cons.prems(1) ReadBytes by (simp add: open_read_def)
    show ?thesis
    proof (cases "newline \<in> set chunk")
      case True
      then have "find_char newline (got @ chunk) \<noteq> None" by (simp add: find_char_None)
      then show ?thesis
        using True ne got
        by (simp add: ReadBytes read_response.simps [of "ReadBytes chunk # inputs" got] read_response.simps [of inputs "got @ chunk"])
    next
      case False
      then show ?thesis
        using Cons.IH [of "got @ chunk"] Cons.prems ne got
        by (simp add: ReadBytes read_response.simps [of "ReadBytes chunk # inputs" got])
    qed
  qed (use Cons got in \<open>simp_all add: open_read_def read_response.simps [of "_ # inputs" got]\<close>)
qed simp

lemma first_line_of: "newline \<notin> set x \<Longrightarrow> resp @ rem = x @ newline # y \<Longrightarrow> newline \<in> set resp \<Longrightarrow> first_line resp = x"
proof -
  assume a: "newline \<notin> set x" "resp @ rem = x @ newline # y" "newline \<in> set resp"
  obtain zs where "resp = x @ newline # zs"
    using a(2,3) a(1) by (auto simp: append_eq_append_conv2 append_eq_Cons_conv)
  then show ?thesis using find_char_append [OF a(1)] by (simp add: first_line_def substr_def)
qed

lemma call_answered:
  assumes "carries io (dump j @ [newline])" "json_lines parse dump" "length socket_path < sun_path_size"
  shows "call io parse dump socket_path req = Some (Inr j)"
proof -
  have io: "c_socket_error io = None" "c_connect_error io socket_path = None" "delivers (c_write io)"
    "\<forall>r \<in> set (c_reads io). open_read r" "read_bytes (c_reads io) = dump j @ [newline]"
    using assms(1) by (simp_all add: carries_def)
  have dump: "newline \<notin> set (dump j)" "parse (dump j) = Inr j" using assms(2) by (auto simp: json_lines_def)
  obtain n where w: "write_all (c_write io) (dump req @ [newline]) (0, []) = Some (True, n, dump req @ [newline])"
    using write_all_delivers [OF io(3), of "dump req @ [newline]" 0 "[]"] by auto
  obtain resp rem where r: "read_response (c_reads io) [] = Some (Inr resp)" "newline \<in> set resp"
    "dump j @ [newline] = resp @ rem"
    using read_response_line [OF io(4), of "[]"] io(5) by auto
  have "first_line resp = dump j" using first_line_of [OF dump(1) r(3) [symmetric] r(2)] .
  moreover have "resp \<noteq> []" using r(2) by auto
  ultimately show ?thesis using assms(3) by (simp add: call_def io(1,2) w r(1) dump(2))
qed

lemma one_request:
  assumes "json_lines parse dump" "length (dump j) \<le> kMaxRequestBytes"
  shows "lines_fit [] (dump j @ [newline])" "requests (dump j @ [newline]) = [dump j]"
proof -
  have j: "newline \<notin> set (dump j)" "dump j \<noteq> []" "last (dump j) \<noteq> CHR 13"
    using assms(1) last_in_set [of "dump j"] unfolding json_lines_def by metis+
  have "frames [] (dump j @ [newline]) = ([dump j], [])" using frames_no_newline [OF j(1)] by (simp add: frames_append)
  then show "lines_fit [] (dump j @ [newline])" "requests (dump j @ [newline]) = [dump j]"
    using assms(2) j by (simp_all add: lines_fit_def requests_def requests_in_def strip_cr_def flip: strip_cr_eq)
qed

lemma one_exchange:
  assumes json: "json_lines parse dump"
    and io: "delivers send" "\<forall>t \<in> set turns. open_turn t" "received turns = dump req @ [newline]" "length (dump req) \<le> kMaxRequestBytes"
    and h: "h (dump req) d = (Ret resp, d')"
  shows "\<exists>n. serve h send turns d = (Ret (True, n, resp @ [newline]), d')"
proof -
  note req = one_request [OF json io(4)]
  have "answers h (requests (received turns)) d = (Ret [resp], d')"
    unfolding io(3) req(2) using h by (simp add: bindM_def ret_def)
  then show ?thesis
    using related_Ret [of _ "[resp]" d' "serve h send turns d"] serve_answers [OF io(1,2), of h d] req(1) io(3)
    by (force simp: replies_def)
qed

section \<open>A text format\<close>

text \<open>An instance of the JSON library's two functions: the values numbered, in decimal.\<close>

instance json :: countable
  by countable_datatype

text \<open>The one value \<open>short\<close> is written \<open>0\<close>.\<close>

definition number_dump :: "json \<Rightarrow> json \<Rightarrow> string" where
  "number_dump short j = (if j = short then to_string 0 else to_string (Suc (to_nat j)))"

definition number_parse :: "json \<Rightarrow> string \<Rightarrow> string + json" where
  "number_parse short s = Inr (if dec_val 0 s = 0 then short else from_nat (dec_val 0 s - 1))"

lemma number_json_lines: "json_lines (number_parse short) (number_dump short)"
proof -
  have "newline \<notin> set (to_string n) \<and> CHR 13 \<notin> set (to_string n)" for n
    using to_string_digits [of newline n] to_string_digits [of "CHR 13" n] by (auto simp: isdigit_def newline_def)
  then show ?thesis by (auto simp: json_lines_def number_parse_def number_dump_def)
qed

section \<open>Claims\<close>

lemma status_of_response:
  "report_response bad f (Inr (ok_response j)) = Some (case f j of Inr out \<Rightarrow> (0, out) | Inl w \<Rightarrow> (1, ''error: '' @ w @ [CHR 10]))"
  "report_response bad f (Inr (error_response w)) = Some (1, ''error: '' @ w @ [CHR 10])"
  by (simp_all add: report_response_def value_bool_def value_string_def ok_response_def error_response_def map_of_jobj Let_def
      split: sum.split)



end
