(* ===== verification/Spec2Isabelle.thy ===== *)
theory Spec2Isabelle
  imports Std_Map Maglev_Shares Dataplane_Claims Config Lb_Claims Map_Reader Daemon_Claims Health_Checker Neighbor_Resolver Daemon_Start Metrics Pbctl
begin

text \<open>
  \<^bold>\<open>PacketBalance\<close> is a layer-4 load balancer.  An XDP program (\<^verbatim>\<open>bpf/packetbalance.bpf.c\<close>) picks a real server for every packet of a
  virtual service (VIP) and sends the packet to it in an IP-in-IP tunnel.  A daemon (\<^verbatim>\<open>src/daemon\<close>) keeps the maps the
  program reads: which VIPs there are, for each a ring of 65537 slots that names reals, and the address and MAC of
  every real.  The connection table is written by the program alone.  Operators drive the daemon with \<^verbatim>\<open>pbctl\<close>
  (\<^verbatim>\<open>src/pbctl\<close>), over JSON lines on a Unix socket; two background threads probe the reals and resolve their MACs.  All
  paths below are relative to \<^verbatim>\<open>src/\<close>.

  \<^bold>\<open>Foundations.\<close>
  \<^item> \<^verbatim>\<open>PB_Prelude\<close>: machine words, C++ exceptions as values, byte order, decimal text, \<^verbatim>\<open>std::string\<close> searches.
  \<^item> \<^verbatim>\<open>Std_Map\<close>: \<^verbatim>\<open>std::map\<close> as a sorted association list.  The locale \<open>ordered_map\<close> states its laws; everything else uses
    them through the interpretation \<open>smap\<close>.
  \<^item> \<^verbatim>\<open>Control_Monad\<close>: the daemon's C++ as state transformers that return, throw, or go wrong (undefined behaviour, or a call
    that never returns), with weakest preconditions and loop rules.
  \<^item> \<^verbatim>\<open>Json\<close>: the JSON values the API builds and takes apart.

  \<^bold>\<open>Shared code\<close> (\<^verbatim>\<open>include/packetbalance\<close>, \<^verbatim>\<open>src/core\<close>).
  \<^item> \<^verbatim>\<open>PB_Abi\<close>, \<^verbatim>\<open>PB_Hash\<close>: constants and structs of \<^verbatim>\<open>abi.h\<close>; the hash functions of \<^verbatim>\<open>hash.h\<close>, whose final mix is shown bijective.
  \<^item> \<^verbatim>\<open>Vip_Spec\<close>: \<^verbatim>\<open>vipspec.h\<close>.  The language \<^verbatim>\<open>parse_ipv4\<close> accepts, and that parsing inverts printing.
  \<^item> \<^verbatim>\<open>Maglev_Ring\<close>, \<^verbatim>\<open>Maglev_Shares\<close>: \<^verbatim>\<open>maglev.h\<close> and \<^verbatim>\<open>maglev.cpp\<close>.  The ring is the one of the published algorithm; building it ends on a
    prime size; it is complete, independent of order and of ids; bounds on the shares, and where the 1% promise fails.
  \<^item> \<^verbatim>\<open>Config\<close>: \<^verbatim>\<open>config.h\<close> and \<^verbatim>\<open>config.cpp\<close>.  Exactly the described configurations are valid; parsing is total.

  \<^bold>\<open>Data plane.\<close>
  \<^item> \<^verbatim>\<open>Bpf_Maps\<close>, \<^verbatim>\<open>Dataplane\<close>: the maps as one record \<open>maps\<close>, and \<^verbatim>\<open>xdp_packetbalance\<close> with every function it calls, over byte lists.
    One packet is one step, on one CPU.
  \<^item> \<^verbatim>\<open>Dataplane_Frames\<close>, \<^verbatim>\<open>Dataplane_Props\<close>, \<^verbatim>\<open>Dataplane_Claims\<close>: what is sent is the original packet behind a correct header; tracked flows
    keep their real; counters balance; what is never written.

  \<^bold>\<open>Control plane.\<close>  The state of the daemon is one record that grows by extension: \<open>world\<close> (the maps, a trace of their
  states after every write, a call counter), the real table, \<open>lb\<close>.
  \<^item> \<^verbatim>\<open>Kernel_Calls\<close>: the \<^verbatim>\<open>bpf\<close> calls and \<^verbatim>\<open>ring_map.cpp\<close>.  \<^verbatim>\<open>Mac_Addr\<close>, \<^verbatim>\<open>Real_Table\<close>: \<^verbatim>\<open>real_table.cpp\<close>.
  \<^item> \<^verbatim>\<open>Lb_State\<close>: every method of \<^verbatim>\<open>lb_state.cpp\<close>.  \<^verbatim>\<open>Lb_Inv\<close> and \<^verbatim>\<open>Lb_Steps\<close> hold the invariant, which is kept even between
    the writes of one operation, and the rules of the single steps; \<^verbatim>\<open>Lb_Ops\<close>, \<^verbatim>\<open>Lb_Apply\<close> and \<^verbatim>\<open>Lb_Startup\<close> the operations, a reload and
    a restart.
  \<^item> \<^verbatim>\<open>Lb_Api\<close>: the specification.  \<open>model_of\<close> forgets ids, slots and rings and leaves the services and their members; \<open>lb_step\<close>
    says what each operation does to them; every operation refines it.
  \<^item> \<^verbatim>\<open>Lb_System\<close>: the daemon and the data plane together, as a step relation: operations, packets,
    crashes and restarts, in any order.  \<^verbatim>\<open>Lb_Claims\<close>: connections survive, the maps are safe after every single write, tables
    and reference counts are exact.
  \<^item> \<^verbatim>\<open>Lb_Reports\<close>: the locale \<open>reporter\<close>, the interface through which the background threads feed \<open>LbState\<close>, interpreted on
    \<^verbatim>\<open>report_health\<close> and \<^verbatim>\<open>neighbor_resolved\<close>.
  \<^item> \<^verbatim>\<open>Map_Reader\<close>: \<^verbatim>\<open>map_reader.cpp\<close>, \<^verbatim>\<open>counters.h\<close> and \<^verbatim>\<open>read_ring\<close>: what is read back, and that reading ends.

  \<^bold>\<open>Daemon and tool.\<close>
  \<^item> \<^verbatim>\<open>Options\<close>: \<^verbatim>\<open>options.cpp\<close> over the options \<^verbatim>\<open>getopt_long\<close> returns.  \<^verbatim>\<open>Commands\<close>: \<^verbatim>\<open>commands.cpp\<close>.  \<^verbatim>\<open>Daemon\<close>: loading, reload and hooks
    of \<^verbatim>\<open>daemon.cpp\<close>.  \<^verbatim>\<open>Daemon_Claims\<close>: requests refine the specification, every line is answered, a reload reports the truth.
    \<^verbatim>\<open>Daemon_Start\<close>: a daemon that starts is in service, one that fails does no harm.
  \<^item> \<^verbatim>\<open>Health_Checker\<close>, \<^verbatim>\<open>Neighbor_Resolver\<close>: \<^verbatim>\<open>health_checker.cpp\<close> and \<^verbatim>\<open>neighbor_resolver.cpp\<close>: a round ends, its verdicts, hysteresis, the ARP table.
  \<^item> \<^verbatim>\<open>Api_Server\<close>: \<^verbatim>\<open>serve\<close> of \<^verbatim>\<open>api_server.cpp\<close>.  Its locale \<open>line_handler\<close> is the interface to the handler; \<^verbatim>\<open>Daemon_Server\<close>
    interprets it on the command handler, so that whole connections are served.
  \<^item> \<^verbatim>\<open>Metrics\<close>: \<^verbatim>\<open>metrics.cpp\<close> and \<^verbatim>\<open>serve\<close> of \<^verbatim>\<open>metrics_server.cpp\<close>: a scrape reports every counter, no series twice.  The locale \<open>text_format\<close>
    (what is printed can be read back, so names tell values apart) is interpreted on services and addresses.
  \<^item> \<^verbatim>\<open>Pbctl\<close>: \<^verbatim>\<open>pbctl/main.cpp\<close> and \<^verbatim>\<open>pbctl/client.cpp\<close>.  What an operator types is what the load balancer does, through the request,
    both ends of the socket, the handler and \<open>LbState\<close>.

  \<^bold>\<open>Parameters.\<close>  Code outside the sources is an argument, with named hypotheses: the return codes of \<^verbatim>\<open>bpf\<close> calls (\<open>env\<close>, with
  \<open>env_ok\<close>: array updates and deletions of present keys succeed, no lookup gives a zero MAC; \<open>inserts_ok\<close>: so do insertions; \<open>keys_law\<close>: iterating a map gives its keys), the helpers of the
  data plane (\<open>kernel\<close>), walking the connection table (\<open>quiet_walk\<close>), batched reads (\<open>batches_of\<close>), sockets and clocks (\<open>prober\<close>, \<open>delivers\<close>,
  \<open>carries\<close>), yaml-cpp (\<open>yaml_api\<close>, no law), the JSON library (\<open>json_lines\<close>), \<^verbatim>\<open>getopt_long\<close>, \<^verbatim>\<open>inet_pton\<close>, files.  Each is met by a concrete instance in a
  witness.

  \<^bold>\<open>Bounds.\<close>  No loop has artificial fuel.  Loops that need not end are \<^verbatim>\<open>partial_function (option)\<close> (\<open>rounds_loop\<close> and \<open>walk\<close>, \<open>batch_loop\<close>, \<open>poll_loop\<close>,
  \<open>write_all\<close>), where \<open>None\<close> is a call that never returns, and are shown to return: for a prime ring size, for
  batches that make progress, by the deadline, for a peer that keeps reading.  The walk of the connection table has the bound
  of the code, the size of the map plus one.

  \<^bold>\<open>Not modelled.\<close>  \<^verbatim>\<open>loader.cpp\<close>: calls into libbpf that load, pin and attach; what the daemon relies on is \<open>loader_law\<close>.  \<^verbatim>\<open>pbctl/format.cpp\<close>: text
  output.  \<^verbatim>\<open>main.cpp\<close>, \<^verbatim>\<open>Daemon::run\<close>, \<^verbatim>\<open>periodic_thread.h\<close>, listening on and accepting connections: starting and stopping threads; the mutex of
  \<^verbatim>\<open>LbState\<close> makes each operation one step of \<^verbatim>\<open>Lb_System\<close>.  \<^verbatim>\<open>log.cpp\<close> except \<^verbatim>\<open>parse_level\<close>, and all logging: output only.
  \<^verbatim>\<open>unique_fd.h\<close>: closing of descriptors.  The measuring tools under \<^verbatim>\<open>tools\<close> and the program under \<^verbatim>\<open>lab\<close> are no part of the load balancer.
\<close>

end
